(* ===== verification/Sdarc_Prelude.thy ===== *)
theory Sdarc_Prelude
  imports Main "HOL-Library.Word"
begin

unbundle bit_operations_syntax

text \<open>
  Shared vocabulary of the development: the panics a Rust function may raise, the result type
  of a fallible function, loops that stop at the first panic, reachability of a transition
  system with the interfaces every invariant proof and every termination proof goes through, and the lemmas on lists and
  sums that the components share.
\<close>

section \<open>Panics and fallible functions\<close>

datatype panic =
    ArithmeticOverflow
  | RemByZero
  | IndexOutOfBounds
  | AssertionFailed
  | UnwrapNone
  | ExpectFailed
  | EnvVarUnparsable
  | ShardCountTooLarge
  | InitPanicked
  | DanglingAccess

type_synonym 'a result = "panic + 'a"

text \<open>The error of a fallible function is a \<^typ>\<open>panic\<close>, or a fault of the model of memory.\<close>

definition res_bind :: "'e + 'a \<Rightarrow> ('a \<Rightarrow> 'e + 'b) \<Rightarrow> 'e + 'b" where
  "res_bind r f = (case r of Inl e \<Rightarrow> Inl e | Inr x \<Rightarrow> f x)"

definition assert_r :: "bool \<Rightarrow> unit result" where
  "assert_r b = (if b then Inr () else Inl AssertionFailed)"

named_theorems res_simps

lemma res_bind_Inl [simp, res_simps]: "res_bind (Inl e) f = Inl e"
  by (simp add: res_bind_def)

lemma res_bind_Inr [simp, res_simps]: "res_bind (Inr x) f = f x"
  by (simp add: res_bind_def)

lemma res_bind_eq_Inr [res_simps]:
  "res_bind r f = Inr y \<longleftrightarrow> (\<exists>x. r = Inr x \<and> f x = Inr y)"
  by (cases r) auto

lemma assert_r_eq_Inr [simp, res_simps]: "assert_r b = Inr u \<longleftrightarrow> b"
  by (simp add: assert_r_def)

lemma assert_r_True [simp]: "b \<Longrightarrow> assert_r b = Inr ()"
  by (simp add: assert_r_def)

lemma assert_r_False [simp]: "\<not> b \<Longrightarrow> assert_r b = Inl AssertionFailed"
  by (simp add: assert_r_def)

text \<open>A \<open>for\<close> loop whose body may panic.\<close>

primrec for_r :: "'a list \<Rightarrow> ('a \<Rightarrow> 's \<Rightarrow> 'e + 's) \<Rightarrow> 's \<Rightarrow> 'e + 's" where
  "for_r [] f s = Inr s"
| "for_r (x # xs) f s = res_bind (f x s) (for_r xs f)"

lemma for_r_append: "for_r (xs @ ys) f s = res_bind (for_r xs f s) (for_r ys f)"
  by (induction xs arbitrary: s) (auto simp: res_bind_def split: sum.splits)

lemma for_r_invariant:
  assumes "for_r xs f s = Inr s'" and "I s"
    and "\<And>x t t'. x \<in> set xs \<Longrightarrow> I t \<Longrightarrow> f x t = Inr t' \<Longrightarrow> I t'"
  shows "I s'"
  using assms
proof (induction xs arbitrary: s)
  case Nil
  then show ?case by simp
next
  case (Cons x xs)
  from Cons.prems(1) obtain t where t: "f x s = Inr t" "for_r xs f t = Inr s'"
    by (auto simp: res_bind_eq_Inr)
  have "I t" using Cons.prems(2,3) t(1) by (meson list.set_intros(1))
  then show ?case
    using Cons.IH [OF t(2)] Cons.prems(3) by (meson list.set_intros(2))
qed

section \<open>Transition systems\<close>

inductive reach :: "('s \<Rightarrow> bool) \<Rightarrow> ('s \<Rightarrow> 's \<Rightarrow> bool) \<Rightarrow> 's \<Rightarrow> bool"
  for init :: "'s \<Rightarrow> bool" and stp :: "'s \<Rightarrow> 's \<Rightarrow> bool" where
  reach_init: "init s \<Longrightarrow> reach init stp s"
| reach_step: "reach init stp s \<Longrightarrow> stp s s' \<Longrightarrow> reach init stp s'"

lemma reach_rtranclp: "reach init stp s \<Longrightarrow> stp\<^sup>*\<^sup>* s s' \<Longrightarrow> reach init stp s'"
  by (rotate_tac, induction rule: rtranclp_induct) (auto intro: reach_step)

text \<open>
  The contract of an invariant proof: the operations of a component are the parameter \<open>stp\<close>,
  what every operation keeps is the law \<open>inv_step\<close>. Every transition system of the development
  interprets it.
\<close>

locale invariant_system =
  fixes init :: "'s \<Rightarrow> bool" and stp :: "'s \<Rightarrow> 's \<Rightarrow> bool" and inv :: "'s \<Rightarrow> bool"
  assumes inv_init: "init s \<Longrightarrow> inv s"
    and inv_step: "inv s \<Longrightarrow> stp s s' \<Longrightarrow> inv s'"
begin

lemma reach_inv: "reach init stp s \<Longrightarrow> inv s"
  by (induction rule: reach.induct) (auto intro: inv_init inv_step)

lemma steps_inv: "inv s \<Longrightarrow> stp\<^sup>*\<^sup>* s s' \<Longrightarrow> inv s'"
  by (rotate_tac, induction rule: rtranclp_induct) (auto intro: inv_step)

end

text \<open>
  The contract of a termination proof: as long as the goal is not reached, a step exists that makes the
  list of ranks smaller, in lexicographic order. Then the goal is reached.
\<close>

locale ranked_system =
  fixes stp :: "'s \<Rightarrow> 's \<Rightarrow> bool" and ok :: "'s \<Rightarrow> bool" and goal :: "'s \<Rightarrow> bool" and ranks :: "('s \<Rightarrow> nat) list"
  assumes advance: "ok s \<Longrightarrow> \<not> goal s \<Longrightarrow> \<exists>s'. stp s s' \<and> ok s' \<and> (s', s) \<in> measures ranks"
begin

lemma reaches_goal: "ok s \<Longrightarrow> \<exists>s'. stp\<^sup>*\<^sup>* s s' \<and> ok s' \<and> goal s'"
proof (induction s rule: wf_induct_rule [OF wf_measures [of ranks]])
  case (1 s)
  show ?case
  proof (cases "goal s")
    case False
    with advance [OF 1(2)] obtain s1 where "stp s s1" "ok s1" "(s1, s) \<in> measures ranks" by blast
    with 1(1) show ?thesis by (meson converse_rtranclp_into_rtranclp)
  qed (use 1(2) in blast)
qed

end

text \<open>
  The contract of a refinement proof: an abstraction function takes initial states to initial states of
  the specification, and each step, from a state with the invariant, to some steps of the specification
  (none, for a step the specification does not see). Then it takes reachable states to reachable states.
\<close>

locale refinement = invariant_system init stp inv
  for init :: "'s \<Rightarrow> bool" and stp :: "'s \<Rightarrow> 's \<Rightarrow> bool" and inv :: "'s \<Rightarrow> bool" +
  fixes ainit :: "'a \<Rightarrow> bool" and astp :: "'a \<Rightarrow> 'a \<Rightarrow> bool" and abstr :: "'s \<Rightarrow> 'a"
  assumes abstr_init: "init s \<Longrightarrow> ainit (abstr s)"
    and abstr_step: "inv s \<Longrightarrow> stp s s' \<Longrightarrow> astp\<^sup>*\<^sup>* (abstr s) (abstr s')"
begin

lemma reach_abstr: "reach init stp s \<Longrightarrow> reach ainit astp (abstr s)"
proof (induction rule: reach.induct)
  case (reach_init s)
  then show ?case by (intro reach.reach_init abstr_init)
next
  case (reach_step s s')
  then show ?case using reach_rtranclp abstr_step [OF reach_inv] by metis
qed

end

section \<open>Sums over a list with one element updated\<close>

lemma sum_list_update_int:
  fixes f :: "'a \<Rightarrow> int"
  shows "i < length xs \<Longrightarrow>
    sum_list (map f (xs[i := y])) = sum_list (map f xs) - f (xs ! i) + f y"
proof (induction xs arbitrary: i)
  case Nil
  then show ?case by simp
next
  case (Cons x xs)
  then show ?case by (cases i) auto
qed

lemma sum_list_update_nat:
  fixes f :: "'a \<Rightarrow> nat"
  shows "i < length xs \<Longrightarrow>
    sum_list (map f (xs[i := y])) + f (xs ! i) = sum_list (map f xs) + f y"
proof (induction xs arbitrary: i)
  case Nil
  then show ?case by simp
next
  case (Cons x xs)
  then show ?case by (cases i) auto
qed

lemma int_sum_list_update:
  fixes f :: "'a \<Rightarrow> nat"
  shows "i < length xs \<Longrightarrow>
    int (sum_list (map f (xs[i := y]))) = int (sum_list (map f xs)) - int (f (xs ! i)) + int (f y)"
  using sum_list_update_nat [of i xs f y] by linarith

lemma int_count_list_update:
  "i < length xs \<Longrightarrow>
    int (count_list (xs[i := x]) y) = int (count_list xs y) - of_bool (xs ! i = y) + of_bool (x = y)"
proof (induction xs arbitrary: i)
  case Nil
  then show ?case by simp
next
  case (Cons z xs)
  then show ?case by (cases i) auto
qed

lemma drop_update_if:
  "drop k (xs[i := y]) = (if i < k then drop k xs else (drop k xs)[i - k := y])"
  by (simp add: drop_update_swap)

lemma sum_list_drop_Suc:
  fixes f :: "'a \<Rightarrow> 'b::comm_monoid_add"
  shows "i < length xs \<Longrightarrow>
    sum_list (map f (drop i xs)) = f (xs ! i) + sum_list (map f (drop (Suc i) xs))"
  by (simp flip: Cons_nth_drop_Suc)

lemma sum_list_member_nat:
  fixes f :: "'a \<Rightarrow> nat"
  shows "x \<in> set xs \<Longrightarrow> f x \<le> sum_list (map f xs)"
  by (simp add: member_le_sum_list)

section \<open>Lists of lists with one list changed\<close>

lemma concat_update:
  "i < length xss \<Longrightarrow> concat (xss[i := ys]) = concat (take i xss) @ ys @ concat (drop (Suc i) xss)"
  by (simp add: upd_conv_take_nth_drop)

lemma concat_split_nth:
  "i < length xss \<Longrightarrow> concat xss = concat (take i xss) @ xss ! i @ concat (drop (Suc i) xss)"
  by (metis concat_update list_update_id)

lemma set_concat_snoc:
  "i < length xss \<Longrightarrow> set (concat (xss[i := xss ! i @ [y]])) = insert y (set (concat xss))"
  using arg_cong [OF concat_split_nth [of i xss], of set] by (simp add: concat_update)

lemma distinct_map_concat_snoc:
  "i < length xss \<Longrightarrow> distinct (map f (concat (xss[i := xss ! i @ [y]]))) \<longleftrightarrow>
     distinct (map f (concat xss)) \<and> f y \<notin> f ` set (concat xss)"
  using concat_split_nth [of i xss] by (auto simp: concat_update)

end
