(* ===== verification/Tagged_Counter.thy ===== *)
theory Tagged_Counter
  imports Sdarc_Prelude
begin

text \<open>
  The tagged counter of \<^verbatim>\<open>src/src/tagged_counter.rs\<close>: a 64-bit signed integer whose upper 63
  bits are a reference count and whose lowest bit is the tag a decrement sets.

  Three layers. First the code: \<open>TaggedCounter\<close>, the atomic operations on the 64-bit value, and
  the compare-exchange loop of the decrement against an environment that changes the value
  between attempts. Then the same formulas on mathematical integers (prefix \<open>itc\<close>), which the
  interleaving model of the collector uses: the source rules overflow out by the time it would
  take (about 110 years), and the refinement lemmas say that the two agree as long as the value
  fits. Last the interface \<open>tagged_counters\<close>: the laws every client relies on, and the lemmas
  about scanning an array of counters one shard at a time, proved once from the laws.
\<close>

section \<open>The 64-bit counter\<close>

type_synonym i64 = "64 word"

datatype TaggedCounter = TaggedCounter i64

fun ref_count :: "TaggedCounter \<Rightarrow> i64" where
  "ref_count (TaggedCounter v) = signed_drop_bit 1 v"

fun tag :: "TaggedCounter \<Rightarrow> bool" where
  "tag (TaggedCounter v) \<longleftrightarrow> v AND 1 \<noteq> 0"

text \<open>
  An \<open>AtomicTaggedCounter\<close> is its current value: each operation maps the value to the value
  stored, and the reads return the \<open>TaggedCounter\<close> they saw.
\<close>

definition AtomicTaggedCounter_new :: i64 where
  "AtomicTaggedCounter_new = 0"

definition increment_ref_count_relaxed :: "i64 \<Rightarrow> i64" where
  "increment_ref_count_relaxed v = v + 2"

definition MASK_FOR_CLEARING_TAG :: i64 where
  "MASK_FOR_CLEARING_TAG = NOT 1"

definition fetch_and_clear_tag_relaxed :: "i64 \<Rightarrow> TaggedCounter \<times> i64" where
  "fetch_and_clear_tag_relaxed v = (TaggedCounter v, v AND MASK_FOR_CLEARING_TAG)"

definition load_counter :: "i64 \<Rightarrow> TaggedCounter" where
  "load_counter v = TaggedCounter v"

text \<open>
  The value the decrement tries to store, \<open>(value | 1) - 2\<close>. The subtraction is a plain \<open>-\<close>:
  with overflow checks on (\<open>chk\<close>, the dev profile) it panics, without them it wraps.
\<close>

definition decrement_new_value :: "bool \<Rightarrow> i64 \<Rightarrow> i64 result" where
  "decrement_new_value chk val =
     (if chk \<and> sint (val OR 1) - 2 < - (2 ^ 63) then Inl ArithmeticOverflow
      else Inr ((val OR 1) - 2))"

text \<open>
  The loop. Each element of the environment is one \<open>compare_exchange_weak\<close>: the value the atomic
  holds when it executes, and whether the weak exchange fails spuriously. The result is the value
  replaced and the value stored by the exchange that succeeded; \<open>None\<close> means that every
  listed attempt failed and the loop is still running.
\<close>

fun decrement_loop :: "bool \<Rightarrow> i64 \<Rightarrow> (i64 \<times> bool) list \<Rightarrow> (i64 \<times> i64) option result" where
  "decrement_loop chk val [] = Inr None"
| "decrement_loop chk val ((current, spurious) # attempts) =
     res_bind (decrement_new_value chk val) (\<lambda>new_value.
       if current = val \<and> \<not> spurious then Inr (Some (current, new_value))
       else decrement_loop chk current attempts)"

definition decrement_ref_count_and_set_tag_release ::
  "bool \<Rightarrow> i64 \<Rightarrow> (i64 \<times> bool) list \<Rightarrow> (i64 \<times> i64) option result" where
  "decrement_ref_count_and_set_tag_release chk loaded attempts = decrement_loop chk loaded attempts"

section \<open>The same formulas on integers\<close>

definition itc_ref_count :: "int \<Rightarrow> int" where
  "itc_ref_count v = drop_bit 1 v"

definition itc_tag :: "int \<Rightarrow> bool" where
  "itc_tag v \<longleftrightarrow> v AND 1 \<noteq> 0"

definition itc_increment :: "int \<Rightarrow> int" where
  "itc_increment v = v + 2"

definition itc_decrement :: "int \<Rightarrow> int" where
  "itc_decrement v = (v OR 1) - 2"

definition itc_clear_tag :: "int \<Rightarrow> int" where
  "itc_clear_tag v = v AND NOT 1"

lemmas itc_defs = itc_ref_count_def itc_tag_def itc_increment_def itc_decrement_def
  itc_clear_tag_def

lemma int_or_1: "(v::int) OR 1 = (if even v then v + 1 else v)"
  by (simp add: or_one_eq)

lemma int_and_not_mask: "(v::int) AND NOT (mask n) = push_bit n (drop_bit n v)"
  by (rule bit_eqI) (auto simp: bit_simps)

lemma int_and_not_1: "(v::int) AND NOT 1 = 2 * (v div 2)"
  using int_and_not_mask [of v 1] by (simp add: push_bit_eq_mult drop_bit_eq_div)

lemma int_and_m2: "(v::int) AND - 2 = 2 * (v div 2)"
  using int_and_not_1 [of v] by simp

text \<open>The integer operations in terms of parity and halves: what the proofs compute with.\<close>

lemma itc_ref_count_div: "itc_ref_count v = v div 2"
  by (simp add: itc_ref_count_def drop_bit_eq_div)

lemma itc_tag_odd: "itc_tag v \<longleftrightarrow> odd v"
  by (simp add: itc_tag_def and_one_eq mod_2_eq_odd)

lemmas itc_arith = itc_ref_count_div itc_tag_odd itc_increment_def itc_decrement_def
  itc_clear_tag_def int_or_1 int_and_not_1 int_and_m2

section \<open>The interface of tagged counters\<close>

definition rc_sum :: "('c \<Rightarrow> int) \<Rightarrow> 'c list \<Rightarrow> int" where
  "rc_sum rc xs = sum_list (map rc xs)"

text \<open>
  A collector that has already added the shards below \<open>i\<close> into \<open>acc\<close>, and stops at the first tag,
  cannot end with less than \<open>k\<close>: either a tag is set in a shard it has not read yet, or what it has
  plus what the unread shards hold now is at least \<open>k\<close>.
\<close>

definition scan_evidence ::
  "('c \<Rightarrow> int) \<Rightarrow> ('c \<Rightarrow> bool) \<Rightarrow> int \<Rightarrow> 'c list \<Rightarrow> nat \<Rightarrow> int \<Rightarrow> bool" where
  "scan_evidence rc tg k xs i acc \<longleftrightarrow>
     (\<exists>c \<in> set (drop i xs). tg c) \<or> k \<le> acc + rc_sum rc (drop i xs)"

locale tagged_counters =
  fixes rc :: "'c \<Rightarrow> int" and tg :: "'c \<Rightarrow> bool"
    and inc :: "'c \<Rightarrow> 'c" and dec :: "'c \<Rightarrow> 'c" and clr :: "'c \<Rightarrow> 'c" and fresh :: 'c
  assumes rc_inc [simp]: "rc (inc c) = rc c + 1" and tg_inc [simp]: "tg (inc c) = tg c"
    and rc_dec [simp]: "rc (dec c) = rc c - 1" and tg_dec [simp]: "tg (dec c)"
    and rc_clr [simp]: "rc (clr c) = rc c" and tg_clr [simp]: "\<not> tg (clr c)"
    and rc_fresh [simp]: "rc fresh = 0" and tg_fresh [simp]: "\<not> tg fresh"
begin

lemma sum_inc: "s < length xs \<Longrightarrow> rc_sum rc (xs[s := inc (xs ! s)]) = rc_sum rc xs + 1"
  by (simp add: rc_sum_def sum_list_update_int)

lemma sum_dec: "s < length xs \<Longrightarrow> rc_sum rc (xs[s := dec (xs ! s)]) = rc_sum rc xs - 1"
  by (simp add: rc_sum_def sum_list_update_int)

lemma sum_clr: "s < length xs \<Longrightarrow> rc_sum rc (xs[s := clr (xs ! s)]) = rc_sum rc xs"
  by (simp add: rc_sum_def sum_list_update_int)

lemma sum_fresh: "rc_sum rc (replicate n fresh) = 0"
  by (simp add: rc_sum_def map_replicate sum_list_replicate)

lemma tagged_dec: "s < length xs \<Longrightarrow> \<exists>c \<in> set (xs[s := dec (xs ! s)]). tg c"
  by (rule bexI [of _ "dec (xs ! s)"]) (auto simp: set_update_memI)

lemma tagged_inc:
  assumes "\<exists>c \<in> set xs. tg c"
  shows "\<exists>c \<in> set (xs[s := inc (xs ! s)]). tg c"
proof -
  from assms obtain j where j: "j < length xs" "tg (xs ! j)"
    by (auto simp: in_set_conv_nth)
  then have "tg (xs[s := inc (xs ! s)] ! j)"
    by (cases "s = j") auto
  with j(1) show ?thesis
    by (metis length_list_update nth_mem)
qed

text \<open>The evidence survives every increment and decrement of any shard at any time.\<close>

lemma evidence_inc:
  assumes "s < length xs" and "scan_evidence rc tg k xs i acc"
  shows "scan_evidence rc tg k (xs[s := inc (xs ! s)]) i acc"
proof (cases "s < i")
  case True
  with assms show ?thesis by (simp add: scan_evidence_def drop_update_if)
next
  case False
  then have eq: "drop i (xs[s := inc (xs ! s)]) = (drop i xs)[s - i := inc (drop i xs ! (s - i))]"
    using assms(1) by (simp add: drop_update_if)
  have "s - i < length (drop i xs)" using False assms(1) by simp
  from sum_inc [OF this] tagged_inc [of "drop i xs" "s - i"] assms(2) show ?thesis
    unfolding scan_evidence_def eq by auto
qed

lemma evidence_dec:
  assumes "s < length xs" and "scan_evidence rc tg k xs i acc"
  shows "scan_evidence rc tg k (xs[s := dec (xs ! s)]) i acc"
proof (cases "s < i")
  case True
  with assms show ?thesis by (simp add: scan_evidence_def drop_update_if)
next
  case False
  then have eq: "drop i (xs[s := dec (xs ! s)]) = (drop i xs)[s - i := dec (drop i xs ! (s - i))]"
    using assms(1) by (simp add: drop_update_if)
  have "s - i < length (drop i xs)" using False assms(1) by simp
  from tagged_dec [OF this] show ?thesis
    unfolding scan_evidence_def eq by auto
qed

lemma evidence_start: "k \<le> rc_sum rc xs \<Longrightarrow> scan_evidence rc tg k xs 0 0"
  by (simp add: scan_evidence_def)

lemma evidence_start_tag: "\<exists>c \<in> set xs. tg c \<Longrightarrow> scan_evidence rc tg k xs 0 0"
  by (simp add: scan_evidence_def)

lemma evidence_read:
  assumes "i < length xs" and "\<not> tg (xs ! i)" and "scan_evidence rc tg k xs i acc"
  shows "scan_evidence rc tg k xs (Suc i) (acc + rc (xs ! i))"
  using assms by (simp add: scan_evidence_def rc_sum_def flip: Cons_nth_drop_Suc) auto

lemma evidence_end: "scan_evidence rc tg k xs (length xs) acc \<Longrightarrow> k \<le> acc"
  by (simp add: scan_evidence_def rc_sum_def)

end

interpretation itc: tagged_counters itc_ref_count itc_tag itc_increment itc_decrement itc_clear_tag 0
  by unfold_locales (auto simp: itc_arith)

section \<open>The 64-bit counter refines the integer counter\<close>

lemma sint_ref_count: "sint (ref_count (TaggedCounter v)) = itc_ref_count (sint v)"
  by (simp add: sint_signed_drop_bit_eq itc_ref_count_def)

lemma tag_sint: "tag (TaggedCounter v) = itc_tag (sint v)"
proof -
  have "odd (sint v) = odd v"
    by (simp add: bit_0 [symmetric] bit_sint_iff del: bit_0)
  then show ?thesis by (simp add: itc_tag_odd and_one_eq mod_2_eq_odd)
qed

lemma sint_increment:
  "sint v + 2 < 2 ^ 63 \<Longrightarrow> sint (increment_ref_count_relaxed v) = itc_increment (sint v)"
  using sint_ge [of v]
  by (simp add: increment_ref_count_relaxed_def itc_increment_def sint_word_ariths
      signed_take_bit_int_eq_self)

lemma sint_decrement:
  assumes "- (2 ^ 63) \<le> sint (v OR 1) - 2"
  shows "sint ((v OR 1) - 2 :: i64) = itc_decrement (sint v)"
proof -
  have "sint ((v OR 1) - 2 :: i64) = sint (v OR 1) - 2"
    using assms sint_lt [of "v OR 1"]
    by (simp add: sint_word_ariths signed_take_bit_int_eq_self)
  then show ?thesis by (simp add: itc_decrement_def signed_or_eq)
qed

lemma sint_clear_tag:
  "sint (snd (fetch_and_clear_tag_relaxed v)) = itc_clear_tag (sint v)"
  by (simp add: fetch_and_clear_tag_relaxed_def MASK_FOR_CLEARING_TAG_def itc_clear_tag_def
      signed_and_eq)

lemmas word_counter_refines = sint_ref_count tag_sint sint_increment sint_decrement sint_clear_tag

lemma decrement_no_overflow:
  assumes "- (2 ^ 62) < sint (ref_count (TaggedCounter v))"
  shows "- (2 ^ 63) \<le> sint (v OR 1) - 2"
  using assms by (auto simp: sint_signed_drop_bit_eq drop_bit_eq_div signed_or_eq int_or_1)

lemma decrement_overflow_iff:
  "sint (v OR 1) - 2 < - (2 ^ 63) \<longleftrightarrow> sint (ref_count (TaggedCounter v)) = - (2 ^ 62)"
  for v :: i64
proof -
  have "- (2 ^ 63) \<le> sint v" using sint_ge [of v] by simp
  then show ?thesis
    by (auto simp: sint_signed_drop_bit_eq drop_bit_eq_div signed_or_eq int_or_1)
qed

lemma decrement_new_value_eq:
  "decrement_new_value chk v =
     (if chk \<and> sint (ref_count (TaggedCounter v)) = - (2 ^ 62) then Inl ArithmeticOverflow
      else Inr ((v OR 1) - 2))"
  by (simp only: decrement_new_value_def decrement_overflow_iff)

lemma decrement_loop_stored:
  "decrement_loop chk val attempts = Inr (Some (old, new)) \<Longrightarrow>
     (old, False) \<in> set attempts \<and> decrement_new_value chk old = Inr new"
  by (induction chk val attempts rule: decrement_loop.induct)
    (auto simp: res_bind_eq_Inr split: if_splits)

section \<open>Properties\<close>

text \<open>
  C18: the compare-exchange loop of the decrement is an atomic read-modify-write. Whatever other
  threads store between the attempts, the value it finally stores has the reference count of the
  value it replaces minus one and has the tag set, and it replaces the value the atomic held at
  that very attempt.
\<close>

theorem decrement_atomic:
  assumes "decrement_ref_count_and_set_tag_release chk loaded attempts = Inr (Some (old, new))"
    and "- (2 ^ 62) < sint (ref_count (TaggedCounter old))"
  shows "(old, False) \<in> set attempts
       \<and> sint (ref_count (TaggedCounter new)) = sint (ref_count (TaggedCounter old)) - 1
       \<and> tag (TaggedCounter new)"
proof -
  from assms(1) have stored: "(old, False) \<in> set attempts" "decrement_new_value chk old = Inr new"
    using decrement_loop_stored by (simp_all add: decrement_ref_count_and_set_tag_release_def)
  then have "new = (old OR 1) - 2"
    by (simp add: decrement_new_value_def split: if_splits)
  then have "sint new = itc_decrement (sint old)"
    using sint_decrement decrement_no_overflow [OF assms(2)] by simp
  with stored(1) show ?thesis
    by (simp only: sint_ref_count tag_sint itc.rc_dec itc.tg_dec simp_thms)
qed

theorem decrement_atomic_witness:
  "decrement_ref_count_and_set_tag_release True 2 [(4, False), (4, True), (4, False)]
     = Inr (Some (4, 3))
   \<and> sint (ref_count (TaggedCounter 3)) = sint (ref_count (TaggedCounter 4)) - 1"
proof -
  have run: "decrement_ref_count_and_set_tag_release True 2 [(4, False), (4, True), (4, False)]
      = Inr (Some (4, 3))"
    by (simp add: decrement_ref_count_and_set_tag_release_def decrement_new_value_def)
  have rng: "- (2 ^ 62) < sint (ref_count (TaggedCounter 4))"
    by (simp add: sint_signed_drop_bit_eq)
  from decrement_atomic [OF run rng] run show ?thesis by blast
qed

text \<open>
  C34: the loop returns exactly when some attempt is not spurious and finds the value the previous
  attempt (or the first load) has reported: a thread can only be kept in the loop by other threads
  that change the counter, or by spurious failures. The overflow check never interferes while the
  reference counts seen stay above the minimum.
\<close>

theorem decrement_returns_iff:
  assumes "\<forall>v \<in> set (loaded # map fst attempts). - (2 ^ 62) < sint (ref_count (TaggedCounter v))"
  shows "(\<exists>r. decrement_ref_count_and_set_tag_release chk loaded attempts = Inr (Some r)) \<longleftrightarrow>
     (\<exists>k < length attempts. \<not> snd (attempts ! k)
        \<and> fst (attempts ! k) = (loaded # map fst attempts) ! k)"
  using assms unfolding decrement_ref_count_and_set_tag_release_def
proof (induction chk loaded attempts rule: decrement_loop.induct)
  case (1 chk val)
  then show ?case by simp
next
  case (2 chk val cur sp att)
  have nv: "decrement_new_value chk val = Inr ((val OR 1) - 2)"
    using "2.prems" by (simp add: decrement_new_value_eq del: ref_count.simps)
  show ?case
  proof (cases "cur = val \<and> \<not> sp")
    case True
    then show ?thesis by (auto simp: nv intro!: exI [of _ 0])
  next
    case False
    with "2.IH" [OF False] "2.prems"
    have ih: "(\<exists>r. decrement_loop chk cur att = Inr (Some r)) \<longleftrightarrow>
      (\<exists>k < length att. \<not> snd (att ! k) \<and> fst (att ! k) = (cur # map fst att) ! k)"
      by simp
    have stp: "decrement_loop chk val ((cur, sp) # att) = decrement_loop chk cur att"
      by (simp only: decrement_loop.simps nv res_bind_Inr False if_False)
    have "(\<exists>k < length ((cur, sp) # att). \<not> snd (((cur, sp) # att) ! k)
          \<and> fst (((cur, sp) # att) ! k) = (val # map fst ((cur, sp) # att)) ! k) \<longleftrightarrow>
      (\<exists>k < length att. \<not> snd (att ! k) \<and> fst (att ! k) = (cur # map fst att) ! k)"
      using False by (auto simp: Ex_less_Suc2)
    with ih show ?thesis by (simp only: stp)
  qed
qed

theorem decrement_returns_iff_witness:
  "\<exists>r. decrement_ref_count_and_set_tag_release True 2 [(4, False), (4, False)] = Inr (Some r)"
proof -
  have rng: "\<forall>v \<in> set ((2::i64) # map fst [(4, False), (4, False)]).
      - (2 ^ 62) < sint (ref_count (TaggedCounter v))"
    by (simp add: sint_signed_drop_bit_eq)
  show ?thesis
    by (subst decrement_returns_iff [OF rng]) (rule exI [of _ 1], simp)
qed

text \<open>
  The one value at which the decrement is not exact is the minimum reference count
  \<open>-2^62\<close>: with overflow checks it panics there and nowhere else, without them it wraps to the
  maximum \<open>2^62 - 1\<close>.
\<close>

lemma decrement_overflow_boundary:
  "(decrement_new_value True v = Inl ArithmeticOverflow \<longleftrightarrow>
      sint (ref_count (TaggedCounter v)) = - (2 ^ 62))
   \<and> decrement_new_value False (0x8000000000000000 :: i64) = Inr 0x7FFFFFFFFFFFFFFF
   \<and> sint (ref_count (TaggedCounter 0x8000000000000000)) = - (2 ^ 62)
   \<and> sint (ref_count (TaggedCounter 0x7FFFFFFFFFFFFFFF)) = 2 ^ 62 - 1"
  by (simp add: decrement_new_value_eq del: ref_count.simps) (simp add: sint_signed_drop_bit_eq)

end
