(* ===== verification/Sdarc_World.thy ===== *)
theory Sdarc_World
  imports Tagged_Counter
begin

text \<open>
  The state that user threads and the collector share, and the operations of
  \<^verbatim>\<open>src/src/sdarc.rs\<close> on it, one atomic memory access at a time.

  A world holds the heap of \<open>SdarcInner\<close> objects, the \<open>AtomicNullableSdarc\<close> cells, the counters of
  \<open>READER_CRITICAL_SECTION\<close>, the lists of objects not yet taken by the collector, the user threads
  with their program counters, and the collector's own state. \<open>handles\<close> is the ownership Rust's
  type system tracks: how many \<open>Sdarc\<close> values pointing at an object exist in user code (in local
  variables, or inside the data of other objects). A thread may clone, drop, dereference or move a
  handle only if one exists.

  Every operation is cut at its accesses to shared memory: the program counter says which access
  comes next, so the interleavings of the model are the sequentially consistent interleavings of
  the code. Weaker memory orders are not modelled. An access through a pointer whose object has
  been freed is the result \<open>Fault\<close>.
\<close>

section \<open>Data\<close>

type_synonym ptr = nat
type_synonym cptr = nat

text \<open>
  The field \<open>data\<close> of a \<open>SdarcInner\<close>: user data, or a \<open>WeakSdarcInner\<close> with its \<open>back_ref\<close>.
  \<open>counters_ptr\<close> is the address in the \<open>ShardedBox\<close>, \<open>counters\<close> what the box holds in each shard.
\<close>

datatype payload = UserData nat | WeakSdarcInner "ptr option"

record SdarcInner =
  counters_ptr :: cptr
  counters :: "int list"
  weak_inner_ref :: "ptr option"
  data :: payload

datatype pc =
    Idle
  | LoadPtr nat
  | LoadInc ptr
  | LoadExit "ptr option"
  | UpgradeLoad ptr
  | UpgradeInc ptr ptr
  | UpgradeExit ptr "ptr option"
  | DropDec ptr
  | DropNotify ptr
  | CasInc ptr "ptr option"
  | DowngradeClone ptr ptr

datatype ret =
    NoRet
  | RetSdarc ptr
  | RetOpt "ptr option"
  | RetErr
  | RetData payload
  | RetCell nat

record thread =
  shard_index :: nat
  pc :: pc
  ret :: ret

datatype TrackedCounterState = DefaultState | RequiresReChecking | ReadyToFree

record TrackedCounter =
  fat_ptr :: ptr
  tstate :: TrackedCounterState

text \<open>Where the collector thread stands; each constructor is one access or one loop head.\<close>

datatype cpc =
    Parked
  | TakeNew nat
  | SpinScan nat
  | SpinWait
  | Visit
  | PreRead cptr ptr nat int
  | ClearRead cptr ptr nat int
  | ReCheck cptr ptr nat int
  | ClearWeak cptr ptr
  | Freeing
  | UserDrop

text \<open>
  The collector thread: \<open>tracked_counters\<close> is the \<open>BTreeMap\<close> as an association list in key order,
  \<open>counters_to_recheck\<close> the thread-local set, the rest are local variables of its functions
  (a \<open>BTreeSet\<close> is a sorted list).
\<close>

record collector =
  tracked_counters :: "(cptr \<times> TrackedCounter) list"
  counters_to_recheck :: "cptr list"
  cpc :: cpc
  first_pass :: bool
  loop_counter :: nat
  shards_to_spin :: "nat list"
  todo :: "cptr list"
  to_free :: "cptr list"
  to_recheck :: "cptr list"

record world =
  shards :: nat
  heap :: "ptr \<Rightarrow> SdarcInner option"
  used_slots :: "cptr set"
  atomics :: "ptr option list"
  handles :: "ptr \<Rightarrow> nat"
  threads :: "thread list"
  critical :: "nat list"
  pending_to_track :: "(ptr \<times> cptr) list list"
  coll :: collector

datatype fault =
    UseAfterFree ptr
  | CollectorPanic panic
  | BackRefNotCleared ptr

datatype outcome = Disabled | Fault fault | Next world

text \<open>Sequencing of accesses that no other thread can come between.\<close>

definition and_then :: "outcome \<Rightarrow> (world \<Rightarrow> outcome) \<Rightarrow> outcome" where
  "and_then r k = (case r of Next w \<Rightarrow> k w | _ \<Rightarrow> r)"

lemma and_then_Next: "and_then r k = Next w' \<longleftrightarrow> (\<exists>w. r = Next w \<and> k w = Next w')"
  by (cases r) (auto simp: and_then_def)

lemma and_then_Fault: "and_then r k = Fault f \<longleftrightarrow> r = Fault f \<or> (\<exists>w. r = Next w \<and> k w = Fault f)"
  by (cases r) (auto simp: and_then_def)

section \<open>Building blocks\<close>

definition set_thread :: "nat \<Rightarrow> thread \<Rightarrow> world \<Rightarrow> world" where
  "set_thread t th w = w\<lparr>threads := (threads w)[t := th]\<rparr>"

definition goto :: "nat \<Rightarrow> pc \<Rightarrow> world \<Rightarrow> world" where
  "goto t q w = set_thread t ((threads w ! t)\<lparr>pc := q\<rparr>) w"

definition return :: "nat \<Rightarrow> ret \<Rightarrow> world \<Rightarrow> world" where
  "return t r w = set_thread t ((threads w ! t)\<lparr>pc := Idle, ret := r\<rparr>) w"

definition shard_of :: "nat \<Rightarrow> world \<Rightarrow> nat" where
  "shard_of t w = shard_index (threads w ! t)"

definition gain :: "ptr \<Rightarrow> world \<Rightarrow> world" where
  "gain p w = w\<lparr>handles := (handles w)(p := Suc (handles w p))\<rparr>"

definition lose :: "ptr \<Rightarrow> world \<Rightarrow> world" where
  "lose p w = w\<lparr>handles := (handles w)(p := handles w p - 1)\<rparr>"

fun gain_opt :: "ptr option \<Rightarrow> world \<Rightarrow> world" where
  "gain_opt None w = w"
| "gain_opt (Some p) w = gain p w"

fun lose_opt :: "ptr option \<Rightarrow> world \<Rightarrow> world" where
  "lose_opt None w = w"
| "lose_opt (Some p) w = lose p w"

fun owns_opt :: "world \<Rightarrow> ptr option \<Rightarrow> bool" where
  "owns_opt w None = True"
| "owns_opt w (Some p) = (0 < handles w p)"

definition set_atomic :: "nat \<Rightarrow> ptr option \<Rightarrow> world \<Rightarrow> world" where
  "set_atomic c x w = w\<lparr>atomics := (atomics w)[c := x]\<rparr>"

definition set_obj :: "ptr \<Rightarrow> SdarcInner \<Rightarrow> world \<Rightarrow> world" where
  "set_obj p ob w = w\<lparr>heap := (heap w)(p \<mapsto> ob)\<rparr>"

text \<open>One read-modify-write of the counter of \<open>p\<close> in the thread's shard.\<close>

definition modify_counter :: "(int \<Rightarrow> int) \<Rightarrow> ptr \<Rightarrow> nat \<Rightarrow> world \<Rightarrow> (world \<Rightarrow> outcome) \<Rightarrow> outcome" where
  "modify_counter f p s w k =
     (case heap w p of
        None \<Rightarrow> Fault (UseAfterFree p)
      | Some ob \<Rightarrow> k (set_obj p (ob\<lparr>counters := (counters ob)[s := f (counters ob ! s)]\<rparr>) w))"

definition enter_critical :: "nat \<Rightarrow> world \<Rightarrow> world" where
  "enter_critical t w =
     w\<lparr>critical := (critical w)[shard_of t w := critical w ! shard_of t w + 1]\<rparr>"

definition exit_critical :: "nat \<Rightarrow> world \<Rightarrow> world" where
  "exit_critical t w =
     w\<lparr>critical := (critical w)[shard_of t w := critical w ! shard_of t w - 1]\<rparr>"

text \<open>
  \<open>SdarcInner::new\<close>, the \<open>Box\<close> and \<open>on_new_sdarc_allocated\<close>: a new object whose counters are all
  zero except for the increment in the current shard, at an address and in a slot that are not in
  use, pushed to the pending list of the current shard. No other thread can see the object before
  the push, which happens under the shard's mutex, so the whole of it is one step.
\<close>

definition SdarcInner_new :: "nat \<Rightarrow> nat \<Rightarrow> cptr \<Rightarrow> payload \<Rightarrow> SdarcInner" where
  "SdarcInner_new n s a v =
     \<lparr>counters_ptr = a, counters = (replicate n 0)[s := itc_increment 0],
      weak_inner_ref = None, data = v\<rparr>"

definition on_new_sdarc_allocated :: "nat \<Rightarrow> ptr \<Rightarrow> cptr \<Rightarrow> world \<Rightarrow> world" where
  "on_new_sdarc_allocated t p a w =
     w\<lparr>pending_to_track := (pending_to_track w)
         [shard_of t w := pending_to_track w ! shard_of t w @ [(p, a)]]\<rparr>"

definition allocate :: "nat \<Rightarrow> ptr \<Rightarrow> cptr \<Rightarrow> payload \<Rightarrow> world \<Rightarrow> world" where
  "allocate t p a v w =
     on_new_sdarc_allocated t p a
       (set_obj p (SdarcInner_new (shards w) (shard_of t w) a v) w\<lparr>used_slots := insert a (used_slots w)\<rparr>)"

definition can_allocate :: "ptr \<Rightarrow> cptr \<Rightarrow> world \<Rightarrow> bool" where
  "can_allocate p a w \<longleftrightarrow> heap w p = None \<and> a \<notin> used_slots w"

section \<open>Operations of user threads\<close>

datatype uaction =
    New ptr cptr nat
  | Clone ptr
  | Deref ptr
  | Drop ptr
  | Load nat
  | Swap nat "ptr option"
  | Store nat "ptr option"
  | CompareAndSet nat "ptr option" "ptr option"
  | Downgrade ptr ptr cptr
  | Upgrade ptr
  | SetShard nat
  | NewAtomic
  | NewAtomicWithValue ptr cptr nat
  | DropAtomic nat
  | Continue

definition Sdarc_new :: "nat \<Rightarrow> ptr \<Rightarrow> cptr \<Rightarrow> nat \<Rightarrow> world \<Rightarrow> outcome" where
  "Sdarc_new t p a v w =
     (if can_allocate p a w then Next (return t (RetSdarc p) (gain p (allocate t p a (UserData v) w)))
      else Disabled)"

definition Sdarc_clone :: "nat \<Rightarrow> ptr \<Rightarrow> world \<Rightarrow> outcome" where
  "Sdarc_clone t p w =
     (if 0 < handles w p
      then modify_counter itc_increment p (shard_of t w) w
             (\<lambda>w. Next (return t (RetSdarc p) (gain p w)))
      else Disabled)"

definition Sdarc_deref :: "nat \<Rightarrow> ptr \<Rightarrow> world \<Rightarrow> outcome" where
  "Sdarc_deref t p w =
     (if 0 < handles w p
      then (case heap w p of None \<Rightarrow> Fault (UseAfterFree p)
            | Some ob \<Rightarrow> Next (return t (RetData (data ob)) w))
      else Disabled)"

definition Sdarc_drop :: "nat \<Rightarrow> ptr \<Rightarrow> world \<Rightarrow> outcome" where
  "Sdarc_drop t p w =
     (if 0 < handles w p then Next (goto t (DropDec p) (lose p w)) else Disabled)"

definition Sdarc_drop_decrement :: "nat \<Rightarrow> ptr \<Rightarrow> world \<Rightarrow> outcome" where
  "Sdarc_drop_decrement t p w =
     modify_counter itc_decrement p (shard_of t w) w (\<lambda>w. Next (goto t (DropNotify p) w))"

text \<open>
  The last statement of \<open>Sdarc::drop\<close>: \<open>self.inner_ref().counters.0\<close> is read to be the argument of
  \<open>on_sdarc_drop\<close>, which only uses it in the collector thread (thread 0).
\<close>

definition on_sdarc_drop :: "nat \<Rightarrow> cptr \<Rightarrow> world \<Rightarrow> world" where
  "on_sdarc_drop t a w =
     (if t = 0
      then w\<lparr>coll := (coll w)\<lparr>counters_to_recheck := insort_insert a (counters_to_recheck (coll w))\<rparr>\<rparr>
      else w)"

definition Sdarc_drop_notify :: "nat \<Rightarrow> ptr \<Rightarrow> world \<Rightarrow> outcome" where
  "Sdarc_drop_notify t p w =
     (case heap w p of None \<Rightarrow> Fault (UseAfterFree p)
      | Some ob \<Rightarrow> Next (return t NoRet (on_sdarc_drop t (counters_ptr ob) w)))"

definition AtomicNullableSdarc_load :: "nat \<Rightarrow> nat \<Rightarrow> world \<Rightarrow> outcome" where
  "AtomicNullableSdarc_load t c w =
     (if c < length (atomics w) then Next (goto t (LoadPtr c) (enter_critical t w)) else Disabled)"

definition AtomicNullableSdarc_load_ptr :: "nat \<Rightarrow> nat \<Rightarrow> world \<Rightarrow> outcome" where
  "AtomicNullableSdarc_load_ptr t c w =
     (if c < length (atomics w)
      then (case atomics w ! c of
              None \<Rightarrow> Next (goto t (LoadExit None) w)
            | Some p \<Rightarrow> Next (goto t (LoadInc p) w))
      else Disabled)"

definition AtomicNullableSdarc_load_inc :: "nat \<Rightarrow> ptr \<Rightarrow> world \<Rightarrow> outcome" where
  "AtomicNullableSdarc_load_inc t p w =
     modify_counter itc_increment p (shard_of t w) w
       (\<lambda>w. Next (goto t (LoadExit (Some p)) (gain p w)))"

definition AtomicNullableSdarc_load_exit :: "nat \<Rightarrow> ptr option \<Rightarrow> world \<Rightarrow> outcome" where
  "AtomicNullableSdarc_load_exit t r w = Next (return t (RetOpt r) (exit_critical t w))"

text \<open>
  \<open>swap\<close>: \<open>nullable_into_raw_ptr\<close> forgets the handle passed in, \<open>nullable_from_raw_ptr\<close> makes the old
  pointer a handle again.
\<close>

definition AtomicNullableSdarc_swap :: "nat \<Rightarrow> nat \<Rightarrow> ptr option \<Rightarrow> world \<Rightarrow> outcome" where
  "AtomicNullableSdarc_swap t c x w =
     (if c < length (atomics w) \<and> owns_opt w x
      then Next (return t (RetOpt (atomics w ! c))
                  (gain_opt (atomics w ! c) (set_atomic c x (lose_opt x w))))
      else Disabled)"

definition AtomicNullableSdarc_store :: "nat \<Rightarrow> nat \<Rightarrow> ptr option \<Rightarrow> world \<Rightarrow> outcome" where
  "AtomicNullableSdarc_store t c x w =
     (if c < length (atomics w) \<and> owns_opt w x
      then (case atomics w ! c of
              None \<Rightarrow> Next (return t NoRet (set_atomic c x (lose_opt x w)))
            | Some old \<Rightarrow> Next (goto t (DropDec old) (set_atomic c x (lose_opt x w))))
      else Disabled)"

text \<open>
  Cells are created null, at the next free index. \<open>new_with_value\<close> creates a cell and an object and
  swaps the object in; the new cell is not visible to other threads before the function returns, so
  the three calls are one step. The destructor stores null; the entry of a dropped cell stays in the
  list, and the model lets threads go on using it.
\<close>

definition AtomicNullableSdarc_new :: "nat \<Rightarrow> world \<Rightarrow> outcome" where
  "AtomicNullableSdarc_new t w =
     Next (return t (RetCell (length (atomics w))) (w\<lparr>atomics := atomics w @ [None]\<rparr>))"

definition AtomicNullableSdarc_new_with_value :: "nat \<Rightarrow> ptr \<Rightarrow> cptr \<Rightarrow> nat \<Rightarrow> world \<Rightarrow> outcome" where
  "AtomicNullableSdarc_new_with_value t p a v w =
     and_then (AtomicNullableSdarc_new t w) (\<lambda>w1.
       and_then (Sdarc_new t p a v w1) (\<lambda>w2.
         and_then (AtomicNullableSdarc_swap t (length (atomics w)) (Some p) w2) (\<lambda>w3.
           Next (return t (RetCell (length (atomics w))) w3))))"

definition AtomicNullableSdarc_drop :: "nat \<Rightarrow> nat \<Rightarrow> world \<Rightarrow> outcome" where
  "AtomicNullableSdarc_drop t c w = AtomicNullableSdarc_store t c None w"

text \<open>
  \<open>compare_and_set\<close> borrows both arguments. On success with a non-null \<open>then_set\<close> the pointer is in
  the cell before the counter of \<open>then_set\<close> is incremented: in between, the borrowed handle and the
  replaced one are held by the program counter.
\<close>

definition raw_compare_and_set :: "nat \<Rightarrow> nat \<Rightarrow> ptr option \<Rightarrow> ptr option \<Rightarrow> world \<Rightarrow> outcome" where
  "raw_compare_and_set t c if_matches then_set w =
     (if c < length (atomics w) \<and> owns_opt w if_matches \<and> owns_opt w then_set
      then (if atomics w ! c = if_matches
            then (case then_set of
                    None \<Rightarrow> Next (return t (RetOpt if_matches) (gain_opt if_matches (set_atomic c None w)))
                  | Some q \<Rightarrow> Next (goto t (CasInc q if_matches) (lose q (set_atomic c then_set w))))
            else Next (return t RetErr w))
      else Disabled)"

definition raw_compare_and_set_inc :: "nat \<Rightarrow> ptr \<Rightarrow> ptr option \<Rightarrow> world \<Rightarrow> outcome" where
  "raw_compare_and_set_inc t q old w =
     modify_counter itc_increment q (shard_of t w) w
       (\<lambda>w. Next (return t (RetOpt old) (gain_opt old (gain q w))))"

text \<open>
  \<open>downgrade\<close>: \<open>weak_inner_ref.get_or_init\<close> runs its closure at most once and other callers wait for
  it, so it is one step; the clone of the handle in \<open>weak_inner_ref\<close> is the second.
\<close>

definition Sdarc_downgrade :: "nat \<Rightarrow> ptr \<Rightarrow> ptr \<Rightarrow> cptr \<Rightarrow> world \<Rightarrow> outcome" where
  "Sdarc_downgrade t p q a w =
     (if 0 < handles w p
      then (case heap w p of None \<Rightarrow> Fault (UseAfterFree p)
            | Some ob \<Rightarrow>
                (case weak_inner_ref ob of
                   Some q' \<Rightarrow> Next (goto t (DowngradeClone p q') (lose p w))
                 | None \<Rightarrow>
                     (if can_allocate q a w
                      then Next (goto t (DowngradeClone p q) (lose p
                             (set_obj p (ob\<lparr>weak_inner_ref := Some q\<rparr>)
                               (allocate t q a (WeakSdarcInner (Some p)) w))))
                      else Disabled)))
      else Disabled)"

definition Sdarc_downgrade_clone :: "nat \<Rightarrow> ptr \<Rightarrow> ptr \<Rightarrow> world \<Rightarrow> outcome" where
  "Sdarc_downgrade_clone t p q w =
     modify_counter itc_increment q (shard_of t w) w
       (\<lambda>w. Next (return t (RetSdarc q) (gain q (gain p w))))"

definition WeakSdarc_upgrade :: "nat \<Rightarrow> ptr \<Rightarrow> world \<Rightarrow> outcome" where
  "WeakSdarc_upgrade t q w =
     (if 0 < handles w q
      then (case heap w q of None \<Rightarrow> Fault (UseAfterFree q)
            | Some ob \<Rightarrow>
                (case data ob of UserData _ \<Rightarrow> Disabled
                 | WeakSdarcInner _ \<Rightarrow> Next (goto t (UpgradeLoad q) (enter_critical t (lose q w)))))
      else Disabled)"

definition WeakSdarc_upgrade_load :: "nat \<Rightarrow> ptr \<Rightarrow> world \<Rightarrow> outcome" where
  "WeakSdarc_upgrade_load t q w =
     (case heap w q of None \<Rightarrow> Fault (UseAfterFree q)
      | Some ob \<Rightarrow>
          (case data ob of
             UserData _ \<Rightarrow> Disabled
           | WeakSdarcInner None \<Rightarrow> Next (goto t (UpgradeExit q None) w)
           | WeakSdarcInner (Some p) \<Rightarrow> Next (goto t (UpgradeInc q p) w)))"

definition WeakSdarc_upgrade_inc :: "nat \<Rightarrow> ptr \<Rightarrow> ptr \<Rightarrow> world \<Rightarrow> outcome" where
  "WeakSdarc_upgrade_inc t q p w =
     modify_counter itc_increment p (shard_of t w) w
       (\<lambda>w. Next (goto t (UpgradeExit q (Some p)) (gain p w)))"

definition WeakSdarc_upgrade_exit :: "nat \<Rightarrow> ptr \<Rightarrow> ptr option \<Rightarrow> world \<Rightarrow> outcome" where
  "WeakSdarc_upgrade_exit t q r w = Next (return t (RetOpt r) (gain q (exit_critical t w)))"

definition set_current_thread_shard_index :: "nat \<Rightarrow> nat \<Rightarrow> world \<Rightarrow> outcome" where
  "set_current_thread_shard_index t i w =
     (if i < shards w then Next (set_thread t ((threads w ! t)\<lparr>shard_index := i\<rparr>) w) else Disabled)"

text \<open>The next access of an operation that has begun.\<close>

fun continue :: "nat \<Rightarrow> pc \<Rightarrow> world \<Rightarrow> outcome" where
  "continue t Idle w = Disabled"
| "continue t (LoadPtr c) w = AtomicNullableSdarc_load_ptr t c w"
| "continue t (LoadInc p) w = AtomicNullableSdarc_load_inc t p w"
| "continue t (LoadExit r) w = AtomicNullableSdarc_load_exit t r w"
| "continue t (UpgradeLoad q) w = WeakSdarc_upgrade_load t q w"
| "continue t (UpgradeInc q p) w = WeakSdarc_upgrade_inc t q p w"
| "continue t (UpgradeExit q r) w = WeakSdarc_upgrade_exit t q r w"
| "continue t (DropDec p) w = Sdarc_drop_decrement t p w"
| "continue t (DropNotify p) w = Sdarc_drop_notify t p w"
| "continue t (CasInc q old) w = raw_compare_and_set_inc t q old w"
| "continue t (DowngradeClone p q) w = Sdarc_downgrade_clone t p q w"

fun begin_op :: "nat \<Rightarrow> uaction \<Rightarrow> world \<Rightarrow> outcome" where
  "begin_op t (New p a v) w = Sdarc_new t p a v w"
| "begin_op t (Clone p) w = Sdarc_clone t p w"
| "begin_op t (Deref p) w = Sdarc_deref t p w"
| "begin_op t (Drop p) w = Sdarc_drop t p w"
| "begin_op t (Load c) w = AtomicNullableSdarc_load t c w"
| "begin_op t (Swap c x) w = AtomicNullableSdarc_swap t c x w"
| "begin_op t (Store c x) w = AtomicNullableSdarc_store t c x w"
| "begin_op t (CompareAndSet c m x) w = raw_compare_and_set t c m x w"
| "begin_op t (Downgrade p q a) w = Sdarc_downgrade t p q a w"
| "begin_op t (Upgrade q) w = WeakSdarc_upgrade t q w"
| "begin_op t (SetShard i) w = set_current_thread_shard_index t i w"
| "begin_op t NewAtomic w = AtomicNullableSdarc_new t w"
| "begin_op t (NewAtomicWithValue p a v) w = AtomicNullableSdarc_new_with_value t p a v w"
| "begin_op t (DropAtomic c) w = AtomicNullableSdarc_drop t c w"
| "begin_op t Continue w = Disabled"

text \<open>
  One step of thread \<open>t\<close>. Thread 0 is the collector thread: user code runs there only while the
  collector drops the content of an object.
\<close>

definition user_step :: "nat \<Rightarrow> uaction \<Rightarrow> world \<Rightarrow> outcome" where
  "user_step t act w =
     (if t < length (threads w) \<and> (t = 0 \<longrightarrow> cpc (coll w) = UserDrop)
      then (if pc (threads w ! t) = Idle then begin_op t act w
            else if act = Continue then continue t (pc (threads w ! t)) w
            else Disabled)
      else Disabled)"

end
