(* ===== verification/Sdarc_Collector.thy ===== *)
theory Sdarc_Collector
  imports Sdarc_World
begin

text \<open>
  The collector thread of \<^verbatim>\<open>src/src/collector.rs\<close>, one atomic access per step: taking the new
  objects, spinning on the reader critical section, updating every tracked counter shard by shard,
  and freeing. The steps are deterministic; what user threads do in between is not.
\<close>

section \<open>The ordered map and the ordered set\<close>

text \<open>\<open>BTreeMap\<close>: an association list sorted by key.\<close>

fun map_insert :: "'k::linorder \<Rightarrow> 'v \<Rightarrow> ('k \<times> 'v) list \<Rightarrow> ('k \<times> 'v) list" where
  "map_insert k v [] = [(k, v)]"
| "map_insert k v ((k', v') # m) =
     (if k < k' then (k, v) # (k', v') # m
      else if k = k' then (k, v) # m
      else (k', v') # map_insert k v m)"

fun map_remove :: "'k \<Rightarrow> ('k \<times> 'v) list \<Rightarrow> ('k \<times> 'v) list" where
  "map_remove k [] = []"
| "map_remove k ((k', v') # m) = (if k = k' then m else (k', v') # map_remove k m)"

abbreviation sorted_keys :: "('k::linorder \<times> 'v) list \<Rightarrow> bool" where
  "sorted_keys m \<equiv> sorted_wrt (<) (map fst m)"

section \<open>The contract of a map\<close>

text \<open>What the collector relies on: a lookup after an insert, a removal or on the empty map.\<close>

locale keyed_map =
  fixes lookup :: "'m \<Rightarrow> 'k \<Rightarrow> 'v option" and ins :: "'k \<Rightarrow> 'v \<Rightarrow> 'm \<Rightarrow> 'm"
    and del :: "'k \<Rightarrow> 'm \<Rightarrow> 'm" and keys :: "'m \<Rightarrow> 'k list" and ok :: "'m \<Rightarrow> bool"
  assumes lookup_ins: "ok m \<Longrightarrow> lookup (ins k v m) = (lookup m)(k \<mapsto> v)"
    and lookup_del: "ok m \<Longrightarrow> lookup (del k m) = (lookup m)(k := None)"
    and set_keys: "ok m \<Longrightarrow> set (keys m) = dom (lookup m)"
    and distinct_keys: "ok m \<Longrightarrow> distinct (keys m)"
    and ok_ins: "ok m \<Longrightarrow> ok (ins k v m)" and ok_del: "ok m \<Longrightarrow> ok (del k m)"
begin

lemma keys_ins: "ok m \<Longrightarrow> set (keys (ins k v m)) = insert k (set (keys m))"
  by (simp add: set_keys ok_ins lookup_ins)

lemma keys_del: "ok m \<Longrightarrow> set (keys (del k m)) = set (keys m) - {k}"
  by (simp add: set_keys ok_del lookup_del)

lemma ins_same_keys: "ok m \<Longrightarrow> k \<in> set (keys m) \<Longrightarrow> set (keys (ins k v m)) = set (keys m)"
  by (auto simp: keys_ins)

end

lemma set_map_insert: "fst ` set (map_insert k v m) = insert k (fst ` set m)"
  by (induction k v m rule: map_insert.induct) auto

lemma sorted_map_insert: "sorted_keys m \<Longrightarrow> sorted_keys (map_insert k v m)"
proof (induction k v m rule: map_insert.induct)
  case (2 k v k' v' m)
  then show ?case
    using set_map_insert [of k v m] by (auto simp flip: set_map intro: less_trans)
qed simp

lemma map_of_map_insert: "sorted_keys m \<Longrightarrow> map_of (map_insert k v m) = (map_of m)(k \<mapsto> v)"
  by (induction k v m rule: map_insert.induct) (auto simp: fun_eq_iff)

lemma map_of_map_remove: "sorted_keys m \<Longrightarrow> map_of (map_remove k m) = (map_of m)(k := None)"
proof (induction k m rule: map_remove.induct)
  case (2 k k' v' m)
  show ?case
  proof (cases "k = k'")
    case True
    have "map_of m k' = None"
      using "2.prems" by (force simp: map_of_eq_None_iff)
    with True show ?thesis by (auto simp: fun_eq_iff)
  next
    case False
    with 2 show ?thesis by (auto simp: fun_eq_iff)
  qed
qed simp

lemma set_map_remove: "set (map_remove k m) \<subseteq> set m"
  by (induction k m rule: map_remove.induct) auto

lemma sorted_map_remove: "sorted_keys m \<Longrightarrow> sorted_keys (map_remove k m)"
proof (induction k m rule: map_remove.induct)
  case (2 k k' v' m)
  then show ?case
    using set_map_remove [of k m] by fastforce
qed simp

lemma sorted_keys_distinct: "sorted_keys m \<Longrightarrow> distinct (map fst m)"
  using strict_sorted_iff by blast

interpretation btree: keyed_map map_of map_insert map_remove "map fst" sorted_keys
  by unfold_locales
    (auto simp: map_of_map_insert map_of_map_remove dom_map_of_conv_image_fst sorted_keys_distinct
      sorted_map_insert sorted_map_remove)

section \<open>Steps\<close>

text \<open>\<open>take_new_counters_to_track\<close>: the entries taken from one shard are inserted in order.\<close>

fun track_new :: "(ptr \<times> cptr) list \<Rightarrow> (cptr \<times> TrackedCounter) list
    \<Rightarrow> (cptr \<times> TrackedCounter) list result" where
  "track_new [] m = Inr m"
| "track_new ((p, a) # xs) m =
     (if map_of m a \<noteq> None then Inl AssertionFailed
      else track_new xs (map_insert a \<lparr>fat_ptr = p, tstate = DefaultState\<rparr> m))"

definition set_coll :: "(collector \<Rightarrow> collector) \<Rightarrow> world \<Rightarrow> world" where
  "set_coll f w = w\<lparr>coll := f (coll w)\<rparr>"

definition cgoto :: "cpc \<Rightarrow> world \<Rightarrow> world" where
  "cgoto q w = set_coll (\<lambda>c. c\<lparr>cpc := q\<rparr>) w"

text \<open>Start of \<open>update_all_\<dots>\<close> or \<open>update_specific_\<dots>\<close>, which visits the counters in \<open>ks\<close>.\<close>

definition start_pass :: "bool \<Rightarrow> cptr list \<Rightarrow> collector \<Rightarrow> collector" where
  "start_pass fp ks c =
     c\<lparr>first_pass := fp, todo := ks, to_free := [], to_recheck := [], shards_to_spin := [],
       cpc := SpinScan 0\<rparr>"

definition take_new_counters_to_track :: "nat \<Rightarrow> world \<Rightarrow> outcome" where
  "take_new_counters_to_track i w =
     (if i < shards w
      then (case track_new (pending_to_track w ! i) (tracked_counters (coll w)) of
              Inl e \<Rightarrow> Fault (CollectorPanic e)
            | Inr m \<Rightarrow> Next (set_coll (\<lambda>c. c\<lparr>tracked_counters := m, cpc := TakeNew (Suc i)\<rparr>)
                         (w\<lparr>pending_to_track := (pending_to_track w)[i := []]\<rparr>)))
      else Next (set_coll (\<lambda>c. start_pass True (map fst (tracked_counters c)) (c\<lparr>loop_counter := 0\<rparr>)) w))"

text \<open>\<open>spin_until_observing_non_critical_section_once_in_each_shard\<close>, its two loops.\<close>

definition spin_scan :: "nat \<Rightarrow> world \<Rightarrow> outcome" where
  "spin_scan i w =
     (if i < shards w
      then Next (set_coll (\<lambda>c. c\<lparr>cpc := SpinScan (Suc i),
                   shards_to_spin := (if critical w ! i \<noteq> 0 then shards_to_spin c @ [i]
                                      else shards_to_spin c)\<rparr>) w)
      else Next (cgoto SpinWait w))"

definition spin_wait :: "world \<Rightarrow> outcome" where
  "spin_wait w =
     (case shards_to_spin (coll w) of
        [] \<Rightarrow> Next (cgoto Visit w)
      | s # rest \<Rightarrow>
          (if critical w ! s = 0 then Next (set_coll (\<lambda>c. c\<lparr>shards_to_spin := rest\<rparr>) w) else Next w))"

text \<open>The loop head of a pass: take the next counter and enter \<open>update_state\<close>.\<close>

definition visit :: "world \<Rightarrow> outcome" where
  "visit w =
     (case todo (coll w) of
        [] \<Rightarrow> Next (cgoto Freeing w)
      | a # rest \<Rightarrow>
          (case map_of (tracked_counters (coll w)) a of
             None \<Rightarrow> Next (set_coll (\<lambda>c. c\<lparr>todo := rest\<rparr>) w)
           | Some tc \<Rightarrow>
               (case tstate tc of
                  DefaultState \<Rightarrow>
                    Next (set_coll (\<lambda>c. c\<lparr>todo := rest, cpc := PreRead a (fat_ptr tc) 0 0\<rparr>) w)
                | RequiresReChecking \<Rightarrow>
                    Next (set_coll (\<lambda>c. c\<lparr>todo := rest, cpc := ReCheck a (fat_ptr tc) 0 0\<rparr>) w)
                | ReadyToFree \<Rightarrow> Fault (CollectorPanic AssertionFailed))))"

text \<open>
  The end of \<open>update_state\<close>, with the state it decided on, and of the loop body: a counter that
  requires re-checking goes into the set, one that is ready to free into the vector.
\<close>

definition finish_visit :: "cptr \<Rightarrow> ptr \<Rightarrow> TrackedCounterState \<Rightarrow> collector \<Rightarrow> collector" where
  "finish_visit a p st c =
     c\<lparr>tracked_counters := map_insert a \<lparr>fat_ptr = p, tstate = st\<rparr> (tracked_counters c),
       to_recheck := (if st = RequiresReChecking then insort_insert a (to_recheck c) else to_recheck c),
       to_free := (if st = ReadyToFree then to_free c @ [a] else to_free c),
       cpc := Visit\<rparr>"

text \<open>A read of the counter slot \<open>a\<close> that belongs to \<open>p\<close>.\<close>

definition at_slot :: "cptr \<Rightarrow> ptr \<Rightarrow> world \<Rightarrow> (SdarcInner \<Rightarrow> outcome) \<Rightarrow> outcome" where
  "at_slot a p w k =
     (case heap w p of
        None \<Rightarrow> Fault (UseAfterFree p)
      | Some ob \<Rightarrow> if counters_ptr ob = a then k ob else Fault (UseAfterFree p))"

definition read_ref_count_sum_relaxed :: "cptr \<Rightarrow> ptr \<Rightarrow> nat \<Rightarrow> int \<Rightarrow> world \<Rightarrow> outcome" where
  "read_ref_count_sum_relaxed a p i acc w =
     (if i < shards w
      then at_slot a p w (\<lambda>ob. Next (cgoto (PreRead a p (Suc i) (acc + itc_ref_count (counters ob ! i))) w))
      else if acc = 0 then Next (cgoto (ClearRead a p 0 0) w)
      else Next (set_coll (finish_visit a p DefaultState) w))"

definition clear_tags_and_read_ref_count_sum_relaxed ::
  "cptr \<Rightarrow> ptr \<Rightarrow> nat \<Rightarrow> int \<Rightarrow> world \<Rightarrow> outcome" where
  "clear_tags_and_read_ref_count_sum_relaxed a p i acc w =
     (if i < shards w
      then at_slot a p w (\<lambda>ob.
             Next (cgoto (ClearRead a p (Suc i) (acc + itc_ref_count (counters ob ! i)))
               (set_obj p (ob\<lparr>counters := (counters ob)[i := itc_clear_tag (counters ob ! i)]\<rparr>) w)))
      else Next (set_coll (finish_visit a p (if acc = 0 then RequiresReChecking else DefaultState)) w))"

definition read_ref_count_sum_if_all_tags_unset_acquire ::
  "cptr \<Rightarrow> ptr \<Rightarrow> nat \<Rightarrow> int \<Rightarrow> world \<Rightarrow> outcome" where
  "read_ref_count_sum_if_all_tags_unset_acquire a p i acc w =
     (if i < shards w
      then at_slot a p w (\<lambda>ob.
             if itc_tag (counters ob ! i) then Next (set_coll (finish_visit a p DefaultState) w)
             else Next (cgoto (ReCheck a p (Suc i) (acc + itc_ref_count (counters ob ! i))) w))
      else if acc = 0 then Next (cgoto (ClearWeak a p) w)
      else if 0 < acc then Next (set_coll (finish_visit a p DefaultState) w)
      else Fault (CollectorPanic AssertionFailed))"

datatype ClearWeakBackRefResult = WeakRefNotInvolved | WeakBackRefCleared | WeakBackRefWasAlreadyNull

text \<open>\<open>clear_weak_backref_impl\<close> and the match on its result.\<close>

definition clear_weak_backref_impl :: "ptr \<Rightarrow> world \<Rightarrow> fault + (ClearWeakBackRefResult \<times> world)" where
  "clear_weak_backref_impl p w =
     (case heap w p of
        None \<Rightarrow> Inl (UseAfterFree p)
      | Some ob \<Rightarrow>
          (case weak_inner_ref ob of
             None \<Rightarrow> Inr (WeakRefNotInvolved, w)
           | Some q \<Rightarrow>
               (case heap w q of
                  None \<Rightarrow> Inl (UseAfterFree q)
                | Some wk \<Rightarrow>
                    (case data wk of
                       WeakSdarcInner (Some _) \<Rightarrow>
                         Inr (WeakBackRefCleared, set_obj q (wk\<lparr>data := WeakSdarcInner None\<rparr>) w)
                     | _ \<Rightarrow> Inr (WeakBackRefWasAlreadyNull, w)))))"

definition clear_weak_back_ref :: "cptr \<Rightarrow> ptr \<Rightarrow> world \<Rightarrow> outcome" where
  "clear_weak_back_ref a p w =
     (case clear_weak_backref_impl p w of
        Inl f \<Rightarrow> Fault f
      | Inr (WeakBackRefCleared, w') \<Rightarrow> Next (set_coll (finish_visit a p RequiresReChecking) w')
      | Inr (_, w') \<Rightarrow> Next (set_coll (finish_visit a p ReadyToFree) w'))"

text \<open>
  \<open>drop_sdarc_inner_impl\<close>: the fields are dropped in their order. The counters give their slot
  back, the handle in \<open>weak_inner_ref\<close> is dropped by the collector thread, and the content comes
  last: a \<open>WeakSdarcInner\<close> asserts that its \<open>back_ref\<close> is null, user data runs user code.
\<close>

definition drop_sdarc_inner :: "ptr \<Rightarrow> SdarcInner \<Rightarrow> world \<Rightarrow> outcome" where
  "drop_sdarc_inner p ob w =
     (let w1 = w\<lparr>heap := (heap w)(p := None), used_slots := used_slots w - {counters_ptr ob}\<rparr>;
          w2 = (case weak_inner_ref ob of None \<Rightarrow> w1 | Some q \<Rightarrow> goto 0 (DropDec q) w1)
      in case data ob of
           WeakSdarcInner (Some _) \<Rightarrow> Fault (BackRefNotCleared p)
         | _ \<Rightarrow> Next (cgoto UserDrop w2))"

text \<open>
  One iteration of the loop of \<open>free_pointers\<close>; after the last one, the re-check set is joined with
  the thread-local set, and \<open>do_collection_inner_iterations\<close> goes on with another pass or returns.
\<close>

definition max_inner_iterations :: nat where
  "max_inner_iterations = 100000"

definition end_pass :: "collector \<Rightarrow> collector" where
  "end_pass c =
     (let next = fold insort_insert (counters_to_recheck c) (to_recheck c);
          n = (if first_pass c then 0 else Suc (loop_counter c));
          c' = c\<lparr>counters_to_recheck := [], loop_counter := n\<rparr>
      in if n = max_inner_iterations \<or> next = [] then c'\<lparr>cpc := Parked\<rparr>
         else start_pass False next c')"

definition free_pointers :: "world \<Rightarrow> outcome" where
  "free_pointers w =
     (case to_free (coll w) of
        [] \<Rightarrow> Next (set_coll end_pass w)
      | a # rest \<Rightarrow>
          (case map_of (tracked_counters (coll w)) a of
             None \<Rightarrow> Fault (CollectorPanic UnwrapNone)
           | Some tc \<Rightarrow>
               (if tstate tc \<noteq> ReadyToFree then Fault (CollectorPanic AssertionFailed)
                else (case heap w (fat_ptr tc) of
                        None \<Rightarrow> Fault (UseAfterFree (fat_ptr tc))
                      | Some ob \<Rightarrow>
                          (if counters_ptr ob \<noteq> a then Fault (CollectorPanic AssertionFailed)
                           else drop_sdarc_inner (fat_ptr tc) ob
                                  (set_coll (\<lambda>c. c\<lparr>to_free := rest,
                                     tracked_counters := map_remove a (tracked_counters c)\<rparr>) w))))))"

fun collector_at :: "cpc \<Rightarrow> world \<Rightarrow> outcome" where
  "collector_at Parked w = Next (cgoto (TakeNew 0) w)"
| "collector_at (TakeNew i) w = take_new_counters_to_track i w"
| "collector_at (SpinScan i) w = spin_scan i w"
| "collector_at SpinWait w = spin_wait w"
| "collector_at Visit w = visit w"
| "collector_at (PreRead a p i acc) w = read_ref_count_sum_relaxed a p i acc w"
| "collector_at (ClearRead a p i acc) w = clear_tags_and_read_ref_count_sum_relaxed a p i acc w"
| "collector_at (ReCheck a p i acc) w = read_ref_count_sum_if_all_tags_unset_acquire a p i acc w"
| "collector_at (ClearWeak a p) w = clear_weak_back_ref a p w"
| "collector_at Freeing w = free_pointers w"
| "collector_at UserDrop w = Next (cgoto Freeing w)"

definition collector_step :: "world \<Rightarrow> outcome" where
  "collector_step w = (if pc (threads w ! 0) = Idle then collector_at (cpc (coll w)) w else Disabled)"

section \<open>The whole system\<close>

datatype event = User nat uaction | Collector

fun step :: "event \<Rightarrow> world \<Rightarrow> outcome" where
  "step (User t act) w = user_step t act w"
| "step Collector w = collector_step w"

fun run :: "event list \<Rightarrow> world \<Rightarrow> outcome" where
  "run [] w = Next w"
| "run (e # es) w = (case step e w of Next w' \<Rightarrow> run es w' | r \<Rightarrow> r)"

fun fault_of :: "outcome \<Rightarrow> fault option" where
  "fault_of (Fault f) = Some f"
| "fault_of _ = None"

definition init_collector :: collector where
  "init_collector =
     \<lparr>tracked_counters = [], counters_to_recheck = [], cpc = Parked, first_pass = True,
      loop_counter = 0, shards_to_spin = [], todo = [], to_free = [], to_recheck = []\<rparr>"

text \<open>\<open>n\<close> shards, one thread per element of \<open>idx\<close> with that shard index, \<open>m\<close> null atomics.\<close>

definition init_world :: "nat \<Rightarrow> nat list \<Rightarrow> nat \<Rightarrow> world" where
  "init_world n idx m =
     \<lparr>shards = n, heap = (\<lambda>_. None), used_slots = {}, atomics = replicate m None,
      handles = (\<lambda>_. 0), threads = map (\<lambda>i. \<lparr>shard_index = i, pc = Idle, ret = NoRet\<rparr>) idx,
      critical = replicate n 0, pending_to_track = replicate n [], coll = init_collector\<rparr>"

section \<open>Evaluation of concrete runs\<close>

lemmas user_op_defs = Sdarc_new_def Sdarc_clone_def Sdarc_deref_def Sdarc_drop_def Sdarc_drop_decrement_def
  Sdarc_drop_notify_def AtomicNullableSdarc_load_def AtomicNullableSdarc_load_ptr_def
  AtomicNullableSdarc_load_inc_def AtomicNullableSdarc_load_exit_def AtomicNullableSdarc_swap_def
  AtomicNullableSdarc_store_def raw_compare_and_set_def raw_compare_and_set_inc_def Sdarc_downgrade_def
  Sdarc_downgrade_clone_def WeakSdarc_upgrade_def WeakSdarc_upgrade_load_def WeakSdarc_upgrade_inc_def
  WeakSdarc_upgrade_exit_def set_current_thread_shard_index_def AtomicNullableSdarc_new_def
  AtomicNullableSdarc_new_with_value_def AtomicNullableSdarc_drop_def and_then_Next and_then_Fault

lemmas collector_defs = take_new_counters_to_track_def spin_scan_def spin_wait_def visit_def at_slot_def
  read_ref_count_sum_relaxed_def clear_tags_and_read_ref_count_sum_relaxed_def
  read_ref_count_sum_if_all_tags_unset_acquire_def clear_weak_back_ref_def clear_weak_backref_impl_def
  cgoto_def set_coll_def

lemmas world_ops = set_thread_def goto_def return_def shard_of_def gain_def lose_def set_atomic_def
  set_obj_def enter_critical_def exit_critical_def on_new_sdarc_allocated_def allocate_def
  can_allocate_def on_sdarc_drop_def

lemmas exec_defs = user_op_defs collector_defs world_ops user_step_def modify_counter_def
  collector_step_def init_world_def init_collector_def SdarcInner_new_def free_pointers_def
  drop_sdarc_inner_def start_pass_def finish_visit_def end_pass_def max_inner_iterations_def
  insort_insert_key_def itc_arith Let_def

lemma run_append: "run (es @ es') w = (case run es w of Next w' \<Rightarrow> run es' w' | r \<Rightarrow> r)"
  by (induction es w rule: run.induct) (auto split: outcome.split)

lemma run_replicate:
  "run (replicate (numeral n) Collector @ es) w =
     (case step Collector w of Next w' \<Rightarrow> run (replicate (pred_numeral n) Collector @ es) w' | r \<Rightarrow> r)"
  by (simp add: numeral_eq_Suc)

end
