(* ===== verification/Sdarc_Invariant.thy ===== *)
theory Sdarc_Invariant
  imports Sdarc_Collector
begin

text \<open>
  The invariant of the interleaving model. It is stated over four views of a world: \<open>meta\<close>, what an
  object is (its slot, its weak reference, its content); its counters; \<open>strong\<close>, how many strong
  references exist; and \<open>pending_reader\<close>, which readers have loaded a pointer inside the critical
  section and not incremented its counter yet.
\<close>

section \<open>Views\<close>

definition meta :: "(ptr \<Rightarrow> SdarcInner option) \<Rightarrow> ptr \<Rightarrow> (cptr \<times> ptr option \<times> payload) option" where
  "meta h p = map_option (\<lambda>ob. (counters_ptr ob, weak_inner_ref ob, data ob)) (h p)"

text \<open>The references a thread holds in the middle of an operation, outside \<open>handles\<close>.\<close>

fun held :: "pc \<Rightarrow> ptr \<Rightarrow> nat" where
  "held (UpgradeLoad q) p = of_bool (q = p)"
| "held (UpgradeInc q r) p = of_bool (q = p)"
| "held (UpgradeExit q r) p = of_bool (q = p)"
| "held (DropDec q) p = of_bool (q = p)"
| "held (CasInc q old) p = of_bool (q = p) + of_bool (old = Some p)"
| "held (DowngradeClone q r) p = of_bool (q = p)"
| "held _ p = 0"

definition owned :: "(ptr \<Rightarrow> SdarcInner option) \<Rightarrow> ptr \<Rightarrow> bool" where
  "owned h p \<longleftrightarrow> (\<exists>q a d. meta h q = Some (a, Some p, d))"

definition strong :: "world \<Rightarrow> ptr \<Rightarrow> nat" where
  "strong w p = handles w p + count_list (atomics w) (Some p)
     + sum_list (map (\<lambda>th. held (pc th) p) (threads w)) + of_bool (owned (heap w) p)"

fun loaded :: "pc \<Rightarrow> ptr option" where
  "loaded (LoadInc p) = Some p"
| "loaded (UpgradeInc q p) = Some p"
| "loaded _ = None"

definition pending_reader :: "thread list \<Rightarrow> nat \<Rightarrow> ptr \<Rightarrow> bool" where
  "pending_reader ths s p \<longleftrightarrow> (\<exists>th \<in> set ths. loaded (pc th) = Some p \<and> shard_index th = s)"

fun in_critical :: "pc \<Rightarrow> bool" where
  "in_critical (LoadPtr c) = True"
| "in_critical (LoadInc p) = True"
| "in_critical (LoadExit r) = True"
| "in_critical (UpgradeLoad q) = True"
| "in_critical (UpgradeInc q p) = True"
| "in_critical (UpgradeExit q r) = True"
| "in_critical _ = False"

definition readers_in :: "thread list \<Rightarrow> nat \<Rightarrow> nat" where
  "readers_in ths s = sum_list (map (\<lambda>th. of_bool (in_critical (pc th) \<and> shard_index th = s)) ths)"

definition backref_live :: "(ptr \<Rightarrow> SdarcInner option) \<Rightarrow> ptr \<Rightarrow> bool" where
  "backref_live h p \<longleftrightarrow>
     (\<exists>a d q b r x. meta h p = Some (a, Some q, d) \<and> meta h q = Some (b, r, WeakSdarcInner (Some x)))"

definition tagged :: "world \<Rightarrow> ptr \<Rightarrow> bool" where
  "tagged w p \<longleftrightarrow> (\<exists>ob. heap w p = Some ob \<and> (\<exists>c \<in> set (counters ob). itc_tag c))"

text \<open>
  A dead object: no strong reference, no reader about to create one, and no weak reference that
  could still be upgraded.
\<close>

definition dead :: "world \<Rightarrow> ptr \<Rightarrow> bool" where
  "dead w p \<longleftrightarrow> strong w p = 0 \<and> (\<forall>s. \<not> pending_reader (threads w) s p) \<and> \<not> backref_live (heap w) p"

text \<open>Shards whose critical-section counter the current pass has already observed to be zero.\<close>

definition spun :: "world \<Rightarrow> nat set" where
  "spun w = (case cpc (coll w) of
       SpinScan i \<Rightarrow> {..<i} - set (shards_to_spin (coll w))
     | SpinWait \<Rightarrow> {..<shards w} - set (shards_to_spin (coll w))
     | Visit \<Rightarrow> {..<shards w}
     | PreRead a p i acc \<Rightarrow> {..<shards w}
     | ClearRead a p i acc \<Rightarrow> {..<shards w}
     | ReCheck a p i acc \<Rightarrow> {..<shards w}
     | ClearWeak a p \<Rightarrow> {..<shards w}
     | _ \<Rightarrow> {})"

section \<open>The parts of the invariant\<close>

definition inv_shape :: "world \<Rightarrow> bool" where
  "inv_shape w \<longleftrightarrow> 0 < shards w \<and> threads w \<noteq> [] \<and> length (critical w) = shards w
     \<and> length (pending_to_track w) = shards w \<and> (\<forall>th \<in> set (threads w). shard_index th < shards w)"

definition inv_len :: "world \<Rightarrow> bool" where
  "inv_len w \<longleftrightarrow> (\<forall>p ob. heap w p = Some ob \<longrightarrow> length (counters ob) = shards w)"

definition inv_count :: "world \<Rightarrow> bool" where
  "inv_count w \<longleftrightarrow>
     (\<forall>p ob. heap w p = Some ob \<longrightarrow> rc_sum itc_ref_count (counters ob) = int (strong w p))"

definition inv_alive :: "world \<Rightarrow> bool" where
  "inv_alive w \<longleftrightarrow>
     (\<forall>p. 0 < strong w p \<or> (\<exists>s. pending_reader (threads w) s p) \<longrightarrow> heap w p \<noteq> None)"

definition inv_critical :: "world \<Rightarrow> bool" where
  "inv_critical w \<longleftrightarrow> (\<forall>s < shards w. critical w ! s = readers_in (threads w) s)"

definition inv_weak :: "(ptr \<Rightarrow> SdarcInner option) \<Rightarrow> bool" where
  "inv_weak h \<longleftrightarrow>
     (\<forall>q b r p. meta h q = Some (b, r, WeakSdarcInner (Some p)) \<longrightarrow> (\<exists>a d. meta h p = Some (a, Some q, d)))
   \<and> (\<forall>p p' q a a' d d'. meta h p = Some (a, Some q, d) \<longrightarrow> meta h p' = Some (a', Some q, d') \<longrightarrow> p = p')"

definition inv_slots :: "(ptr \<Rightarrow> SdarcInner option) \<Rightarrow> cptr set \<Rightarrow> bool" where
  "inv_slots h used \<longleftrightarrow>
     (\<forall>p a r d. meta h p = Some (a, r, d) \<longrightarrow> a \<in> used)
   \<and> (\<forall>p p' a r r' d d'. meta h p = Some (a, r, d) \<longrightarrow> meta h p' = Some (a, r', d') \<longrightarrow> p = p')"

text \<open>
  The collector knows exactly the live objects: each is either waiting in a pending list or tracked
  under the address of its counters.
\<close>

definition inv_track :: "(ptr \<Rightarrow> SdarcInner option) \<Rightarrow> (ptr \<times> cptr) list list
    \<Rightarrow> (cptr \<times> TrackedCounter) list \<Rightarrow> bool" where
  "inv_track h pend m \<longleftrightarrow> sorted_keys m
   \<and> (\<forall>a tc. map_of m a = Some tc \<longrightarrow> (\<exists>r d. meta h (fat_ptr tc) = Some (a, r, d)))
   \<and> (\<forall>(p, a) \<in> set (concat pend). map_of m a = None \<and> (\<exists>r d. meta h p = Some (a, r, d)))
   \<and> distinct (map snd (concat pend))
   \<and> (\<forall>p a r d. meta h p = Some (a, r, d) \<longrightarrow>
        (p, a) \<in> set (concat pend) \<or> (\<exists>tc. map_of m a = Some tc \<and> fat_ptr tc = p))"

text \<open>The control state of the collector.\<close>

fun visiting :: "cpc \<Rightarrow> (cptr \<times> ptr) option" where
  "visiting (PreRead a p i acc) = Some (a, p)"
| "visiting (ClearRead a p i acc) = Some (a, p)"
| "visiting (ReCheck a p i acc) = Some (a, p)"
| "visiting (ClearWeak a p) = Some (a, p)"
| "visiting _ = None"

definition inv_pass :: "nat \<Rightarrow> collector \<Rightarrow> bool" where
  "inv_pass n c \<longleftrightarrow>
     distinct (todo c) \<and> distinct (to_free c) \<and> distinct (to_recheck c) \<and> distinct (counters_to_recheck c)
   \<and> set (todo c) \<inter> set (to_free c) = {}
   \<and> set (shards_to_spin c) \<subseteq> {..<n}
   \<and> (\<forall>i. cpc c = SpinScan i \<longrightarrow> i \<le> n)
   \<and> (\<forall>a tc. map_of (tracked_counters c) a = Some tc \<longrightarrow> (tstate tc = ReadyToFree \<longleftrightarrow> a \<in> set (to_free c)))
   \<and> (\<forall>a \<in> set (to_free c). map_of (tracked_counters c) a \<noteq> None)
   \<and> (\<forall>a p. visiting (cpc c) = Some (a, p) \<longrightarrow> a \<notin> set (todo c) \<and> a \<notin> set (to_free c)
        \<and> (\<exists>tc. map_of (tracked_counters c) a = Some tc \<and> fat_ptr tc = p))
   \<and> (cpc c = Parked \<or> (\<exists>i. cpc c = TakeNew i) \<or> (\<exists>i. cpc c = SpinScan i) \<or> cpc c = SpinWait \<longrightarrow> to_free c = [])"

text \<open>
  The evidence the collector has. What is ready to free is dead. A reader that entered its shard's
  critical section after the pass observed the shard, and loaded an object still to be re-checked,
  leaves a trace: the object is strongly referenced, or tagged, or still upgradable. A re-check in
  progress on an object that was not dead when it began cannot end with a zero sum and no tag seen.
\<close>

definition inv_ready :: "world \<Rightarrow> bool" where
  "inv_ready w \<longleftrightarrow> (\<forall>a tc. map_of (tracked_counters (coll w)) a = Some tc \<longrightarrow>
      tstate tc = ReadyToFree \<longrightarrow> dead w (fat_ptr tc))"

definition inv_readers :: "world \<Rightarrow> bool" where
  "inv_readers w \<longleftrightarrow> (\<forall>a tc s. a \<in> set (todo (coll w)) \<longrightarrow>
      map_of (tracked_counters (coll w)) a = Some tc \<longrightarrow> tstate tc = RequiresReChecking \<longrightarrow>
      s \<in> spun w \<longrightarrow> pending_reader (threads w) s (fat_ptr tc) \<longrightarrow>
      0 < strong w (fat_ptr tc) \<or> tagged w (fat_ptr tc) \<or> backref_live (heap w) (fat_ptr tc))"

definition inv_recheck :: "world \<Rightarrow> bool" where
  "inv_recheck w \<longleftrightarrow>
     (\<forall>a p i acc ob. cpc (coll w) = ReCheck a p i acc \<longrightarrow> heap w p = Some ob \<longrightarrow>
        i \<le> shards w \<and> scan_evidence itc_ref_count itc_tag 0 (counters ob) i acc
        \<and> (backref_live (heap w) p \<or> dead w p
           \<or> scan_evidence itc_ref_count itc_tag 1 (counters ob) i acc))
   \<and> (\<forall>a p. cpc (coll w) = ClearWeak a p \<longrightarrow> backref_live (heap w) p \<or> dead w p)"

definition inv :: "world \<Rightarrow> bool" where
  "inv w \<longleftrightarrow> inv_shape w \<and> inv_len w \<and> inv_count w \<and> inv_alive w \<and> inv_critical w
     \<and> inv_weak (heap w) \<and> inv_slots (heap w) (used_slots w)
     \<and> inv_track (heap w) (pending_to_track w) (tracked_counters (coll w))
     \<and> inv_pass (shards w) (coll w) \<and> inv_ready w \<and> inv_readers w \<and> inv_recheck w"

lemma invD:
  assumes "inv w"
  shows "inv_shape w" "inv_len w" "inv_count w" "inv_alive w" "inv_critical w"
    "inv_weak (heap w)" "inv_slots (heap w) (used_slots w)"
    "inv_track (heap w) (pending_to_track w) (tracked_counters (coll w))"
    "inv_pass (shards w) (coll w)" "inv_ready w" "inv_readers w" "inv_recheck w"
  using assms by (auto simp: inv_def)

section \<open>How the views change\<close>

lemma meta_None: "meta h p = None \<longleftrightarrow> h p = None"
  by (simp add: meta_def)

lemma meta_SomeI: "h p = Some ob \<Longrightarrow> meta h p = Some (counters_ptr ob, weak_inner_ref ob, data ob)"
  by (simp add: meta_def)

lemma meta_SomeD: "meta h p = Some (a, r, d) \<Longrightarrow>
    \<exists>ob. h p = Some ob \<and> counters_ptr ob = a \<and> weak_inner_ref ob = r \<and> data ob = d"
  by (auto simp: meta_def)

lemma meta_upd [simp]: "meta (h(p \<mapsto> ob)) = (meta h)(p \<mapsto> (counters_ptr ob, weak_inner_ref ob, data ob))"
  by (auto simp: meta_def)

lemma meta_del [simp]: "meta (h(p := None)) = (meta h)(p := None)"
  by (auto simp: meta_def)

lemma meta_upd_same:
  "h p = Some ob \<Longrightarrow> counters_ptr ob' = counters_ptr ob \<Longrightarrow> weak_inner_ref ob' = weak_inner_ref ob \<Longrightarrow>
     data ob' = data ob \<Longrightarrow> meta (h(p \<mapsto> ob')) = meta h"
  by (auto simp: meta_def)

lemma owned_cong: "meta h' = meta h \<Longrightarrow> owned h' = owned h"
  by (simp add: owned_def fun_eq_iff)

lemma backref_live_cong: "meta h' = meta h \<Longrightarrow> backref_live h' = backref_live h"
  by (simp add: backref_live_def fun_eq_iff)

lemma inv_weak_cong: "meta h' = meta h \<Longrightarrow> inv_weak h' = inv_weak h"
  by (simp add: inv_weak_def)

lemma inv_slots_cong: "meta h' = meta h \<Longrightarrow> inv_slots h' = inv_slots h"
  by (simp add: inv_slots_def fun_eq_iff)

lemma inv_track_cong: "meta h' = meta h \<Longrightarrow> inv_track h' = inv_track h"
  by (simp add: inv_track_def fun_eq_iff)

lemmas meta_congs = owned_cong backref_live_cong inv_weak_cong inv_slots_cong inv_track_cong

lemma pending_reader_update:
  "pending_reader (ths[t := th]) s p \<Longrightarrow>
     (loaded (pc th) = Some p \<and> shard_index th = s) \<or> pending_reader ths s p"
  unfolding pending_reader_def using set_update_subset_insert [of ths t th] by blast

lemma readers_in_update:
  "t < length ths \<Longrightarrow> int (readers_in (ths[t := th]) s) =
     int (readers_in ths s) - of_bool (in_critical (pc (ths ! t)) \<and> shard_index (ths ! t) = s)
       + of_bool (in_critical (pc th) \<and> shard_index th = s)"
  by (simp add: readers_in_def int_sum_list_update)

lemma pending_reader_in_critical: "pending_reader ths s p \<Longrightarrow> 0 < readers_in ths s"
proof -
  assume "pending_reader ths s p"
  then obtain th where th: "th \<in> set ths" "loaded (pc th) = Some p" "shard_index th = s"
    by (auto simp: pending_reader_def)
  then have "in_critical (pc th)" by (cases "pc th") auto
  with th show ?thesis
    using sum_list_member_nat [OF th(1), of "\<lambda>th. of_bool (in_critical (pc th) \<and> shard_index th = s)"]
    by (simp add: readers_in_def)
qed

end
