(* ===== verification/Sdarc_Moves.thy ===== *)
theory Sdarc_Moves
  imports Sdarc_Invariant
begin

text \<open>
  What user threads can do to the views, as an abstract specification of reference counting:
  nothing, add a strong reference, remove one, create an object, or give an object its weak
  reference. Every step of a user thread is one of these moves, and every move keeps the
  collector's evidence, whatever the collector is doing at the time.
\<close>

section \<open>Moves\<close>

definition same_coll :: "world \<Rightarrow> world \<Rightarrow> bool" where
  "same_coll w w' \<longleftrightarrow>
     (\<exists>x. coll w' = (coll w)\<lparr>counters_to_recheck := x\<rparr> \<and> (distinct (counters_to_recheck (coll w)) \<longrightarrow> distinct x))"

text \<open>A new pending reader got its pointer from a strong reference or from a live back reference.\<close>

definition readers_justified :: "world \<Rightarrow> world \<Rightarrow> bool" where
  "readers_justified w w' \<longleftrightarrow> (\<forall>s p. pending_reader (threads w') s p \<longrightarrow>
     pending_reader (threads w) s p \<or> 0 < strong w p \<or> backref_live (heap w) p)"

definition frame :: "world \<Rightarrow> world \<Rightarrow> bool" where
  "frame w w' \<longleftrightarrow> shards w' = shards w \<and> same_coll w w' \<and> readers_justified w w'"

definition slot_frame :: "world \<Rightarrow> world \<Rightarrow> bool" where
  "slot_frame w w' \<longleftrightarrow> used_slots w' = used_slots w \<and> pending_to_track w' = pending_to_track w"

definition new_slot :: "world \<Rightarrow> ptr \<Rightarrow> cptr \<Rightarrow> nat \<Rightarrow> world \<Rightarrow> bool" where
  "new_slot w p a s w' \<longleftrightarrow> heap w p = None \<and> a \<notin> used_slots w \<and> s < shards w
     \<and> used_slots w' = insert a (used_slots w)
     \<and> pending_to_track w' = (pending_to_track w)[s := pending_to_track w ! s @ [(p, a)]]"

inductive env_move :: "world \<Rightarrow> world \<Rightarrow> bool" where
  quiet: "frame w w' \<Longrightarrow> slot_frame w w' \<Longrightarrow> heap w' = heap w \<Longrightarrow>
     (\<And>q. int (strong w' q) = int (strong w q)) \<Longrightarrow> env_move w w'"
| incr: "frame w w' \<Longrightarrow> slot_frame w w' \<Longrightarrow> heap w p = Some ob \<Longrightarrow> s < shards w \<Longrightarrow>
     heap w' = (heap w)(p \<mapsto> ob\<lparr>counters := (counters ob)[s := itc_increment (counters ob ! s)]\<rparr>) \<Longrightarrow>
     0 < strong w p \<or> (\<exists>s. pending_reader (threads w) s p) \<Longrightarrow>
     (\<And>q. int (strong w' q) = int (strong w q) + of_bool (p = q)) \<Longrightarrow> env_move w w'"
| decr: "frame w w' \<Longrightarrow> slot_frame w w' \<Longrightarrow> heap w p = Some ob \<Longrightarrow> s < shards w \<Longrightarrow>
     heap w' = (heap w)(p \<mapsto> ob\<lparr>counters := (counters ob)[s := itc_decrement (counters ob ! s)]\<rparr>) \<Longrightarrow>
     0 < strong w p \<Longrightarrow>
     (\<And>q. int (strong w' q) = int (strong w q) - of_bool (p = q)) \<Longrightarrow> env_move w w'"
| create: "frame w w' \<Longrightarrow> new_slot w p a s w' \<Longrightarrow>
     heap w' = (heap w)(p \<mapsto> SdarcInner_new (shards w) s a (UserData v)) \<Longrightarrow>
     (\<And>q. int (strong w' q) = int (strong w q) + of_bool (p = q)) \<Longrightarrow> env_move w w'"
| weak_create: "frame w w' \<Longrightarrow> new_slot w q a s w' \<Longrightarrow> heap w p = Some ob \<Longrightarrow>
     weak_inner_ref ob = None \<Longrightarrow> 0 < strong w p \<Longrightarrow>
     heap w' = (heap w)(q \<mapsto> SdarcInner_new (shards w) s a (WeakSdarcInner (Some p)),
                        p \<mapsto> ob\<lparr>weak_inner_ref := Some q\<rparr>) \<Longrightarrow>
     (\<And>r. int (strong w' r) = int (strong w r) + of_bool (q = r)) \<Longrightarrow> env_move w w'"

section \<open>Moves keep the counts\<close>

lemma SdarcInner_new_simps [simp]:
  "counters_ptr (SdarcInner_new n s a v) = a" "weak_inner_ref (SdarcInner_new n s a v) = None"
  "data (SdarcInner_new n s a v) = v" "length (counters (SdarcInner_new n s a v)) = n"
  by (simp_all add: SdarcInner_new_def)

lemma SdarcInner_new_sum: "s < n \<Longrightarrow> rc_sum itc_ref_count (counters (SdarcInner_new n s a v)) = 1"
  using itc.sum_inc [of s "replicate n 0"] itc.sum_fresh [of n] by (simp add: SdarcInner_new_def)

lemma inv_alive_strong: "inv_alive w \<Longrightarrow> heap w p = None \<Longrightarrow> strong w p = 0"
  by (auto simp: inv_alive_def)

lemma move_len: "env_move w w' \<Longrightarrow> inv_len w \<Longrightarrow> inv_len w'"
  by (induction rule: env_move.induct) (auto simp: inv_len_def frame_def split: if_splits)

lemma move_count:
  assumes "env_move w w'" and "inv_count w" and "inv_len w" and "inv_alive w"
  shows "inv_count w'"
  using assms
proof (induction rule: env_move.induct)
  case (quiet w w')
  then show ?case by (simp add: inv_count_def)
next
  case (incr w w' p ob s)
  have "s < length (counters ob)" using incr by (simp add: inv_len_def)
  from itc.sum_inc [OF this] show ?case using incr by (auto simp: inv_count_def)
next
  case (decr w w' p ob s)
  have "s < length (counters ob)" using decr by (simp add: inv_len_def)
  from itc.sum_dec [OF this] show ?case using decr by (auto simp: inv_count_def)
next
  case (create w w' p a s v)
  then show ?case
    using inv_alive_strong [of w p] by (auto simp: inv_count_def new_slot_def SdarcInner_new_sum)
next
  case (weak_create w w' q a s p ob)
  then show ?case
    using inv_alive_strong [of w q] by (auto simp: inv_count_def new_slot_def SdarcInner_new_sum)
qed

lemma move_strong_mono_dom:
  "env_move w w' \<Longrightarrow> heap w p \<noteq> None \<Longrightarrow> heap w' p \<noteq> None"
  by (induction rule: env_move.induct) auto

lemma backref_live_alive: "inv_weak h \<Longrightarrow> backref_live h p \<Longrightarrow> h p \<noteq> None"
  by (auto simp: backref_live_def meta_def)

lemma move_new_strong:
  "env_move w w' \<Longrightarrow> 0 < strong w' p \<Longrightarrow> 0 < strong w p \<or> heap w' p \<noteq> None"
proof (induction rule: env_move.induct)
  case (quiet w w')
  from quiet.hyps(4) [of p] quiet.prems show ?case by simp
next
  case (incr w w' q ob s)
  from incr.hyps(7) [of p] incr.hyps(5) incr.prems show ?case by (cases "q = p") simp_all
next
  case (decr w w' q ob s)
  from decr.hyps(7) [of p] decr.prems show ?case by (cases "q = p") simp_all
next
  case (create w w' q a s v)
  from create.hyps(4) [of p] create.hyps(3) create.prems show ?case by (cases "q = p") simp_all
next
  case (weak_create w w' q a s r ob)
  from weak_create.hyps(7) [of p] weak_create.hyps(6) weak_create.prems show ?case
    by (cases "q = p") auto
qed

lemma move_frame: "env_move w w' \<Longrightarrow> frame w w'"
  by (induction rule: env_move.induct) auto

lemma move_alive:
  assumes "env_move w w'" and "inv_alive w" and "inv_weak (heap w)"
  shows "inv_alive w'"
  unfolding inv_alive_def
proof (intro allI impI)
  fix p
  assume "0 < strong w' p \<or> (\<exists>s. pending_reader (threads w') s p)"
  then have "0 < strong w p \<or> (\<exists>s. pending_reader (threads w) s p) \<or> backref_live (heap w) p
      \<or> heap w' p \<noteq> None"
    using move_new_strong [OF assms(1), of p] move_frame [OF assms(1)]
    unfolding frame_def readers_justified_def by blast
  then show "heap w' p \<noteq> None"
    using assms(2) backref_live_alive [OF assms(3)] move_strong_mono_dom [OF assms(1)]
    by (auto simp: inv_alive_def)
qed

section \<open>Moves keep the shape of the heap\<close>

lemma move_meta:
  "env_move w w' \<Longrightarrow>
     (meta (heap w') = meta (heap w) \<and> slot_frame w w')
   \<or> (\<exists>p a s v. new_slot w p a s w' \<and> meta (heap w') = (meta (heap w))(p \<mapsto> (a, None, UserData v)))
   \<or> (\<exists>p q a s b d. new_slot w q a s w' \<and> meta (heap w) p = Some (b, None, d) \<and> p \<noteq> q \<and> 0 < strong w p \<and>
        meta (heap w') = (meta (heap w))(q \<mapsto> (a, None, WeakSdarcInner (Some p)), p \<mapsto> (b, Some q, d)))"
proof (induction rule: env_move.induct)
  case (quiet w w')
  then show ?case by simp
next
  case (incr w w' p ob s)
  have "meta (heap w') = meta (heap w)"
    unfolding incr.hyps(5) by (rule meta_upd_same) (use incr.hyps(3) in auto)
  with incr.hyps(2) show ?case by blast
next
  case (decr w w' p ob s)
  have "meta (heap w') = meta (heap w)"
    unfolding decr.hyps(5) by (rule meta_upd_same) (use decr.hyps(3) in auto)
  with decr.hyps(2) show ?case by blast
next
  case (create w w' p a s v)
  have "meta (heap w') = (meta (heap w))(p \<mapsto> (a, None, UserData v))"
    unfolding create.hyps(3) by simp
  with create.hyps(2) show ?case by blast
next
  case (weak_create w w' q a s p ob)
  then have "meta (heap w) p = Some (counters_ptr ob, None, data ob)" "p \<noteq> q"
    by (auto simp: meta_SomeI new_slot_def)
  moreover have "meta (heap w') = (meta (heap w))
      (q \<mapsto> (a, None, WeakSdarcInner (Some p)), p \<mapsto> (counters_ptr ob, Some q, data ob))"
    unfolding weak_create.hyps(6) by simp
  ultimately show ?case using weak_create.hyps(2,5) by blast
qed

lemma move_meta_cases:
  assumes "env_move w w'"
  obtains (same) "meta (heap w') = meta (heap w)" "slot_frame w w'"
  | (create) p a s v where "new_slot w p a s w'" "meta (heap w) p = None"
      "meta (heap w') = (meta (heap w))(p \<mapsto> (a, None, UserData v))"
  | (weak) p q a s b d where "new_slot w q a s w'" "meta (heap w) q = None"
      "meta (heap w) p = Some (b, None, d)" "p \<noteq> q" "0 < strong w p"
      "meta (heap w') = (meta (heap w))(q \<mapsto> (a, None, WeakSdarcInner (Some p)), p \<mapsto> (b, Some q, d))"
  using move_meta [OF assms] by (auto simp: new_slot_def meta_None)

lemma move_weak:
  assumes "env_move w w'" and "inv_weak (heap w)" and "inv_alive w"
  shows "inv_weak (heap w')"
  using assms(1)
proof (cases rule: move_meta_cases)
  case same
  then show ?thesis using assms(2) inv_weak_cong by blast
next
  case (create p a s v)
  then show ?thesis using assms(2) unfolding inv_weak_def create(3)
    by (auto split: if_splits) (metis option.distinct(1))
next
  case (weak p q a s b d)
  have "\<not> owned (heap w) q"
    using inv_alive_strong [OF assms(3), of q] weak(1) by (auto simp: strong_def new_slot_def)
  then have no_owner: "meta (heap w) r \<noteq> Some (x, Some q, y)" for r x y
    by (auto simp: owned_def)
  have no_back: "meta (heap w) r \<noteq> Some (x, y, WeakSdarcInner (Some q))"
      "meta (heap w) r \<noteq> Some (x, y, WeakSdarcInner (Some p))" for r x y
    using assms(2) weak(2,3) unfolding inv_weak_def by (metis option.distinct(1) option.inject prod.inject)+
  show ?thesis using assms(2) weak(2-4) no_owner no_back unfolding inv_weak_def weak(6)
    by (auto split: if_splits)
qed

lemma move_slots:
  assumes "env_move w w'" and "inv_slots (heap w) (used_slots w)"
  shows "inv_slots (heap w') (used_slots w')"
  using assms(1)
proof (cases rule: move_meta_cases)
  case same
  then show ?thesis using assms(2) inv_slots_cong by (metis slot_frame_def)
next
  case (create p a s v)
  then show ?thesis using assms(2) unfolding inv_slots_def create(3)
    by (auto simp: new_slot_def split: if_splits)
next
  case (weak p q a s b d)
  then show ?thesis using assms(2) unfolding inv_slots_def weak(6)
    by (auto simp: new_slot_def split: if_splits)
qed

lemma same_coll_tracked:
  assumes "same_coll w w'"
  shows "tracked_counters (coll w') = tracked_counters (coll w)" "cpc (coll w') = cpc (coll w)"
    "todo (coll w') = todo (coll w)" "shards_to_spin (coll w') = shards_to_spin (coll w)"
  using assms by (auto simp: same_coll_def)

lemma move_coll:
  assumes "env_move w w'"
  obtains x where "coll w' = (coll w)\<lparr>counters_to_recheck := x\<rparr>" "shards w' = shards w"
    "distinct (counters_to_recheck (coll w)) \<longrightarrow> distinct x"
  using move_frame [OF assms] unfolding frame_def same_coll_def by blast

lemma inv_trackD:
  assumes "inv_track h pend m"
  shows "sorted_keys m"
    and "map_of m a = Some tc \<Longrightarrow> \<exists>r d. meta h (fat_ptr tc) = Some (a, r, d)"
    and "(p, a) \<in> set (concat pend) \<Longrightarrow> map_of m a = None"
    and "(p, a) \<in> set (concat pend) \<Longrightarrow> \<exists>r d. meta h p = Some (a, r, d)"
    and "distinct (map snd (concat pend))"
    and "meta h p = Some (a, r, d) \<Longrightarrow>
        (p, a) \<in> set (concat pend) \<or> (\<exists>tc. map_of m a = Some tc \<and> fat_ptr tc = p)"
  using assms unfolding inv_track_def by blast+

lemma inv_trackI:
  assumes "sorted_keys m"
    and "\<And>a tc. map_of m a = Some tc \<Longrightarrow> \<exists>r d. meta h (fat_ptr tc) = Some (a, r, d)"
    and "\<And>p a. (p, a) \<in> set (concat pend) \<Longrightarrow> map_of m a = None \<and> (\<exists>r d. meta h p = Some (a, r, d))"
    and "distinct (map snd (concat pend))"
    and "\<And>p a r d. meta h p = Some (a, r, d) \<Longrightarrow>
        (p, a) \<in> set (concat pend) \<or> (\<exists>tc. map_of m a = Some tc \<and> fat_ptr tc = p)"
  shows "inv_track h pend m"
  using assms unfolding inv_track_def by blast

lemma track_insert:
  assumes tr: "inv_track h pend m" and sl: "inv_slots h used" and a: "a \<notin> used"
    and s: "s < length pend"
    and meta': "\<And>q b r d. meta h' q = Some (b, r, d) \<Longrightarrow>
        (q = p \<and> b = a) \<or> (\<exists>r d. meta h q = Some (b, r, d))"
    and keep: "\<And>q b r d. meta h q = Some (b, r, d) \<Longrightarrow> \<exists>r d. meta h' q = Some (b, r, d)"
    and new: "\<exists>r d. meta h' p = Some (a, r, d)"
  shows "inv_track h' (pend[s := pend ! s @ [(p, a)]]) m"
proof (rule inv_trackI, unfold set_concat_snoc [OF s] distinct_map_concat_snoc [OF s])
  have fresh: "meta h q \<noteq> Some (a, r, d)" for q r d
    using sl a by (auto simp: inv_slots_def)
  have nt: "map_of m a = None"
    using inv_trackD(2) [OF tr] fresh by (metis not_Some_eq)
  have "a \<notin> snd ` set (concat pend)"
    using inv_trackD(4) [OF tr] fresh by (metis (no_types) imageE prod.collapse)
  then show "distinct (map snd (concat pend)) \<and> snd (p, a) \<notin> snd ` set (concat pend)"
    using inv_trackD(5) [OF tr] by simp
  show "sorted_keys m" by (rule inv_trackD(1) [OF tr])
  show "\<exists>r d. meta h' (fat_ptr tc) = Some (b, r, d)" if "map_of m b = Some tc" for b tc
    using inv_trackD(2) [OF tr that] keep by blast
  show "map_of m b = None \<and> (\<exists>r d. meta h' q = Some (b, r, d))"
    if "(q, b) \<in> insert (p, a) (set (concat pend))" for q b
    using that nt new inv_trackD(3,4) [OF tr, of q b] keep by blast
  show "(q, b) \<in> insert (p, a) (set (concat pend)) \<or> (\<exists>tc. map_of m b = Some tc \<and> fat_ptr tc = q)"
    if "meta h' q = Some (b, r, d)" for q b r d
    using meta' [OF that] inv_trackD(6) [OF tr] by blast
qed

lemma move_track:
  assumes "env_move w w'" and "inv_track (heap w) (pending_to_track w) (tracked_counters (coll w))"
    and "inv_slots (heap w) (used_slots w)" and "inv_shape w"
  shows "inv_track (heap w') (pending_to_track w') (tracked_counters (coll w'))"
proof -
  have co: "tracked_counters (coll w') = tracked_counters (coll w)"
    using move_frame [OF assms(1)] by (simp add: frame_def same_coll_tracked)
  from assms(1) show ?thesis
  proof (cases rule: move_meta_cases)
    case same
    then show ?thesis using assms(2) inv_track_cong co by (metis slot_frame_def)
  next
    case (create p a s v)
    have "inv_track (heap w') ((pending_to_track w)[s := pending_to_track w ! s @ [(p, a)]])
        (tracked_counters (coll w))"
      by (rule track_insert [OF assms(2,3)])
        (use create assms(4) in \<open>auto simp: new_slot_def inv_shape_def split: if_splits\<close>)
    with create(1) show ?thesis unfolding co by (simp add: new_slot_def)
  next
    case (weak p q a s b d)
    have "inv_track (heap w') ((pending_to_track w)[s := pending_to_track w ! s @ [(q, a)]])
        (tracked_counters (coll w))"
      by (rule track_insert [OF assms(2,3)])
        (use weak assms(4) in \<open>auto simp: new_slot_def inv_shape_def split: if_splits\<close>)
    with weak(1) show ?thesis unfolding co by (simp add: new_slot_def)
  qed
qed

lemma move_pass:
  assumes "env_move w w'" and "inv_pass (shards w) (coll w)"
  shows "inv_pass (shards w') (coll w')"
proof -
  from assms(1) obtain x where "coll w' = (coll w)\<lparr>counters_to_recheck := x\<rparr>" "shards w' = shards w"
    "distinct (counters_to_recheck (coll w)) \<longrightarrow> distinct x"
    by (rule move_coll)
  with assms(2) show ?thesis by (simp add: inv_pass_def)
qed

section \<open>Moves keep the evidence\<close>

lemma owned_alive: "inv_alive w \<Longrightarrow> owned (heap w) q \<Longrightarrow> heap w q \<noteq> None"
  by (auto simp: inv_alive_def strong_def)

lemma weak_ref_alive:
  "inv_alive w \<Longrightarrow> meta (heap w) p = Some (a, Some q, d) \<Longrightarrow> \<exists>b r d. meta (heap w) q = Some (b, r, d)"
  using owned_alive [of w q] by (auto simp: owned_def meta_def)

lemma move_meta_keep:
  assumes "env_move w w'" and "meta (heap w) p = Some (a, r, d)"
  shows "meta (heap w') p = Some (a, r, d)
       \<or> (r = None \<and> 0 < strong w p \<and> (\<exists>q. meta (heap w') p = Some (a, Some q, d)))"
  using assms(1) by (cases rule: move_meta_cases) (use assms(2) in auto)

lemma move_backref:
  assumes mv: "env_move w w'" and al: "inv_alive w" and "heap w p \<noteq> None"
  shows "backref_live (heap w) p \<Longrightarrow> backref_live (heap w') p"
    and "strong w p = 0 \<Longrightarrow> backref_live (heap w') p \<Longrightarrow> backref_live (heap w) p"
proof -
  note keep = move_meta_keep [OF mv]
  show "backref_live (heap w) p \<Longrightarrow> backref_live (heap w') p"
    unfolding backref_live_def by (metis keep option.distinct(1))
  obtain a r d where p: "meta (heap w) p = Some (a, r, d)"
    using assms(3) by (auto simp: meta_def)
  assume "strong w p = 0" and "backref_live (heap w') p"
  then obtain q b r' x where q: "r = Some q" "meta (heap w') q = Some (b, r', WeakSdarcInner (Some x))"
    unfolding backref_live_def using keep [OF p] by auto
  obtain b' r'' d' where "meta (heap w) q = Some (b', r'', d')"
    using weak_ref_alive [OF al] p q(1) by blast
  with q keep [OF this] p show "backref_live (heap w) p"
    unfolding backref_live_def by auto
qed

lemma move_counters:
  assumes "env_move w w'" and "inv_len w" and "heap w p = Some ob"
  shows "\<exists>ob'. heap w' p = Some ob' \<and>
     ((counters ob' = counters ob \<and> strong w p \<le> strong w' p)
      \<or> (\<exists>s < length (counters ob). counters ob' = (counters ob)[s := itc_increment (counters ob ! s)]
            \<and> strong w p \<le> strong w' p)
      \<or> (\<exists>s < length (counters ob). counters ob' = (counters ob)[s := itc_decrement (counters ob ! s)]))"
  using assms
proof (induction rule: env_move.induct)
  case (quiet w w')
  from quiet.hyps(4) [of p] quiet.hyps(3) quiet.prems show ?case by simp
next
  case (incr w w' q ob' s)
  from incr.hyps(7) [of p] incr.hyps(3-5) incr.prems show ?case
    by (cases "p = q") (auto simp: inv_len_def)
next
  case (decr w w' q ob' s)
  from decr.hyps(7) [of p] decr.hyps(3-5) decr.prems show ?case
    by (cases "p = q") (auto simp: inv_len_def)
next
  case (create w w' q a s v)
  from create.hyps(4) [of p] create.hyps(2,3) create.prems show ?case
    by (cases "p = q") (auto simp: new_slot_def)
next
  case (weak_create w w' q a s r ob')
  from weak_create.hyps(7) [of p] weak_create.hyps(2,3,6) weak_create.prems show ?case
    by (cases "p = q"; cases "p = r") (auto simp: new_slot_def)
qed

text \<open>A decrement leaves its tag: a strong reference can disappear, its trace cannot.\<close>

definition trace_of :: "world \<Rightarrow> ptr \<Rightarrow> bool" where
  "trace_of w p \<longleftrightarrow> 0 < strong w p \<or> tagged w p \<or> backref_live (heap w) p"

lemma move_trace:
  assumes mv: "env_move w w'" and al: "inv_alive w" and len: "inv_len w" and wk: "inv_weak (heap w)"
    and tr: "trace_of w p"
  shows "trace_of w' p"
proof -
  have "heap w p \<noteq> None"
    using tr al backref_live_alive [OF wk, of p] by (auto simp: trace_of_def inv_alive_def tagged_def)
  then obtain ob where ob: "heap w p = Some ob" by auto
  from move_counters [OF mv len ob] obtain ob' where ob': "heap w' p = Some ob'" and
    "(counters ob' = counters ob \<and> strong w p \<le> strong w' p)
      \<or> (\<exists>s < length (counters ob). counters ob' = (counters ob)[s := itc_increment (counters ob ! s)]
            \<and> strong w p \<le> strong w' p)
      \<or> (\<exists>s < length (counters ob). counters ob' = (counters ob)[s := itc_decrement (counters ob ! s)])"
    by blast
  then have "0 < strong w p \<longrightarrow> 0 < strong w' p \<or> tagged w' p" "tagged w p \<longrightarrow> tagged w' p"
    using itc.tagged_inc [of "counters ob"] itc.tagged_dec [of _ "counters ob"] ob ob'
    by (auto simp: tagged_def) blast
  then show ?thesis
    using tr move_backref(1) [OF mv al \<open>heap w p \<noteq> None\<close>] by (auto simp: trace_of_def)
qed

lemma move_dead_strong:
  assumes "env_move w w'" and "dead w p" and "heap w p \<noteq> None"
  shows "strong w' p = 0"
  using assms
proof (induction rule: env_move.induct)
  case (quiet w w')
  from quiet.hyps(4) [of p] quiet.prems show ?case by (simp add: dead_def)
next
  case (incr w w' q ob s)
  from incr.hyps(7) [of p] incr.hyps(6) incr.prems show ?case
    by (cases "q = p") (auto simp: dead_def)
next
  case (decr w w' q ob s)
  from decr.hyps(7) [of p] decr.hyps(6) decr.prems show ?case
    by (cases "q = p") (auto simp: dead_def)
next
  case (create w w' q a s v)
  from create.hyps(4) [of p] create.hyps(2) create.prems show ?case
    by (cases "q = p") (auto simp: dead_def new_slot_def)
next
  case (weak_create w w' q a s r ob)
  from weak_create.hyps(7) [of p] weak_create.hyps(2) weak_create.prems show ?case
    by (cases "q = p") (auto simp: dead_def new_slot_def)
qed

lemma move_dead:
  assumes mv: "env_move w w'" and al: "inv_alive w" and d: "dead w p" and h: "heap w p \<noteq> None"
  shows "dead w' p"
proof -
  have "\<not> pending_reader (threads w') s p" for s
    using d move_frame [OF mv] unfolding dead_def frame_def readers_justified_def
    by (metis less_nat_zero_code)
  moreover have "\<not> backref_live (heap w') p"
    using move_backref(2) [OF mv al h] d by (auto simp: dead_def)
  ultimately show ?thesis using move_dead_strong [OF mv d h] by (simp add: dead_def)
qed

lemma tracked_alive:
  "inv_track (heap w) pend m \<Longrightarrow> map_of m a = Some tc \<Longrightarrow> heap w (fat_ptr tc) \<noteq> None"
  using inv_trackD(2) [of "heap w" pend m a tc] by (auto simp: meta_def)

lemma move_ready:
  assumes mv: "env_move w w'" and i: "inv w"
  shows "inv_ready w'"
proof -
  have "tracked_counters (coll w') = tracked_counters (coll w)"
    using move_frame [OF mv] by (simp add: frame_def same_coll_tracked)
  then show ?thesis
    using invD(10) [OF i] move_dead [OF mv invD(4) [OF i]] tracked_alive [OF invD(8) [OF i]]
    unfolding inv_ready_def by auto
qed

lemma move_readers:
  assumes mv: "env_move w w'" and i: "inv w"
  shows "inv_readers w'"
proof -
  obtain x where c: "coll w' = (coll w)\<lparr>counters_to_recheck := x\<rparr>" and n: "shards w' = shards w"
    using mv by (rule move_coll)
  have sp: "spun w' = spun w" by (simp add: spun_def c n split: cpc.split)
  have "trace_of w' (fat_ptr tc)"
    if "a \<in> set (todo (coll w))" "map_of (tracked_counters (coll w)) a = Some tc"
      "tstate tc = RequiresReChecking" "s \<in> spun w" "pending_reader (threads w') s (fat_ptr tc)" for a tc s
  proof -
    have "trace_of w (fat_ptr tc)"
      using that invD(11) [OF i] move_frame [OF mv]
      unfolding inv_readers_def frame_def readers_justified_def trace_of_def by blast
    then show ?thesis using move_trace [OF mv invD(4,2,6) [OF i]] by blast
  qed
  then show ?thesis unfolding inv_readers_def trace_of_def [symmetric] sp by (simp add: c)
qed

lemma move_evidence:
  assumes mv: "env_move w w'" and len: "inv_len w" and ob: "heap w p = Some ob" and ob': "heap w' p = Some ob'"
    and ev: "scan_evidence itc_ref_count itc_tag k (counters ob) i acc"
  shows "scan_evidence itc_ref_count itc_tag k (counters ob') i acc"
  using move_counters [OF mv len ob] ob' itc.evidence_inc [OF _ ev] itc.evidence_dec [OF _ ev] ev by auto

lemma move_recheck:
  assumes mv: "env_move w w'" and i: "inv w"
  shows "inv_recheck w'"
proof -
  obtain x where c: "coll w' = (coll w)\<lparr>counters_to_recheck := x\<rparr>" and n: "shards w' = shards w"
    using mv by (rule move_coll)
  have alive: "heap w p \<noteq> None" if "visiting (cpc (coll w)) = Some (a, p)" for a p
    using that invD(9) [OF i] tracked_alive [OF invD(8) [OF i]] unfolding inv_pass_def by metis
  have br: "backref_live (heap w') p \<or> dead w' p"
    if "heap w p \<noteq> None" "backref_live (heap w) p \<or> dead w p" for p
    using that move_backref(1) [OF mv invD(4) [OF i]] move_dead [OF mv invD(4) [OF i]] by blast
  show ?thesis unfolding inv_recheck_def
  proof (intro conjI allI impI)
    fix a p j acc ob'
    assume "cpc (coll w') = ReCheck a p j acc" and ob': "heap w' p = Some ob'"
    then have pc: "cpc (coll w) = ReCheck a p j acc" by (simp add: c)
    then obtain ob where ob: "heap w p = Some ob" using alive by fastforce
    note old = invD(12) [OF i, unfolded inv_recheck_def, THEN conjunct1, rule_format, OF pc ob]
    note ev = move_evidence [OF mv invD(2) [OF i] ob ob']
    show "j \<le> shards w'" using old n by simp
    show "scan_evidence itc_ref_count itc_tag 0 (counters ob') j acc" using old ev by blast
    show "backref_live (heap w') p \<or> dead w' p
        \<or> scan_evidence itc_ref_count itc_tag 1 (counters ob') j acc"
      using old ev br ob by blast
  next
    fix a p
    assume "cpc (coll w') = ClearWeak a p"
    then have pc: "cpc (coll w) = ClearWeak a p" by (simp add: c)
    then show "backref_live (heap w') p \<or> dead w' p"
      using br alive [of a p] invD(12) [OF i] unfolding inv_recheck_def by fastforce
  qed
qed

text \<open>All that a move keeps; the shape of the thread list and the critical-section counters are
  kept step by step.\<close>

lemma move_inv:
  assumes mv: "env_move w w'" and i: "inv w" and sh: "inv_shape w'" and cr: "inv_critical w'"
  shows "inv w'"
  unfolding inv_def
  using sh cr move_len [OF mv] move_count [OF mv] move_alive [OF mv] move_weak [OF mv] move_slots [OF mv]
    move_track [OF mv] move_pass [OF mv] move_ready [OF mv i] move_readers [OF mv i] move_recheck [OF mv i]
    invD [OF i] by blast

end
