(* ===== verification/Sdarc_User_Steps.thy ===== *)
theory Sdarc_User_Steps
  imports Sdarc_Moves
begin

text \<open>
  Every step of a user thread is a move and keeps the invariant, except the success of
  \<open>compare_and_set\<close> with a non-null pointer, which is left out here (\<open>cas_free\<close>): it puts a pointer
  into a cell before it counts the reference, so the counts of the invariant do not hold until the
  increment is done.
\<close>

fun cas_free :: "uaction \<Rightarrow> bool" where
  "cas_free (CompareAndSet c m (Some q)) = False"
| "cas_free _ = True"

text \<open>
  No thread is inside such a \<open>compare_and_set\<close>, and a thread inside \<open>downgrade\<close> clones the handle that
  the object it borrows owns.
\<close>

fun pc_ok :: "(ptr \<Rightarrow> SdarcInner option) \<Rightarrow> pc \<Rightarrow> bool" where
  "pc_ok h (CasInc q old) = False"
| "pc_ok h (DowngradeClone p q) = (\<exists>a d. meta h p = Some (a, Some q, d))"
| "pc_ok h _ = True"

definition inv_pcs :: "world \<Rightarrow> bool" where
  "inv_pcs w \<longleftrightarrow> (\<forall>th \<in> set (threads w). pc_ok (heap w) (pc th))"

definition safe :: "world \<Rightarrow> bool" where
  "safe w \<longleftrightarrow> inv w \<and> inv_pcs w"

section \<open>Bookkeeping of one thread's step\<close>

lemma modify_counter_Next:
  "modify_counter f p s w k = Next w' \<longleftrightarrow>
     (\<exists>ob. heap w p = Some ob
        \<and> k (w\<lparr>heap := (heap w)(p \<mapsto> ob\<lparr>counters := (counters ob)[s := f (counters ob ! s)]\<rparr>)\<rparr>) = Next w')"
  by (auto simp: modify_counter_def set_obj_def split: option.splits)

lemma strong_int:
  "int (strong w p) = int (handles w p) + int (count_list (atomics w) (Some p))
     + int (sum_list (map (\<lambda>th. held (pc th) p) (threads w))) + of_bool (owned (heap w) p)"
  by (simp add: strong_def)

lemma owned_upd_same:
  "h p = Some ob \<Longrightarrow> counters_ptr ob' = counters_ptr ob \<Longrightarrow> weak_inner_ref ob' = weak_inner_ref ob \<Longrightarrow>
     data ob' = data ob \<Longrightarrow> owned (h(p \<mapsto> ob')) = owned h"
  by (rule owned_cong) (rule meta_upd_same)

lemmas strong_calc = strong_int int_sum_list_update int_count_list_update owned_upd_same of_nat_diff

lemma strong_handle: "0 < handles w p \<Longrightarrow> 0 < strong w p"
  by (simp add: strong_def)

lemma strong_cell: "c < length (atomics w) \<Longrightarrow> atomics w ! c = Some p \<Longrightarrow> 0 < strong w p"
  using count_notin [of "Some p" "atomics w"] nth_mem [of c "atomics w"]
  by (auto simp: strong_def count_list_0_iff)

lemma strong_held: "t < length (threads w) \<Longrightarrow> 0 < held (pc (threads w ! t)) p \<Longrightarrow> 0 < strong w p"
  using sum_list_member_nat [of "threads w ! t" "threads w" "\<lambda>th. held (pc th) p"]
  by (auto simp: strong_def)

lemma pending_readerI:
  "t < length (threads w) \<Longrightarrow> loaded (pc (threads w ! t)) = Some p \<Longrightarrow> \<exists>s. pending_reader (threads w) s p"
  unfolding pending_reader_def using nth_mem by blast

lemma same_coll_refl: "coll w' = coll w \<Longrightarrow> same_coll w w'"
  unfolding same_coll_def by (rule exI [of _ "counters_to_recheck (coll w)"]) simp

text \<open>
  What a step of thread \<open>t\<close> does to its own thread, and what it must do to the critical-section
  counters.
\<close>

definition thread_step :: "nat \<Rightarrow> thread \<Rightarrow> world \<Rightarrow> world \<Rightarrow> bool" where
  "thread_step t th w w' \<longleftrightarrow> t < length (threads w) \<and> shards w' = shards w \<and> same_coll w w'
     \<and> threads w' = (threads w)[t := th] \<and> shard_index th < shards w
     \<and> length (critical w') = length (critical w)
     \<and> (\<forall>s < shards w. int (critical w' ! s) = int (critical w ! s)
          - of_bool (in_critical (pc (threads w ! t)) \<and> shard_index (threads w ! t) = s)
          + of_bool (in_critical (pc th) \<and> shard_index th = s))
     \<and> (\<forall>p. loaded (pc th) = Some p \<longrightarrow> 0 < strong w p \<or> backref_live (heap w) p)"

lemma thread_step_frame: "thread_step t th w w' \<Longrightarrow> frame w w'"
  unfolding thread_step_def frame_def readers_justified_def
  using pending_reader_update [of "threads w" t th] by auto

lemma step_inv:
  assumes i: "inv w" and mv: "env_move w w'" and ts: "thread_step t th w w'"
    and len: "length (pending_to_track w') = length (pending_to_track w)"
  shows "inv w'"
proof (rule move_inv [OF mv i])
  note d = ts [unfolded thread_step_def]
  have sh: "shards w' = shards w" and th: "threads w' = (threads w)[t := th]" using d by auto
  have "\<forall>x \<in> set (threads w'). shard_index x < shards w"
    using invD(1) [OF i] d set_update_subset_insert [of "threads w" t th]
    unfolding th inv_shape_def by blast
  then show "inv_shape w'"
    using invD(1) [OF i] d len unfolding inv_shape_def sh by simp
  show "inv_critical w'"
    unfolding inv_critical_def sh
  proof (intro allI impI)
    fix s assume s: "s < shards w"
    have "int (critical w' ! s) = int (readers_in (threads w') s)"
      using d s invD(5) [OF i] readers_in_update [of t "threads w" th s] by (simp add: inv_critical_def)
    then show "critical w' ! s = readers_in (threads w') s" by simp
  qed
qed

lemma quiet_step:
  assumes "inv w" "thread_step t th w w'" "heap w' = heap w" "slot_frame w w'"
    and "\<And>q. int (strong w' q) = int (strong w q)"
  shows "inv w'"
  using step_inv [OF assms(1) _ assms(2)] env_move.quiet [OF thread_step_frame [OF assms(2)] assms(4,3,5)]
    assms(4) by (simp add: slot_frame_def)

lemma incr_step:
  assumes "inv w" "thread_step t th w w'" "heap w p = Some ob" "s < shards w"
    and "heap w' = (heap w)(p \<mapsto> ob\<lparr>counters := (counters ob)[s := itc_increment (counters ob ! s)]\<rparr>)"
    and "slot_frame w w'" and "0 < strong w p \<or> (\<exists>s. pending_reader (threads w) s p)"
    and "\<And>q. int (strong w' q) = int (strong w q) + of_bool (p = q)"
  shows "inv w'"
  using step_inv [OF assms(1) _ assms(2)] assms(6)
    env_move.incr [OF thread_step_frame [OF assms(2)] assms(6,3,4,5,7,8)]
  by (simp add: slot_frame_def)

lemma decr_step:
  assumes "inv w" "thread_step t th w w'" "heap w p = Some ob" "s < shards w"
    and "heap w' = (heap w)(p \<mapsto> ob\<lparr>counters := (counters ob)[s := itc_decrement (counters ob ! s)]\<rparr>)"
    and "slot_frame w w'" and "0 < strong w p"
    and "\<And>q. int (strong w' q) = int (strong w q) - of_bool (p = q)"
  shows "inv w'"
  using step_inv [OF assms(1) _ assms(2)] assms(6)
    env_move.decr [OF thread_step_frame [OF assms(2)] assms(6,3,4,5,7,8)]
  by (simp add: slot_frame_def)

lemma thread_shard: "inv w \<Longrightarrow> t < length (threads w) \<Longrightarrow> shard_index (threads w ! t) < shards w"
  using invD(1) [of w] by (auto simp: inv_shape_def)

lemma critical_positive:
  assumes "inv w" "t < length (threads w)" "in_critical (pc (threads w ! t))"
  shows "0 < critical w ! shard_index (threads w ! t)"
proof -
  have "0 < readers_in (threads w) (shard_index (threads w ! t))"
    using assms(2,3) sum_list_member_nat [of "threads w ! t" "threads w"
        "\<lambda>th. of_bool (in_critical (pc th) \<and> shard_index th = shard_index (threads w ! t))"]
    by (simp add: readers_in_def)
  then show ?thesis
    using invD(5) [OF assms(1)] thread_shard [OF assms(1,2)] by (simp add: inv_critical_def)
qed

section \<open>Operations that begin\<close>

lemmas step_simps = world_ops thread_step_def same_coll_refl slot_frame_def strong_calc nth_list_update

lemma owned_new: "heap w p = None \<Longrightarrow> owned ((heap w)(p \<mapsto> SdarcInner_new n s a v)) = owned (heap w)"
  unfolding owned_def meta_upd by (rule ext) (auto simp: meta_def, metis option.distinct(1))

lemma new_inv:
  assumes i: "inv w" and t: "t < length (threads w)" and pc: "pc (threads w ! t) = Idle"
    and st: "Sdarc_new t p a v w = Next w'"
  shows "inv w'"
proof -
  note s = thread_shard [OF i t]
  from st have al: "heap w p = None" "a \<notin> used_slots w"
    and w': "w' = return t (RetSdarc p) (gain p (allocate t p a (UserData v) w))"
    by (auto simp: Sdarc_new_def can_allocate_def split: if_splits)
  have ts: "thread_step t ((threads w ! t)\<lparr>pc := Idle, ret := RetSdarc p\<rparr>) w w'"
    using s t pc by (simp add: w' step_simps)
  have mv: "env_move w w'"
    by (rule env_move.create [OF thread_step_frame [OF ts], where p = p and a = a
          and s = "shard_index (threads w ! t)" and v = v])
      (simp_all add: w' step_simps new_slot_def al s t pc owned_new)
  show ?thesis
    by (rule step_inv [OF i mv ts]) (simp add: w' world_ops)
qed

lemma clone_inv:
  assumes i: "inv w" and t: "t < length (threads w)" and pc: "pc (threads w ! t) = Idle"
    and st: "Sdarc_clone t p w = Next w'"
  shows "inv w'"
proof -
  note s = thread_shard [OF i t]
  from st obtain ob where ob: "heap w p = Some ob" and hp: "0 < handles w p"
    and w': "w' = return t (RetSdarc p) (gain p (w\<lparr>heap := (heap w)(p \<mapsto>
        ob\<lparr>counters := (counters ob)[shard_of t w := itc_increment (counters ob ! shard_of t w)]\<rparr>)\<rparr>))"
    by (auto simp: Sdarc_clone_def modify_counter_Next split: if_splits)
  have "thread_step t ((threads w ! t)\<lparr>pc := Idle, ret := RetSdarc p\<rparr>) w w'"
    using s t pc by (simp add: w' step_simps)
  then show ?thesis
    by (rule incr_step [OF i _ ob, where s = "shard_of t w"])
      (simp_all add: w' step_simps s t pc ob hp strong_handle)
qed

lemma deref_inv:
  assumes i: "inv w" and t: "t < length (threads w)" and pc: "pc (threads w ! t) = Idle"
    and st: "Sdarc_deref t p w = Next w'"
  shows "inv w'"
proof -
  note s = thread_shard [OF i t]
  from st obtain d where w': "w' = return t (RetData d) w"
    by (auto simp: Sdarc_deref_def split: if_splits option.splits)
  have "thread_step t ((threads w ! t)\<lparr>pc := Idle, ret := RetData d\<rparr>) w w'"
    using s t pc by (simp add: w' step_simps)
  then show ?thesis
    by (rule quiet_step [OF i]) (simp_all add: w' step_simps t pc)
qed

lemma drop_inv:
  assumes i: "inv w" and t: "t < length (threads w)" and pc: "pc (threads w ! t) = Idle"
    and st: "Sdarc_drop t p w = Next w'"
  shows "inv w'"
proof -
  note s = thread_shard [OF i t]
  from st have hp: "0 < handles w p" and w': "w' = goto t (DropDec p) (lose p w)"
    by (auto simp: Sdarc_drop_def split: if_splits)
  have "thread_step t ((threads w ! t)\<lparr>pc := DropDec p\<rparr>) w w'"
    using s t pc by (simp add: w' step_simps)
  then show ?thesis
    by (rule quiet_step [OF i]) (use hp in \<open>simp_all add: w' step_simps t pc\<close>)
qed

lemma load_inv:
  assumes i: "inv w" and t: "t < length (threads w)" and pc: "pc (threads w ! t) = Idle"
    and st: "AtomicNullableSdarc_load t c w = Next w'"
  shows "inv w'"
proof -
  note s = thread_shard [OF i t]
  from st have w': "w' = goto t (LoadPtr c) (enter_critical t w)"
    by (auto simp: AtomicNullableSdarc_load_def split: if_splits)
  have "thread_step t ((threads w ! t)\<lparr>pc := LoadPtr c\<rparr>) w w'"
    using s t pc invD(1) [OF i] by (auto simp: w' step_simps inv_shape_def)
  then show ?thesis
    by (rule quiet_step [OF i]) (simp_all add: w' step_simps t pc)
qed

text \<open>Moving handles between user code and a cell changes no count.\<close>

lemma gain_opt_simps [simp]:
  "heap (gain_opt x w) = heap w" "shards (gain_opt x w) = shards w" "coll (gain_opt x w) = coll w"
  "threads (gain_opt x w) = threads w" "critical (gain_opt x w) = critical w"
  "atomics (gain_opt x w) = atomics w" "used_slots (gain_opt x w) = used_slots w"
  "pending_to_track (gain_opt x w) = pending_to_track w"
  "handles (gain_opt x w) p = handles w p + of_bool (x = Some p)"
  by (cases x; simp add: gain_def)+

lemma lose_opt_simps [simp]:
  "heap (lose_opt x w) = heap w" "shards (lose_opt x w) = shards w" "coll (lose_opt x w) = coll w"
  "threads (lose_opt x w) = threads w" "critical (lose_opt x w) = critical w"
  "atomics (lose_opt x w) = atomics w" "used_slots (lose_opt x w) = used_slots w"
  "pending_to_track (lose_opt x w) = pending_to_track w"
  "handles (lose_opt x w) p = handles w p - of_bool (x = Some p)"
  by (cases x; simp add: lose_def)+

lemma owns_opt_handles: "owns_opt w x \<Longrightarrow> of_bool (x = Some p) \<le> handles w p"
  by (cases x) auto

lemma swap_inv:
  assumes i: "inv w" and t: "t < length (threads w)" and pc: "pc (threads w ! t) = Idle"
    and st: "AtomicNullableSdarc_swap t c x w = Next w'"
  shows "inv w'"
proof -
  note s = thread_shard [OF i t]
  from st have c: "c < length (atomics w)" and ow: "owns_opt w x"
    and w': "w' = return t (RetOpt (atomics w ! c)) (gain_opt (atomics w ! c) (set_atomic c x (lose_opt x w)))"
    by (auto simp: AtomicNullableSdarc_swap_def split: if_splits)
  have "thread_step t ((threads w ! t)\<lparr>pc := Idle, ret := RetOpt (atomics w ! c)\<rparr>) w w'"
    using s t pc by (simp add: w' step_simps)
  then show ?thesis
    by (rule quiet_step [OF i])
      (use owns_opt_handles [OF ow] in \<open>simp_all add: w' step_simps t pc c\<close>)
qed

lemma store_inv:
  assumes i: "inv w" and t: "t < length (threads w)" and pc: "pc (threads w ! t) = Idle"
    and st: "AtomicNullableSdarc_store t c x w = Next w'"
  shows "inv w'"
proof -
  note s = thread_shard [OF i t]
  from st have c: "c < length (atomics w)" and ow: "owns_opt w x"
    by (auto simp: AtomicNullableSdarc_store_def split: if_splits)
  show ?thesis
  proof (cases "atomics w ! c")
    case None
    with st c ow have w': "w' = return t NoRet (set_atomic c x (lose_opt x w))"
      by (simp add: AtomicNullableSdarc_store_def)
    have "thread_step t ((threads w ! t)\<lparr>pc := Idle, ret := NoRet\<rparr>) w w'"
      using s t pc by (simp add: w' step_simps)
    then show ?thesis
      by (rule quiet_step [OF i])
        (use owns_opt_handles [OF ow] in \<open>simp_all add: w' step_simps t pc c None\<close>)
  next
    case (Some old)
    with st c ow have w': "w' = goto t (DropDec old) (set_atomic c x (lose_opt x w))"
      by (simp add: AtomicNullableSdarc_store_def)
    have "thread_step t ((threads w ! t)\<lparr>pc := DropDec old\<rparr>) w w'"
      using s t pc by (simp add: w' step_simps)
    then show ?thesis
      by (rule quiet_step [OF i])
        (use owns_opt_handles [OF ow] in \<open>simp_all add: w' step_simps t pc c Some\<close>)
  qed
qed

lemma cas_inv:
  assumes i: "inv w" and t: "t < length (threads w)" and pc: "pc (threads w ! t) = Idle"
    and st: "raw_compare_and_set t c m None w = Next w'"
  shows "inv w'"
proof -
  note s = thread_shard [OF i t]
  from st have c: "c < length (atomics w)"
    by (auto simp: raw_compare_and_set_def split: if_splits)
  show ?thesis
  proof (cases "atomics w ! c = m")
    case True
    with st have w': "w' = return t (RetOpt m) (gain_opt m (set_atomic c None w))"
      by (auto simp: raw_compare_and_set_def split: if_splits)
    have "thread_step t ((threads w ! t)\<lparr>pc := Idle, ret := RetOpt m\<rparr>) w w'"
      using s t pc by (simp add: w' step_simps)
    then show ?thesis
      by (rule quiet_step [OF i]) (use True in \<open>simp_all add: w' step_simps t pc c\<close>)
  next
    case False
    with st have w': "w' = return t RetErr w"
      by (auto simp: raw_compare_and_set_def split: if_splits)
    have "thread_step t ((threads w ! t)\<lparr>pc := Idle, ret := RetErr\<rparr>) w w'"
      using s t pc by (simp add: w' step_simps)
    then show ?thesis
      by (rule quiet_step [OF i]) (simp_all add: w' step_simps t pc)
  qed
qed

lemma owned_weak_new:
  assumes "h p = Some ob" "weak_inner_ref ob = None" "h q = None" "\<not> owned h q"
  shows "owned (h(q \<mapsto> SdarcInner_new n s a v, p \<mapsto> ob\<lparr>weak_inner_ref := Some q\<rparr>)) r
     \<longleftrightarrow> owned h r \<or> r = q"
proof -
  have "p \<noteq> q" using assms by auto
  moreover have "\<exists>y. y \<noteq> q \<and> y \<noteq> p \<and> (\<exists>z. h y = Some z \<and> weak_inner_ref z = Some r)"
    if "h x = Some z" "weak_inner_ref z = Some r" for x z
    using that assms by (intro exI [of _ x]) auto
  ultimately show ?thesis using assms unfolding owned_def meta_upd
    by (auto simp: meta_def split: if_splits) metis+
qed

lemma downgrade_inv:
  assumes i: "inv w" and t: "t < length (threads w)" and pc: "pc (threads w ! t) = Idle"
    and st: "Sdarc_downgrade t p q a w = Next w'"
  shows "inv w'"
proof -
  note s = thread_shard [OF i t]
  from st obtain ob where ob: "heap w p = Some ob" and hp: "0 < handles w p"
    by (auto simp: Sdarc_downgrade_def split: if_splits option.splits)
  show ?thesis
  proof (cases "weak_inner_ref ob")
    case (Some q')
    with st ob hp have w': "w' = goto t (DowngradeClone p q') (lose p w)"
      by (simp add: Sdarc_downgrade_def)
    have "thread_step t ((threads w ! t)\<lparr>pc := DowngradeClone p q'\<rparr>) w w'"
      using s t pc by (simp add: w' step_simps)
    then show ?thesis
      by (rule quiet_step [OF i]) (use hp in \<open>simp_all add: w' step_simps t pc\<close>)
  next
    case None
    with st ob hp have al: "heap w q = None" "a \<notin> used_slots w"
      and w': "w' = goto t (DowngradeClone p q) (lose p (set_obj p (ob\<lparr>weak_inner_ref := Some q\<rparr>)
          (allocate t q a (WeakSdarcInner (Some p)) w)))"
      by (auto simp: Sdarc_downgrade_def can_allocate_def split: if_splits)
    have ts: "thread_step t ((threads w ! t)\<lparr>pc := DowngradeClone p q\<rparr>) w w'"
      using s t pc by (simp add: w' step_simps)
    have no: "\<not> owned (heap w) q"
      using inv_alive_strong [OF invD(4) [OF i] al(1)] by (simp add: strong_def)
    note ow = owned_weak_new [OF ob None al(1) no]
    have mv: "env_move w w'"
      by (rule env_move.weak_create [OF thread_step_frame [OF ts], where p = p and q = q and a = a
            and s = "shard_index (threads w ! t)" and ob = ob])
        (use hp no in \<open>auto simp: w' step_simps new_slot_def al s t pc ob None strong_handle ow\<close>)
    show ?thesis
      by (rule step_inv [OF i mv ts]) (simp add: w' world_ops)
  qed
qed

lemma upgrade_inv:
  assumes i: "inv w" and t: "t < length (threads w)" and pc: "pc (threads w ! t) = Idle"
    and st: "WeakSdarc_upgrade t q w = Next w'"
  shows "inv w'"
proof -
  note s = thread_shard [OF i t]
  from st have hp: "0 < handles w q" and w': "w' = goto t (UpgradeLoad q) (enter_critical t (lose q w))"
    by (auto simp: WeakSdarc_upgrade_def split: if_splits option.splits payload.splits)
  have "thread_step t ((threads w ! t)\<lparr>pc := UpgradeLoad q\<rparr>) w w'"
    using s t pc invD(1) [OF i] by (auto simp: w' step_simps inv_shape_def)
  then show ?thesis
    by (rule quiet_step [OF i]) (use hp in \<open>simp_all add: w' step_simps t pc\<close>)
qed

lemma set_shard_inv:
  assumes i: "inv w" and t: "t < length (threads w)" and pc: "pc (threads w ! t) = Idle"
    and st: "set_current_thread_shard_index t n w = Next w'"
  shows "inv w'"
proof -
  from st have n: "n < shards w" and w': "w' = set_thread t ((threads w ! t)\<lparr>shard_index := n\<rparr>) w"
    by (auto simp: set_current_thread_shard_index_def split: if_splits)
  have "thread_step t ((threads w ! t)\<lparr>shard_index := n\<rparr>) w w'"
    using n t pc by (simp add: w' step_simps)
  then show ?thesis
    by (rule quiet_step [OF i]) (simp_all add: w' step_simps t pc)
qed

lemma return_inv:
  assumes "inv w" "t < length (threads w)" "pc (threads w ! t) = Idle"
  shows "inv (return t r w)"
proof (rule quiet_step [OF assms(1)])
  show "thread_step t ((threads w ! t)\<lparr>pc := Idle, ret := r\<rparr>) w (return t r w)"
    using thread_shard [OF assms(1,2)] assms(2,3) by (simp add: step_simps)
qed (simp_all add: step_simps assms)

lemma new_cell_inv:
  assumes i: "inv w" and t: "t < length (threads w)" and pc: "pc (threads w ! t) = Idle"
    and st: "AtomicNullableSdarc_new t w = Next w'"
  shows "inv w'"
proof -
  from st have w': "w' = return t (RetCell (length (atomics w))) (w\<lparr>atomics := atomics w @ [None]\<rparr>)"
    by (simp add: AtomicNullableSdarc_new_def)
  have "thread_step t ((threads w ! t)\<lparr>pc := Idle, ret := RetCell (length (atomics w))\<rparr>) w w'"
    using thread_shard [OF i t] t pc by (simp add: w' step_simps)
  then show ?thesis
    by (rule quiet_step [OF i]) (simp_all add: w' step_simps t pc)
qed

lemma new_with_value_inv:
  assumes i: "inv w" and t: "t < length (threads w)" and pc: "pc (threads w ! t) = Idle"
    and st: "AtomicNullableSdarc_new_with_value t p a v w = Next w'"
  shows "inv w'"
proof -
  from st obtain w1 w2 w3 where w1: "AtomicNullableSdarc_new t w = Next w1" and w2: "Sdarc_new t p a v w1 = Next w2"
    and w3: "AtomicNullableSdarc_swap t (length (atomics w)) (Some p) w2 = Next w3"
    and w': "w' = return t (RetCell (length (atomics w))) w3"
    by (auto simp: AtomicNullableSdarc_new_with_value_def and_then_Next)
  have th: "t < length (threads w1) \<and> pc (threads w1 ! t) = Idle" "t < length (threads w2) \<and> pc (threads w2 ! t) = Idle"
    "t < length (threads w3) \<and> pc (threads w3 ! t) = Idle"
    using w1 w2 w3 t by (auto simp: user_op_defs world_ops split: if_splits)
  have "inv w1" using new_cell_inv [OF i t pc w1] .
  then have "inv w2" using new_inv [OF _ _ _ w2] th(1) by blast
  then have "inv w3" using swap_inv [OF _ _ _ w3] th(2) by blast
  then show ?thesis using return_inv th(3) by (simp add: w')
qed

lemma begin_inv:
  assumes "inv w" "t < length (threads w)" "pc (threads w ! t) = Idle" "cas_free act"
    and "begin_op t act w = Next w'"
  shows "inv w'"
proof (cases act)
  case (CompareAndSet c m x)
  with assms(4) have "x = None" by (cases x) auto
  with CompareAndSet assms show ?thesis by (auto intro: cas_inv)
qed (use assms in \<open>auto intro: new_inv clone_inv deref_inv drop_inv load_inv swap_inv store_inv
      downgrade_inv upgrade_inv set_shard_inv new_cell_inv new_with_value_inv
      simp: AtomicNullableSdarc_drop_def\<close>)

section \<open>Operations that go on\<close>

lemma load_ptr_inv:
  assumes i: "inv w" and t: "t < length (threads w)" and pc: "pc (threads w ! t) = LoadPtr c"
    and st: "AtomicNullableSdarc_load_ptr t c w = Next w'"
  shows "inv w'"
proof -
  note s = thread_shard [OF i t]
  from st have c: "c < length (atomics w)"
    by (auto simp: AtomicNullableSdarc_load_ptr_def split: if_splits)
  show ?thesis
  proof (cases "atomics w ! c")
    case None
    with st c have w': "w' = goto t (LoadExit None) w" by (simp add: AtomicNullableSdarc_load_ptr_def)
    have "thread_step t ((threads w ! t)\<lparr>pc := LoadExit None\<rparr>) w w'"
      using s t pc by (simp add: w' step_simps)
    then show ?thesis
      by (rule quiet_step [OF i]) (simp_all add: w' step_simps t pc)
  next
    case (Some p)
    with st c have w': "w' = goto t (LoadInc p) w" by (simp add: AtomicNullableSdarc_load_ptr_def)
    have "thread_step t ((threads w ! t)\<lparr>pc := LoadInc p\<rparr>) w w'"
      using s t pc strong_cell [OF c Some] by (simp add: w' step_simps)
    then show ?thesis
      by (rule quiet_step [OF i]) (simp_all add: w' step_simps t pc)
  qed
qed

lemma load_inc_inv:
  assumes i: "inv w" and t: "t < length (threads w)" and pc: "pc (threads w ! t) = LoadInc p"
    and st: "AtomicNullableSdarc_load_inc t p w = Next w'"
  shows "inv w'"
proof -
  note s = thread_shard [OF i t]
  from st obtain ob where ob: "heap w p = Some ob"
    and w': "w' = goto t (LoadExit (Some p)) (gain p (w\<lparr>heap := (heap w)(p \<mapsto>
        ob\<lparr>counters := (counters ob)[shard_of t w := itc_increment (counters ob ! shard_of t w)]\<rparr>)\<rparr>))"
    by (auto simp: AtomicNullableSdarc_load_inc_def modify_counter_Next)
  have "thread_step t ((threads w ! t)\<lparr>pc := LoadExit (Some p)\<rparr>) w w'"
    using s t pc by (simp add: w' step_simps)
  then show ?thesis
    by (rule incr_step [OF i _ ob, where s = "shard_of t w"])
      (use pending_readerI [OF t, of p] in \<open>simp_all add: w' step_simps s t pc ob\<close>)
qed

lemma load_exit_inv:
  assumes i: "inv w" and t: "t < length (threads w)" and pc: "pc (threads w ! t) = LoadExit r"
    and st: "AtomicNullableSdarc_load_exit t r w = Next w'"
  shows "inv w'"
proof -
  note s = thread_shard [OF i t]
  have cp: "0 < critical w ! shard_index (threads w ! t)" using critical_positive [OF i t] pc by simp
  from st have w': "w' = return t (RetOpt r) (exit_critical t w)"
    by (simp add: AtomicNullableSdarc_load_exit_def)
  have "thread_step t ((threads w ! t)\<lparr>pc := Idle, ret := RetOpt r\<rparr>) w w'"
    using s t pc cp invD(1) [OF i] by (auto simp: w' step_simps inv_shape_def)
  then show ?thesis
    by (rule quiet_step [OF i]) (simp_all add: w' step_simps t pc)
qed

lemma upgrade_load_inv:
  assumes i: "inv w" and t: "t < length (threads w)" and pc: "pc (threads w ! t) = UpgradeLoad q"
    and st: "WeakSdarc_upgrade_load t q w = Next w'"
  shows "inv w'"
proof -
  note s = thread_shard [OF i t]
  from st obtain ob b where ob: "heap w q = Some ob" "data ob = WeakSdarcInner b"
    by (auto simp: WeakSdarc_upgrade_load_def split: option.splits payload.splits)
  show ?thesis
  proof (cases b)
    case None
    with st ob have w': "w' = goto t (UpgradeExit q None) w" by (simp add: WeakSdarc_upgrade_load_def)
    have "thread_step t ((threads w ! t)\<lparr>pc := UpgradeExit q None\<rparr>) w w'"
      using s t pc by (simp add: w' step_simps)
    then show ?thesis
      by (rule quiet_step [OF i]) (simp_all add: w' step_simps t pc)
  next
    case (Some p)
    with st ob have w': "w' = goto t (UpgradeInc q p) w" by (simp add: WeakSdarc_upgrade_load_def)
    have "backref_live (heap w) p"
      using invD(6) [OF i] ob Some meta_SomeI [of "heap w" q ob]
      unfolding inv_weak_def backref_live_def by metis
    then have "thread_step t ((threads w ! t)\<lparr>pc := UpgradeInc q p\<rparr>) w w'"
      using s t pc by (simp add: w' step_simps)
    then show ?thesis
      by (rule quiet_step [OF i]) (simp_all add: w' step_simps t pc)
  qed
qed

lemma upgrade_inc_inv:
  assumes i: "inv w" and t: "t < length (threads w)" and pc: "pc (threads w ! t) = UpgradeInc q p"
    and st: "WeakSdarc_upgrade_inc t q p w = Next w'"
  shows "inv w'"
proof -
  note s = thread_shard [OF i t]
  from st obtain ob where ob: "heap w p = Some ob"
    and w': "w' = goto t (UpgradeExit q (Some p)) (gain p (w\<lparr>heap := (heap w)(p \<mapsto>
        ob\<lparr>counters := (counters ob)[shard_of t w := itc_increment (counters ob ! shard_of t w)]\<rparr>)\<rparr>))"
    by (auto simp: WeakSdarc_upgrade_inc_def modify_counter_Next)
  have "thread_step t ((threads w ! t)\<lparr>pc := UpgradeExit q (Some p)\<rparr>) w w'"
    using s t pc by (simp add: w' step_simps)
  then show ?thesis
    by (rule incr_step [OF i _ ob, where s = "shard_of t w"])
      (use pending_readerI [OF t, of p] in \<open>simp_all add: w' step_simps s t pc ob\<close>)
qed

lemma upgrade_exit_inv:
  assumes i: "inv w" and t: "t < length (threads w)" and pc: "pc (threads w ! t) = UpgradeExit q r"
    and st: "WeakSdarc_upgrade_exit t q r w = Next w'"
  shows "inv w'"
proof -
  note s = thread_shard [OF i t]
  have cp: "0 < critical w ! shard_index (threads w ! t)" using critical_positive [OF i t] pc by simp
  from st have w': "w' = return t (RetOpt r) (gain q (exit_critical t w))"
    by (simp add: WeakSdarc_upgrade_exit_def)
  have "thread_step t ((threads w ! t)\<lparr>pc := Idle, ret := RetOpt r\<rparr>) w w'"
    using s t pc cp invD(1) [OF i] by (auto simp: w' step_simps inv_shape_def)
  then show ?thesis
    by (rule quiet_step [OF i]) (simp_all add: w' step_simps t pc)
qed

lemma drop_decrement_inv:
  assumes i: "inv w" and t: "t < length (threads w)" and pc: "pc (threads w ! t) = DropDec p"
    and st: "Sdarc_drop_decrement t p w = Next w'"
  shows "inv w'"
proof -
  note s = thread_shard [OF i t]
  from st obtain ob where ob: "heap w p = Some ob"
    and w': "w' = goto t (DropNotify p) (w\<lparr>heap := (heap w)(p \<mapsto>
        ob\<lparr>counters := (counters ob)[shard_of t w := itc_decrement (counters ob ! shard_of t w)]\<rparr>)\<rparr>)"
    by (auto simp: Sdarc_drop_decrement_def modify_counter_Next)
  have "thread_step t ((threads w ! t)\<lparr>pc := DropNotify p\<rparr>) w w'"
    using s t pc by (simp add: w' step_simps)
  then show ?thesis
    by (rule decr_step [OF i _ ob, where s = "shard_of t w"])
      (use strong_held [OF t, of p] in \<open>simp_all add: w' step_simps s t pc ob\<close>)
qed

lemma drop_notify_inv:
  assumes i: "inv w" and t: "t < length (threads w)" and pc: "pc (threads w ! t) = DropNotify p"
    and st: "Sdarc_drop_notify t p w = Next w'"
  shows "inv w'"
proof -
  note s = thread_shard [OF i t]
  from st obtain a where w': "w' = return t NoRet (on_sdarc_drop t a w)"
    by (auto simp: Sdarc_drop_notify_def split: option.splits)
  have fr: "threads w' = (threads w)[t := (threads w ! t)\<lparr>pc := Idle, ret := NoRet\<rparr>]" "heap w' = heap w"
    "handles w' = handles w" "atomics w' = atomics w" "used_slots w' = used_slots w"
    "pending_to_track w' = pending_to_track w"
    by (simp_all add: w' world_ops)
  have "same_coll w w'"
    unfolding same_coll_def
    by (rule exI [of _ "counters_to_recheck (coll w')"])
      (auto simp: w' world_ops distinct_insort_insert)
  then have "thread_step t ((threads w ! t)\<lparr>pc := Idle, ret := NoRet\<rparr>) w w'"
    using s t pc by (auto simp: w' step_simps)
  then show ?thesis
    by (rule quiet_step [OF i]) (simp_all add: fr slot_frame_def strong_calc t pc)
qed

lemma downgrade_clone_inv:
  assumes i: "inv w" and t: "t < length (threads w)" and pc: "pc (threads w ! t) = DowngradeClone p q"
    and own: "\<exists>ob. heap w p = Some ob \<and> weak_inner_ref ob = Some q"
    and st: "Sdarc_downgrade_clone t p q w = Next w'"
  shows "inv w'"
proof -
  note s = thread_shard [OF i t]
  from st obtain ob where ob: "heap w q = Some ob"
    and w': "w' = return t (RetSdarc q) (gain q (gain p (w\<lparr>heap := (heap w)(q \<mapsto>
        ob\<lparr>counters := (counters ob)[shard_of t w := itc_increment (counters ob ! shard_of t w)]\<rparr>)\<rparr>)))"
    by (auto simp: Sdarc_downgrade_clone_def modify_counter_Next)
  have "owned (heap w) q" using own by (auto simp: owned_def meta_def)
  then have "0 < strong w q" by (simp add: strong_def)
  moreover have "thread_step t ((threads w ! t)\<lparr>pc := Idle, ret := RetSdarc q\<rparr>) w w'"
    using s t pc by (simp add: w' step_simps)
  ultimately show ?thesis
    by - (rule incr_step [OF i _ ob, where s = "shard_of t w"],
        auto simp: w' step_simps s t pc ob)
qed

lemma continue_inv:
  assumes i: "inv w" and pcs: "inv_pcs w" and t: "t < length (threads w)"
    and st: "continue t (pc (threads w ! t)) w = Next w'"
  shows "inv w'"
proof -
  have ok: "pc_ok (heap w) (pc (threads w ! t))" using pcs t by (simp add: inv_pcs_def)
  show ?thesis
  proof (cases "pc (threads w ! t)")
    case (DowngradeClone p q)
    with ok have "\<exists>ob. heap w p = Some ob \<and> weak_inner_ref ob = Some q" by (auto dest!: meta_SomeD)
    with DowngradeClone st show ?thesis using downgrade_clone_inv [OF i t] by simp
  qed (use st i t ok in \<open>auto intro: load_ptr_inv load_inc_inv load_exit_inv upgrade_load_inv upgrade_inc_inv
        upgrade_exit_inv drop_decrement_inv drop_notify_inv\<close>)
qed

text \<open>A weak reference, once there, stays; the other threads are untouched.\<close>

lemma begin_keeps_weak:
  "begin_op t act w = Next w' \<Longrightarrow> meta (heap w) p = Some (a, Some q, d) \<Longrightarrow>
     meta (heap w') p = Some (a, Some q, d)"
  by (cases act) (auto simp: user_op_defs world_ops modify_counter_Next meta_def
      split: if_splits option.splits payload.splits)

lemma continue_keeps_weak:
  "continue t x w = Next w' \<Longrightarrow> meta (heap w) p = Some (a, Some q, d) \<Longrightarrow>
     meta (heap w') p = Some (a, Some q, d)"
  by (cases x) (auto simp: user_op_defs world_ops modify_counter_Next meta_def
      split: if_splits option.splits payload.splits)

lemma begin_thread:
  "begin_op t act w = Next w' \<Longrightarrow> cas_free act \<Longrightarrow> pc (threads w ! t) = Idle \<Longrightarrow>
     \<exists>th. threads w' = (threads w)[t := th] \<and> pc_ok (heap w') (pc th)"
  by (cases act) (auto simp: user_op_defs world_ops modify_counter_Next meta_def
      split: if_splits option.splits payload.splits)

lemma continue_thread:
  "continue t x w = Next w' \<Longrightarrow> \<exists>th. threads w' = (threads w)[t := th] \<and> pc_ok (heap w') (pc th)"
  by (cases x) (auto simp: user_op_defs world_ops modify_counter_Next meta_def
      split: if_splits option.splits payload.splits)

lemma inv_pcs_step:
  assumes "inv_pcs w" "threads w' = (threads w)[t := th]" "pc_ok (heap w') (pc th)"
    and "\<And>p a q d. meta (heap w) p = Some (a, Some q, d) \<Longrightarrow> meta (heap w') p = Some (a, Some q, d)"
  shows "inv_pcs w'"
proof -
  have keep: "pc_ok (heap w') x" if "pc_ok (heap w) x" for x
    using that assms(4) by (cases x) auto
  show ?thesis
    unfolding inv_pcs_def
  proof
    fix y assume "y \<in> set (threads w')"
    then have "y = th \<or> y \<in> set (threads w)"
      using set_update_subset_insert [of "threads w" t th] by (auto simp: assms(2))
    then show "pc_ok (heap w') (pc y)"
      using assms(1,3) keep by (auto simp: inv_pcs_def)
  qed
qed

lemma user_step_safe:
  assumes "safe w" "cas_free act" "user_step t act w = Next w'"
  shows "safe w'"
proof -
  from assms(1) have i: "inv w" and p: "inv_pcs w" by (auto simp: safe_def)
  from assms(3) have t: "t < length (threads w)" by (auto simp: user_step_def split: if_splits)
  show ?thesis
  proof (cases "pc (threads w ! t) = Idle")
    case True
    with assms(3) have st: "begin_op t act w = Next w'" by (auto simp: user_step_def split: if_splits)
    from begin_thread [OF st assms(2) True] begin_inv [OF i t True assms(2) st]
      inv_pcs_step [OF p] begin_keeps_weak [OF st] show ?thesis
      unfolding safe_def by metis
  next
    case False
    with assms(3) have st: "continue t (pc (threads w ! t)) w = Next w'"
      by (auto simp: user_step_def split: if_splits)
    from continue_thread [OF st] continue_inv [OF i p t st] inv_pcs_step [OF p] continue_keeps_weak [OF st]
    show ?thesis unfolding safe_def by metis
  qed
qed

section \<open>Faults\<close>

lemma modify_counter_Fault:
  "(\<And>w'. k w' \<noteq> Fault f) \<Longrightarrow> modify_counter g p s w k = Fault f \<longleftrightarrow> heap w p = None \<and> f = UseAfterFree p"
  by (auto simp: modify_counter_def split: option.splits)

lemma held_alive:
  "inv w \<Longrightarrow> t < length (threads w) \<Longrightarrow> 0 < held (pc (threads w ! t)) p \<Longrightarrow> heap w p \<noteq> None"
  using strong_held [of t w p] invD(4) [of w] by (auto simp: inv_alive_def)

lemma loaded_alive:
  "inv w \<Longrightarrow> t < length (threads w) \<Longrightarrow> loaded (pc (threads w ! t)) = Some p \<Longrightarrow> heap w p \<noteq> None"
  using pending_readerI [of t w p] invD(4) [of w] by (auto simp: inv_alive_def)

lemma handle_alive: "inv w \<Longrightarrow> 0 < handles w p \<Longrightarrow> heap w p \<noteq> None"
  using strong_handle [of w p] invD(4) [of w] by (auto simp: inv_alive_def)

lemma begin_no_fault:
  assumes "inv w" and st: "begin_op t act w = Fault f"
  shows False
proof -
  have "heap w p = None \<Longrightarrow> handles w p = 0" for p
    using handle_alive [OF assms(1), of p] by auto
  then show False
    using st
    by (cases act) (auto simp: user_op_defs modify_counter_Fault split: if_splits option.splits payload.splits)
qed

lemma continue_fault:
  assumes i: "inv w" and p: "inv_pcs w" and t: "t < length (threads w)"
    and st: "continue t (pc (threads w ! t)) w = Fault f"
  shows "\<exists>p. pc (threads w ! t) = DropNotify p \<and> f = UseAfterFree p"
proof -
  have ok: "pc_ok (heap w) (pc (threads w ! t))" using p t by (simp add: inv_pcs_def)
  note alive = held_alive [OF i t] loaded_alive [OF i t]
  have down: "heap w q \<noteq> None" if "pc (threads w ! t) = DowngradeClone r q" for r q
    using ok that weak_ref_alive [OF invD(4) [OF i]] by (fastforce simp: meta_def)
  show ?thesis
    using st ok alive down
    by (cases "pc (threads w ! t)")
      (auto simp: user_op_defs modify_counter_Fault split: if_splits option.splits payload.splits)
qed

lemma user_step_fault:
  assumes "safe w" "user_step t act w = Fault f"
  shows "\<exists>p. pc (threads w ! t) = DropNotify p \<and> f = UseAfterFree p"
  using assms begin_no_fault [of w t act f] continue_fault [of w t f]
  by (auto simp: user_step_def safe_def split: if_splits)

end
