(* ===== verification/Sdarc_Collector_Steps.thy ===== *)
theory Sdarc_Collector_Steps
  imports Sdarc_User_Steps
begin

text \<open>
  Every step of the collector keeps the invariant, and none of them faults: it never touches a
  freed object, none of its assertions fails, and no \<open>unwrap\<close> meets a missing key.
\<close>

section \<open>Steps that change only the collector\<close>

lemma set_coll_simps [simp]:
  "shards (set_coll f w) = shards w" "heap (set_coll f w) = heap w" "used_slots (set_coll f w) = used_slots w"
  "atomics (set_coll f w) = atomics w" "handles (set_coll f w) = handles w" "threads (set_coll f w) = threads w"
  "critical (set_coll f w) = critical w" "pending_to_track (set_coll f w) = pending_to_track w"
  "coll (set_coll f w) = f (coll w)"
  by (simp_all add: set_coll_def)

lemma strong_cong:
  "handles w' = handles w \<Longrightarrow> atomics w' = atomics w \<Longrightarrow> threads w' = threads w \<Longrightarrow>
     owned (heap w') = owned (heap w) \<Longrightarrow> strong w' = strong w"
  by (rule ext) (simp add: strong_def)

lemma set_coll_views [simp]:
  "strong (set_coll f w) = strong w" "tagged (set_coll f w) = tagged w" "dead (set_coll f w) = dead w"
  by (rule strong_cong; simp) (auto simp: tagged_def dead_def strong_def fun_eq_iff)

lemma inv_pcs_coll [simp]: "inv_pcs (set_coll f w) = inv_pcs w"
  by (simp add: inv_pcs_def)

lemma coll_inv:
  assumes i: "inv w"
    and "inv_track (heap w) (pending_to_track w) (tracked_counters (f (coll w)))"
    and "inv_pass (shards w) (f (coll w))"
    and "inv_ready (set_coll f w)" and "inv_readers (set_coll f w)" and "inv_recheck (set_coll f w)"
  shows "inv (set_coll f w)"
  using assms(2-) invD(1-7) [OF i]
  by (simp add: inv_def inv_shape_def inv_len_def inv_count_def inv_alive_def inv_critical_def)

text \<open>Steps that leave the tracked counters alone.\<close>

lemma control_inv:
  assumes i: "inv w" and same: "tracked_counters (f (coll w)) = tracked_counters (coll w)"
    and "inv_pass (shards w) (f (coll w))"
    and "inv_readers (set_coll f w)" and "inv_recheck (set_coll f w)"
  shows "inv (set_coll f w)"
proof (rule coll_inv [OF i])
  show "inv_track (heap w) (pending_to_track w) (tracked_counters (f (coll w)))"
    using invD(8) [OF i] by (simp add: same)
  show "inv_ready (set_coll f w)" using invD(10) [OF i] by (simp add: inv_ready_def same)
qed (use assms in auto)

lemma readers_trivial: "spun (set_coll f w) = {} \<Longrightarrow> inv_readers (set_coll f w)"
  by (simp add: inv_readers_def)

lemma park_inv: "inv w \<Longrightarrow> cpc (coll w) = Parked \<Longrightarrow> inv (cgoto (TakeNew 0) w)"
  unfolding cgoto_def
  by (rule control_inv)
    (auto simp: inv_recheck_def inv_readers_def spun_def inv_pass_def dest!: invD(9))

lemma user_drop_inv: "inv w \<Longrightarrow> cpc (coll w) = UserDrop \<Longrightarrow> inv (cgoto Freeing w)"
  unfolding cgoto_def
  by (rule control_inv)
    (auto simp: inv_recheck_def inv_readers_def spun_def inv_pass_def dest!: invD(9))

section \<open>Taking new counters\<close>

lemma track_new_ok:
  "distinct (map snd xs) \<Longrightarrow> (\<And>p a. (p, a) \<in> set xs \<Longrightarrow> map_of m a = None) \<Longrightarrow> sorted_keys m \<Longrightarrow>
   \<exists>m'. track_new xs m = Inr m' \<and> sorted_keys m' \<and>
     (\<forall>b. map_of m' b = (case map_of (map (\<lambda>(p, a). (a, p)) xs) b of
         None \<Rightarrow> map_of m b | Some p \<Rightarrow> Some \<lparr>fat_ptr = p, tstate = DefaultState\<rparr>))"
proof (induction xs m rule: track_new.induct)
  case (1 m)
  then show ?case by simp
next
  case (2 p a xs m)
  let ?m = "map_insert a \<lparr>fat_ptr = p, tstate = DefaultState\<rparr> m"
  have a: "map_of m a = None" by (rule "2.prems"(2) [of p]) simp
  have nin: "a \<notin> snd ` set xs" using "2.prems"(1) by auto
  have lk: "map_of ?m = (map_of m)(a \<mapsto> \<lparr>fat_ptr = p, tstate = DefaultState\<rparr>)"
    by (rule btree.lookup_ins [OF "2.prems"(3)])
  have "\<exists>m'. track_new xs ?m = Inr m' \<and> sorted_keys m' \<and>
     (\<forall>b. map_of m' b = (case map_of (map (\<lambda>(p, a). (a, p)) xs) b of
         None \<Rightarrow> map_of ?m b | Some p \<Rightarrow> Some \<lparr>fat_ptr = p, tstate = DefaultState\<rparr>))"
  proof (rule "2.IH")
    show "\<not> map_of m a \<noteq> None" using a by simp
    show "distinct (map snd xs)" using "2.prems"(1) by simp
    show "map_of ?m b = None" if "(q, b) \<in> set xs" for q b
      using that "2.prems"(2) [of q b] nin by (force simp: lk)
    show "sorted_keys ?m" using btree.ok_ins [OF "2.prems"(3)] .
  qed
  moreover have "map_of (map (\<lambda>(p, a). (a, p)) xs) a = None"
    using nin by (force simp: map_of_eq_None_iff)
  ultimately show ?case using a by (auto simp: lk split: option.split)
qed

lemma pending_split:
  assumes n: "i < length pend" and d: "distinct (map snd (concat pend))"
  shows "set (concat pend) = set (pend ! i) \<union> set (concat (pend[i := []]))"
    "snd ` set (pend ! i) \<inter> snd ` set (concat (pend[i := []])) = {}"
    "distinct (map snd (concat (pend[i := []])))"
  using d unfolding concat_split_nth [OF n] concat_update [OF n]
  by (simp_all only: map_append distinct_append set_append set_map image_Un append_Nil list.set) blast+

lemma track_new_lookup:
  assumes tr: "inv_track h pend m" and n: "i < length pend"
  obtains m' where "track_new (pend ! i) m = Inr m'" "sorted_keys m'"
    "\<And>b tc. map_of m' b = Some tc \<longleftrightarrow> map_of m b = Some tc
       \<or> (\<exists>p. (p, b) \<in> set (pend ! i) \<and> tc = \<lparr>fat_ptr = p, tstate = DefaultState\<rparr>)"
proof -
  let ?x = "pend ! i"
  let ?q = "map_of (map (\<lambda>(p, a). (a, p)) ?x)"
  have fresh: "map_of m b = None" if "(p, b) \<in> set ?x" for p b
    using that inv_trackD(3) [OF tr] pending_split(1) [OF n inv_trackD(5) [OF tr]] by blast
  have d: "distinct (map snd ?x)" using inv_trackD(5) [OF tr] unfolding concat_split_nth [OF n] by simp
  with track_new_ok [OF d _ inv_trackD(1) [OF tr]] fresh
  obtain m' where m': "track_new ?x m = Inr m'" "sorted_keys m'"
    and lk: "\<And>b. map_of m' b = (case ?q b of
         None \<Rightarrow> map_of m b | Some p \<Rightarrow> Some \<lparr>fat_ptr = p, tstate = DefaultState\<rparr>)"
    by metis
  have d': "distinct (map fst (map (\<lambda>(p, a). (a, p)) ?x))" using d by (simp add: comp_def case_prod_beta)
  have q: "?q b = Some p \<longleftrightarrow> (p, b) \<in> set ?x" for b p
    using map_of_eq_Some_iff [OF d', of b p] by force
  have "map_of m' b = Some tc \<longleftrightarrow> map_of m b = Some tc
       \<or> (\<exists>p. (p, b) \<in> set ?x \<and> tc = \<lparr>fat_ptr = p, tstate = DefaultState\<rparr>)" for b tc
  proof (cases "?q b")
    case None
    then have "(p, b) \<notin> set ?x" for p using q [of b p] by simp
    then show ?thesis using None by (simp add: lk)
  next
    case (Some p)
    then have "(p', b) \<in> set ?x \<longleftrightarrow> p' = p" for p' using q [of b p'] by auto
    then show ?thesis using Some fresh [of p b] by (auto simp: lk)
  qed
  with that m' show thesis by blast
qed

lemma take_new_track:
  assumes tr: "inv_track h pend m" and n: "i < length pend"
  obtains m' where "track_new (pend ! i) m = Inr m'" "inv_track h (pend[i := []]) m'"
    "\<And>a tc. map_of m' a = Some tc \<Longrightarrow> map_of m a = Some tc \<or> tstate tc = DefaultState"
    "\<And>a tc. map_of m a = Some tc \<Longrightarrow> map_of m' a = Some tc"
proof -
  note sp = pending_split [OF n inv_trackD(5) [OF tr]]
  obtain m' where m': "track_new (pend ! i) m = Inr m'" "sorted_keys m'"
    and lk: "\<And>b tc. map_of m' b = Some tc \<longleftrightarrow> map_of m b = Some tc
       \<or> (\<exists>p. (p, b) \<in> set (pend ! i) \<and> tc = \<lparr>fat_ptr = p, tstate = DefaultState\<rparr>)"
    by (rule track_new_lookup [OF tr n]) (rule that)
  have "inv_track h (pend[i := []]) m'"
  proof (rule inv_trackI [OF m'(2)])
    show "\<exists>r d. meta h (fat_ptr tc) = Some (b, r, d)" if "map_of m' b = Some tc" for b tc
      using that inv_trackD(2) [OF tr, of b tc] inv_trackD(4) [OF tr, of _ b] sp(1)
      by (auto simp: lk simp del: set_concat)
    show "map_of m' b = None \<and> (\<exists>r d. meta h p = Some (b, r, d))" if "(p, b) \<in> set (concat (pend[i := []]))" for p b
    proof -
      have "(p, b) \<in> set (concat pend)" "b \<notin> snd ` set (pend ! i)" using that sp(1,2) by force+
      then show ?thesis using inv_trackD(3,4) [OF tr, of p b] lk [of b] by (metis image_eqI not_Some_eq snd_conv)
    qed
    show "(p, b) \<in> set (concat (pend[i := []])) \<or> (\<exists>tc. map_of m' b = Some tc \<and> fat_ptr tc = p)"
      if "meta h p = Some (b, r, d)" for p b r d
      using inv_trackD(6) [OF tr that] sp(1) lk [of b] by (auto simp del: set_concat)
  qed (rule sp(3))
  moreover have "map_of m' a = Some tc \<Longrightarrow> map_of m a = Some tc \<or> tstate tc = DefaultState" for a tc
    by (auto simp: lk)
  ultimately show thesis using that m'(1) lk by blast
qed

lemma take_new_inv:
  assumes i: "inv w" and pc: "cpc (coll w) = TakeNew n"
  shows "\<exists>w'. take_new_counters_to_track n w = Next w' \<and> inv w' \<and> (inv_pcs w \<longrightarrow> inv_pcs w')"
proof (cases "n < shards w")
  case True
  then have "n < length (pending_to_track w)" using invD(1) [OF i] by (simp add: inv_shape_def)
  from invD(8) [OF i] this obtain m where m: "track_new (pending_to_track w ! n) (tracked_counters (coll w)) = Inr m"
    "inv_track (heap w) ((pending_to_track w)[n := []]) m"
    "\<And>a tc. map_of m a = Some tc \<Longrightarrow> map_of (tracked_counters (coll w)) a = Some tc \<or> tstate tc = DefaultState"
    "\<And>a tc. map_of (tracked_counters (coll w)) a = Some tc \<Longrightarrow> map_of m a = Some tc"
    by (rule take_new_track) blast
  define w1 where "w1 = w\<lparr>pending_to_track := (pending_to_track w)[n := []]\<rparr>"
  define w' where "w' = set_coll (\<lambda>c. c\<lparr>tracked_counters := m, cpc := TakeNew (Suc n)\<rparr>) w1"
  have v: "strong w1 = strong w" "dead w1 = dead w" "coll w1 = coll w" "heap w1 = heap w"
    by (simp_all add: w1_def strong_def dead_def fun_eq_iff)
  have tf: "to_free (coll w) = []" using invD(9) [OF i] pc by (auto simp: inv_pass_def)
  have nr: "tstate tc \<noteq> ReadyToFree" if "map_of m a = Some tc" for a tc
    using m(3) [OF that] invD(9) [OF i] tf by (auto simp: inv_pass_def)
  have "inv_pass (shards w) ((coll w)\<lparr>tracked_counters := m, cpc := TakeNew (Suc n)\<rparr>)"
    using invD(9) [OF i] nr tf by (auto simp: inv_pass_def)
  moreover have "inv_ready w'" "inv_readers w'" "inv_recheck w'"
    using nr by (simp_all add: w'_def inv_ready_def inv_readers_def inv_recheck_def spun_def v)
  ultimately have "inv w'"
    using invD(1-7) [OF i] m(2) v
    by (simp add: inv_def w'_def inv_shape_def inv_len_def inv_count_def inv_alive_def inv_critical_def)
      (simp add: w1_def)
  moreover have "take_new_counters_to_track n w = Next w'"
    using True m(1) by (simp add: take_new_counters_to_track_def w'_def w1_def)
  moreover have "inv_pcs w \<longrightarrow> inv_pcs w'" by (simp add: inv_pcs_def w'_def w1_def)
  ultimately show ?thesis by blast
next
  case False
  let ?f = "\<lambda>c. start_pass True (map fst (tracked_counters c)) (c\<lparr>loop_counter := 0\<rparr>)"
  have tf: "to_free (coll w) = []" using invD(9) [OF i] pc by (auto simp: inv_pass_def)
  have "distinct (map fst (tracked_counters (coll w)))"
    using inv_trackD(1) [OF invD(8) [OF i]] by (rule sorted_keys_distinct)
  then have "inv (set_coll ?f w)"
    by (intro control_inv [OF i])
      (use invD(9) [OF i] tf in
        \<open>auto simp: start_pass_def inv_pass_def inv_recheck_def inv_readers_def spun_def\<close>)
  with False show ?thesis by (simp add: take_new_counters_to_track_def)
qed

section \<open>Spinning on the critical section\<close>

lemma no_reader_at_zero:
  assumes "inv w" "s < shards w" "critical w ! s = 0"
  shows "\<not> pending_reader (threads w) s p"
  using pending_reader_in_critical [of "threads w" s p] invD(5) [OF assms(1)] assms(2,3)
  by (auto simp: inv_critical_def)

lemma spun_grow_readers:
  assumes i: "inv w"
    and same: "tracked_counters (f (coll w)) = tracked_counters (coll w)" "todo (f (coll w)) = todo (coll w)"
    and grow: "\<And>s. s \<in> spun (set_coll f w) \<Longrightarrow> s \<in> spun w \<or> (s < shards w \<and> critical w ! s = 0)"
  shows "inv_readers (set_coll f w)"
  unfolding inv_readers_def
proof (intro allI impI)
  fix a tc s
  assume *: "a \<in> set (todo (coll (set_coll f w)))" "map_of (tracked_counters (coll (set_coll f w))) a = Some tc"
    "tstate tc = RequiresReChecking" "s \<in> spun (set_coll f w)"
    "pending_reader (threads (set_coll f w)) s (fat_ptr tc)"
  then have "s \<in> spun w" using grow no_reader_at_zero [OF i] by auto
  with * show "0 < strong (set_coll f w) (fat_ptr tc) \<or> tagged (set_coll f w) (fat_ptr tc)
      \<or> backref_live (heap (set_coll f w)) (fat_ptr tc)"
    using invD(11) [OF i] by (simp add: inv_readers_def same)
qed

lemma spin_scan_inv:
  assumes i: "inv w" and pc: "cpc (coll w) = SpinScan n"
  shows "\<exists>f. spin_scan n w = Next (set_coll f w) \<and> inv (set_coll f w)"
proof (cases "n < shards w")
  case True
  let ?f = "\<lambda>c. c\<lparr>cpc := SpinScan (Suc n),
      shards_to_spin := (if critical w ! n \<noteq> 0 then shards_to_spin c @ [n] else shards_to_spin c)\<rparr>"
  have "inv_readers (set_coll ?f w)"
    by (rule spun_grow_readers [OF i]) (use True in \<open>auto simp: spun_def pc less_Suc_eq split: if_splits\<close>)
  then have "inv (set_coll ?f w)"
    by (intro control_inv [OF i])
      (use invD(9) [OF i] True in \<open>auto simp: inv_pass_def inv_recheck_def pc\<close>)
  with True show ?thesis unfolding spin_scan_def by auto
next
  case False
  let ?f = "\<lambda>c. c\<lparr>cpc := SpinWait\<rparr>"
  have n: "n = shards w" using False invD(9) [OF i] pc by (simp add: inv_pass_def)
  have "inv_readers (set_coll ?f w)"
    by (rule spun_grow_readers [OF i]) (auto simp: spun_def pc n)
  then have "inv (set_coll ?f w)"
    by (intro control_inv [OF i]) (use invD(9) [OF i] in \<open>auto simp: inv_pass_def inv_recheck_def pc\<close>)
  with False show ?thesis unfolding spin_scan_def cgoto_def by auto
qed

lemma spin_wait_inv:
  assumes i: "inv w" and pc: "cpc (coll w) = SpinWait"
  shows "\<exists>f. spin_wait w = Next (set_coll f w) \<and> inv (set_coll f w)"
proof (cases "shards_to_spin (coll w)")
  case Nil
  let ?f = "\<lambda>c. c\<lparr>cpc := Visit\<rparr>"
  have "inv_readers (set_coll ?f w)"
    by (rule spun_grow_readers [OF i]) (auto simp: spun_def pc Nil)
  then have "inv (set_coll ?f w)"
    by (intro control_inv [OF i]) (use invD(9) [OF i] in \<open>auto simp: inv_pass_def inv_recheck_def pc\<close>)
  with Nil show ?thesis unfolding spin_wait_def cgoto_def by auto
next
  case (Cons s rest)
  show ?thesis
  proof (cases "critical w ! s = 0")
    case True
    let ?f = "\<lambda>c. c\<lparr>shards_to_spin := rest\<rparr>"
    have "s < shards w" using invD(9) [OF i] Cons by (auto simp: inv_pass_def)
    then have "inv_readers (set_coll ?f w)"
      using True by (intro spun_grow_readers [OF i]) (auto simp: spun_def pc Cons)
    then have "inv (set_coll ?f w)"
      by (intro control_inv [OF i])
        (use invD(9) [OF i] Cons in \<open>auto simp: inv_pass_def inv_recheck_def pc\<close>)
    with Cons True show ?thesis unfolding spin_wait_def by auto
  next
    case False
    then have "spin_wait w = Next (set_coll id w)" by (simp add: spin_wait_def Cons set_coll_def)
    moreover have "set_coll id w = w" by (simp add: set_coll_def)
    ultimately show ?thesis using i by metis
  qed
qed

section \<open>Visiting a counter\<close>

lemma visiting_facts:
  assumes i: "inv w" and v: "visiting (cpc (coll w)) = Some (a, p)"
  obtains tc ob where "map_of (tracked_counters (coll w)) a = Some tc" "fat_ptr tc = p"
    "heap w p = Some ob" "counters_ptr ob = a" "a \<notin> set (todo (coll w))" "a \<notin> set (to_free (coll w))"
    "length (counters ob) = shards w"
proof -
  from invD(9) [OF i] v obtain tc where tc: "map_of (tracked_counters (coll w)) a = Some tc" "fat_ptr tc = p"
    "a \<notin> set (todo (coll w))" "a \<notin> set (to_free (coll w))"
    by (auto simp: inv_pass_def)
  from inv_trackD(2) [OF invD(8) [OF i] tc(1)] obtain ob where "heap w p = Some ob" "counters_ptr ob = a"
    using tc(2) by (auto dest: meta_SomeD)
  with tc invD(2) [OF i] that show thesis by (auto simp: inv_len_def)
qed

text \<open>The tracked objects other than the one being visited are different objects.\<close>

lemma tracked_distinct:
  assumes "inv_track h pend m" "map_of m a = Some tc" "map_of m b = Some tc'" "a \<noteq> b"
  shows "fat_ptr tc \<noteq> fat_ptr tc'"
  using inv_trackD(2) [OF assms(1,2)] inv_trackD(2) [OF assms(1,3)] assms(4) by auto

lemma track_restate:
  assumes tr: "inv_track h pend m" and m: "map_of m a = Some tc" "fat_ptr tc = p"
  shows "inv_track h pend (map_insert a \<lparr>fat_ptr = p, tstate = st\<rparr> m)"
proof -
  note lk = btree.lookup_ins [OF inv_trackD(1) [OF tr]]
  show ?thesis
  proof (rule inv_trackI)
    show "sorted_keys (map_insert a \<lparr>fat_ptr = p, tstate = st\<rparr> m)"
      by (rule btree.ok_ins [OF inv_trackD(1) [OF tr]])
    show "distinct (map snd (concat pend))" by (rule inv_trackD(5) [OF tr])
  next
    fix b tc' assume "map_of (map_insert a \<lparr>fat_ptr = p, tstate = st\<rparr> m) b = Some tc'"
    then show "\<exists>r d. meta h (fat_ptr tc') = Some (b, r, d)"
      using inv_trackD(2) [OF tr, of b tc'] inv_trackD(2) [OF tr m(1)] m(2)
      by (auto simp: lk split: if_splits)
  next
    fix q b assume "(q, b) \<in> set (concat pend)"
    then show "map_of (map_insert a \<lparr>fat_ptr = p, tstate = st\<rparr> m) b = None
        \<and> (\<exists>r d. meta h q = Some (b, r, d))"
      using inv_trackD(3,4) [OF tr, of q b] m(1) by (auto simp: lk)
  next
    fix q b r d assume "meta h q = Some (b, r, d)"
    then show "(q, b) \<in> set (concat pend) \<or>
        (\<exists>tc. map_of (map_insert a \<lparr>fat_ptr = p, tstate = st\<rparr> m) b = Some tc \<and> fat_ptr tc = q)"
      using inv_trackD(6) [OF tr, of q b r d] m by (auto simp: lk)
  qed
qed

lemma finish_visit_inv:
  assumes i: "inv w" and v: "visiting (cpc (coll w)) = Some (a, p)"
    and ready: "st = ReadyToFree \<Longrightarrow> dead w p"
  shows "inv (set_coll (finish_visit a p st) w)"
proof -
  from i v obtain tc ob where vf: "map_of (tracked_counters (coll w)) a = Some tc" "fat_ptr tc = p"
    "a \<notin> set (todo (coll w))" "a \<notin> set (to_free (coll w))"
    by (rule visiting_facts)
  note lk = btree.lookup_ins [OF inv_trackD(1) [OF invD(8) [OF i]]]
  have sp: "spun (set_coll (finish_visit a p st) w) = spun w"
    using v by (cases "cpc (coll w)") (auto simp: spun_def finish_visit_def)
  show ?thesis
  proof (rule coll_inv [OF i])
    show "inv_track (heap w) (pending_to_track w) (tracked_counters (finish_visit a p st (coll w)))"
      using track_restate [OF invD(8) [OF i] vf(1,2)] by (simp add: finish_visit_def)
    show "inv_pass (shards w) (finish_visit a p st (coll w))"
      using invD(9) [OF i] vf v
      by (cases st) (auto simp: inv_pass_def finish_visit_def lk distinct_insort_insert)
    show "inv_ready (set_coll (finish_visit a p st) w)"
      using invD(10) [OF i] ready by (auto simp: inv_ready_def finish_visit_def lk)
    show "inv_readers (set_coll (finish_visit a p st) w)"
      using invD(11) [OF i] vf(3) unfolding inv_readers_def sp
      by (auto simp: finish_visit_def lk)
    show "inv_recheck (set_coll (finish_visit a p st) w)"
      by (simp add: inv_recheck_def finish_visit_def)
  qed
qed

lemma goto_visiting_inv:
  assumes i: "inv w" and v: "visiting (cpc (coll w)) = Some (a, p)" and v': "visiting q = Some (a, p)"
    and rc: "inv_recheck (cgoto q w)"
  shows "inv (cgoto q w)"
  unfolding cgoto_def
proof (rule control_inv [OF i])
  show "inv_pass (shards w) ((coll w)\<lparr>cpc := q\<rparr>)"
    using invD(9) [OF i] v v' by (auto simp: inv_pass_def)
  have "spun (set_coll (\<lambda>c. c\<lparr>cpc := q\<rparr>) w) = spun w"
    using v v' by (cases "cpc (coll w)"; cases q) (auto simp: spun_def)
  then show "inv_readers (set_coll (\<lambda>c. c\<lparr>cpc := q\<rparr>) w)"
    using invD(11) [OF i] by (simp add: inv_readers_def)
  show "inv_recheck (set_coll (\<lambda>c. c\<lparr>cpc := q\<rparr>) w)" using rc by (simp add: cgoto_def)
qed simp

lemma at_slot_alive: "heap w p = Some ob \<Longrightarrow> counters_ptr ob = a \<Longrightarrow> at_slot a p w k = k ob"
  by (simp add: at_slot_def)

lemma pre_read_inv:
  assumes i: "inv w" and pc: "cpc (coll w) = PreRead a p n acc"
  shows "\<exists>f. read_ref_count_sum_relaxed a p n acc w = Next (set_coll f w) \<and> inv (set_coll f w)"
proof -
  have v: "visiting (cpc (coll w)) = Some (a, p)" using pc by simp
  from i v obtain tc ob where vf: "heap w p = Some ob" "counters_ptr ob = a" by (rule visiting_facts)
  have go: "inv (cgoto q w)" if "q = PreRead a p n' acc' \<or> q = ClearRead a p n' acc'" for q n' acc'
    by (rule goto_visiting_inv [OF i v]) (use that in \<open>auto simp: inv_recheck_def cgoto_def\<close>)
  show ?thesis
    using go finish_visit_inv [OF i v, of DefaultState] at_slot_alive [OF vf]
    unfolding read_ref_count_sum_relaxed_def cgoto_def by auto
qed

text \<open>
  The re-check begins with the evidence that it cannot go wrong: if the object is not dead, then it
  is strongly referenced, tagged or upgradable, because no reader from before the spin is left.
\<close>

lemma recheck_start:
  assumes i: "inv w" and sp: "spun w = {..<shards w}"
    and a: "a \<in> set (todo (coll w))" "map_of (tracked_counters (coll w)) a = Some tc"
      "tstate tc = RequiresReChecking"
    and ob: "heap w (fat_ptr tc) = Some ob"
  shows "scan_evidence itc_ref_count itc_tag 0 (counters ob) 0 0"
    and "backref_live (heap w) (fat_ptr tc) \<or> dead w (fat_ptr tc)
       \<or> scan_evidence itc_ref_count itc_tag 1 (counters ob) 0 0"
proof -
  have sum: "rc_sum itc_ref_count (counters ob) = int (strong w (fat_ptr tc))"
    using invD(3) [OF i] ob by (simp add: inv_count_def)
  then show "scan_evidence itc_ref_count itc_tag 0 (counters ob) 0 0" by (simp add: itc.evidence_start)
  have shard: "s < shards w" if "pending_reader (threads w) s p" for s p
    using that invD(1) [OF i] by (auto simp: pending_reader_def inv_shape_def)
  show "backref_live (heap w) (fat_ptr tc) \<or> dead w (fat_ptr tc)
       \<or> scan_evidence itc_ref_count itc_tag 1 (counters ob) 0 0"
  proof (cases "trace_of w (fat_ptr tc)")
    case True
    then show ?thesis
      using itc.evidence_start [of 1 "counters ob"] itc.evidence_start_tag [of "counters ob" 1] sum ob
      by (auto simp: trace_of_def tagged_def)
  next
    case False
    have "\<not> pending_reader (threads w) s (fat_ptr tc)" for s
      using False shard a invD(11) [OF i] unfolding inv_readers_def sp trace_of_def by blast
    with False show ?thesis by (simp add: dead_def trace_of_def)
  qed
qed

lemma take_todo_inv:
  assumes i: "inv w" and pc: "cpc (coll w) = Visit" and Cons: "todo (coll w) = a # rest"
    and f: "f (coll w) = (coll w)\<lparr>todo := rest, cpc := q\<rparr>"
    and q: "q = Visit \<or> visiting q = Some (a, fat_ptr tc) \<and> map_of (tracked_counters (coll w)) a = Some tc"
    and rc: "inv_recheck (set_coll f w)"
  shows "inv (set_coll f w)"
proof (rule control_inv [OF i])
  note ps = invD(9) [OF i, unfolded inv_pass_def]
  have "a \<notin> set (to_free (coll w))" "a \<notin> set rest" using ps Cons by auto
  then show "inv_pass (shards w) (f (coll w))" unfolding f using ps q by (auto simp: inv_pass_def Cons)
  have "spun (set_coll f w) = spun w" using q by (cases q) (auto simp: spun_def f pc)
  then show "inv_readers (set_coll f w)"
    using invD(11) [OF i] by (auto simp: inv_readers_def f Cons)
qed (use f rc in auto)

lemma visit_inv:
  assumes i: "inv w" and pc: "cpc (coll w) = Visit"
  shows "\<exists>f. visit w = Next (set_coll f w) \<and> inv (set_coll f w)"
proof (cases "todo (coll w)")
  case Nil
  have "inv (cgoto Freeing w)"
    unfolding cgoto_def
    by (rule control_inv [OF i])
      (use invD(9) [OF i] pc in \<open>auto simp: inv_pass_def inv_recheck_def inv_readers_def spun_def\<close>)
  then show ?thesis by (auto simp: visit_def Nil cgoto_def)
next
  case (Cons a rest)
  have sp: "spun w = {..<shards w}" by (simp add: spun_def pc)
  note step = take_todo_inv [OF i pc Cons]
  show ?thesis
  proof (cases "map_of (tracked_counters (coll w)) a")
    case None
    have "inv (set_coll (\<lambda>c. c\<lparr>todo := rest\<rparr>) w)"
      by (rule step [where q = Visit]) (simp_all add: pc inv_recheck_def)
    then show ?thesis by (auto simp: visit_def Cons None)
  next
    case (Some tc)
    show ?thesis
    proof (cases "tstate tc")
      case DefaultState
      have "inv (set_coll (\<lambda>c. c\<lparr>todo := rest, cpc := PreRead a (fat_ptr tc) 0 0\<rparr>) w)"
        by (rule step [where tc = tc and q = "PreRead a (fat_ptr tc) 0 0"]) (simp_all add: Some inv_recheck_def)
      then show ?thesis by (auto simp: visit_def Cons Some DefaultState)
    next
      case RequiresReChecking
      have "inv (set_coll (\<lambda>c. c\<lparr>todo := rest, cpc := ReCheck a (fat_ptr tc) 0 0\<rparr>) w)"
        by (rule step [where tc = tc and q = "ReCheck a (fat_ptr tc) 0 0"])
          (use recheck_start [OF i sp _ Some RequiresReChecking] Cons in
            \<open>simp_all add: Some inv_recheck_def\<close>)
      then show ?thesis by (auto simp: visit_def Cons Some RequiresReChecking)
    next
      case ReadyToFree
      then show ?thesis using invD(9) [OF i, unfolded inv_pass_def] Some Cons by auto
    qed
  qed
qed

section \<open>Clearing tags and re-checking\<close>

lemma clear_tag_world:
  assumes i: "inv w" and pc: "cpc (coll w) = ClearRead a p j acc" and n: "n < shards w"
    and ob: "heap w p = Some ob"
  shows "inv (set_obj p (ob\<lparr>counters := (counters ob)[n := itc_clear_tag (counters ob ! n)]\<rparr>) w)"
    (is "inv ?w")
proof -
  let ?h = "(heap w)(p \<mapsto> ob\<lparr>counters := (counters ob)[n := itc_clear_tag (counters ob ! n)]\<rparr>)"
  have m: "meta ?h = meta (heap w)" using ob by (intro meta_upd_same) simp_all
  have h: "heap ?w = ?h" by (simp add: set_obj_def)
  have fr: "threads ?w = threads w" "coll ?w = coll w" "shards ?w = shards w" "critical ?w = critical w"
    "used_slots ?w = used_slots w" "pending_to_track ?w = pending_to_track w"
    by (simp_all add: set_obj_def)
  have st: "strong ?w = strong w"
    by (rule strong_cong) (simp_all add: set_obj_def owned_cong [OF m] del: fun_upd_apply)
  have br: "backref_live (heap ?w) = backref_live (heap w)" unfolding h by (rule backref_live_cong [OF m])
  have de: "dead ?w = dead w" by (simp add: dead_def fun_eq_iff st br fr)
  have len: "n < length (counters ob)" using n invD(2) [OF i] ob by (simp add: inv_len_def)
  have "inv_readers ?w"
  proof -
    have "visiting (cpc (coll w)) = Some (a, p)" using pc by simp
    with i obtain tc' where tc': "map_of (tracked_counters (coll w)) a = Some tc'" "fat_ptr tc' = p"
      "a \<notin> set (todo (coll w))"
      by (rule visiting_facts)
    have "tagged ?w (fat_ptr tc) = tagged w (fat_ptr tc)"
      if "b \<in> set (todo (coll w))" "map_of (tracked_counters (coll w)) b = Some tc" for b tc
      using tracked_distinct [OF invD(8) [OF i] that(2) tc'(1)] that(1) tc'(2,3)
      by (auto simp: tagged_def set_obj_def)
    moreover have "spun ?w = spun w" by (simp only: spun_def fr)
    ultimately show ?thesis using invD(11) [OF i] by (simp add: inv_readers_def st br fr)
  qed
  moreover have "inv_count ?w"
    using invD(3) [OF i] ob itc.sum_clr [OF len] unfolding inv_count_def st h by auto
  ultimately show ?thesis
    using invD [OF i] ob pc unfolding inv_def h inv_weak_cong [OF m] inv_slots_cong [OF m] inv_track_cong [OF m]
    by (auto simp: fr inv_shape_def inv_len_def inv_alive_def inv_critical_def inv_ready_def inv_recheck_def
        st de br h)
qed

lemma set_obj_coll: "cgoto q (set_obj p ob w) = set_obj p ob (cgoto q w)"
  by (simp add: cgoto_def set_coll_def set_obj_def)

lemma clear_read_inv:
  assumes i: "inv w" and pc: "cpc (coll w) = ClearRead a p n acc"
  shows "\<exists>w'. clear_tags_and_read_ref_count_sum_relaxed a p n acc w = Next w' \<and> inv w'
     \<and> (inv_pcs w \<longrightarrow> inv_pcs w')"
proof -
  have v: "visiting (cpc (coll w)) = Some (a, p)" using pc by simp
  from i v obtain tc ob where vf: "heap w p = Some ob" "counters_ptr ob = a" by (rule visiting_facts)
  show ?thesis
  proof (cases "n < shards w")
    case True
    let ?ob = "ob\<lparr>counters := (counters ob)[n := itc_clear_tag (counters ob ! n)]\<rparr>"
    let ?q = "ClearRead a p (Suc n) (acc + itc_ref_count (counters ob ! n))"
    have i1: "inv (set_obj p ?ob w)" by (rule clear_tag_world [OF i pc True vf(1)])
    have "inv (cgoto ?q (set_obj p ?ob w))"
      by (rule goto_visiting_inv [OF i1, of a p])
        (simp_all add: set_obj_def pc inv_recheck_def cgoto_def)
    moreover have "inv_pcs (cgoto ?q (set_obj p ?ob w))" if "inv_pcs w"
    proof -
      have "meta (heap (set_obj p ?ob w)) = meta (heap w)"
        using vf(1) unfolding set_obj_def by simp (intro ext, simp add: meta_def)
      then have "pc_ok (heap (set_obj p ?ob w)) x = pc_ok (heap w) x" for x by (cases x) auto
      then show ?thesis using that by (simp add: inv_pcs_def cgoto_def set_obj_def)
    qed
    ultimately show ?thesis
      using True at_slot_alive [OF vf] by (auto simp: clear_tags_and_read_ref_count_sum_relaxed_def)
  next
    case False
    have "inv (set_coll (finish_visit a p st) w)" if "st \<noteq> ReadyToFree" for st
      by (rule finish_visit_inv [OF i v]) (use that in simp)
    then show ?thesis
      using False by (auto simp: clear_tags_and_read_ref_count_sum_relaxed_def)
  qed
qed

lemma recheck_inv:
  assumes i: "inv w" and pc: "cpc (coll w) = ReCheck a p n acc"
  shows "\<exists>f. read_ref_count_sum_if_all_tags_unset_acquire a p n acc w = Next (set_coll f w)
     \<and> inv (set_coll f w)"
proof -
  have v: "visiting (cpc (coll w)) = Some (a, p)" using pc by simp
  from i v obtain tc ob where vf: "heap w p = Some ob" "counters_ptr ob = a"
    and len: "length (counters ob) = shards w" by (rule visiting_facts)
  note ev = invD(12) [OF i, unfolded inv_recheck_def, THEN conjunct1, rule_format, OF pc vf(1)]
  have fin: "inv (set_coll (finish_visit a p DefaultState) w)"
    by (rule finish_visit_inv [OF i v]) simp
  show ?thesis
  proof (cases "n < shards w")
    case True
    let ?q = "ReCheck a p (Suc n) (acc + itc_ref_count (counters ob ! n))"
    have "inv (cgoto ?q w)" if "\<not> itc_tag (counters ob ! n)"
    proof (rule goto_visiting_inv [OF i v])
      have "scan_evidence itc_ref_count itc_tag k (counters ob) (Suc n) (acc + itc_ref_count (counters ob ! n))"
        if "scan_evidence itc_ref_count itc_tag k (counters ob) n acc" for k
        using itc.evidence_read [OF _ \<open>\<not> itc_tag (counters ob ! n)\<close> that] True len by simp
      with ev True vf(1) show "inv_recheck (cgoto ?q w)"
        by (auto simp: inv_recheck_def cgoto_def)
    qed simp
    with True fin at_slot_alive [OF vf] show ?thesis
      unfolding read_ref_count_sum_if_all_tags_unset_acquire_def cgoto_def by auto
  next
    case False
    then have n: "n = length (counters ob)" using ev len by simp
    have "0 \<le> acc" using itc.evidence_end ev n by blast
    moreover have "inv (cgoto (ClearWeak a p) w)" if "acc = 0"
    proof (rule goto_visiting_inv [OF i v])
      have "\<not> scan_evidence itc_ref_count itc_tag 1 (counters ob) n acc"
        using itc.evidence_end [of 1 "counters ob" acc] that n by auto
      with ev show "inv_recheck (cgoto (ClearWeak a p) w)"
        by (auto simp: inv_recheck_def cgoto_def)
    qed simp
    ultimately show ?thesis
      using False fin unfolding read_ref_count_sum_if_all_tags_unset_acquire_def cgoto_def by auto
  qed
qed

section \<open>Clearing the back reference\<close>

lemma clear_backref_views:
  assumes q: "h q = Some wk" and wk: "data wk = WeakSdarcInner (Some x)"
  defines "h' \<equiv> h(q \<mapsto> wk\<lparr>data := WeakSdarcInner None\<rparr>)"
  shows "owned h' = owned h" and "backref_live h' r \<Longrightarrow> backref_live h r"
    and "meta h r = Some (a, s, d) \<Longrightarrow> \<exists>d'. meta h' r = Some (a, s, d')"
    and "meta h' r = Some (a, s, d) \<Longrightarrow> \<exists>d'. meta h r = Some (a, s, d')"
    and "meta h' r = Some (a, s, WeakSdarcInner (Some y)) \<Longrightarrow> meta h r = Some (a, s, WeakSdarcInner (Some y))"
proof -
  have mq: "meta h q = Some (counters_ptr wk, weak_inner_ref wk, WeakSdarcInner (Some x))"
    using meta_SomeI [of h q wk] q wk by simp
  have m: "meta h' = (meta h)(q \<mapsto> (counters_ptr wk, weak_inner_ref wk, WeakSdarcInner None))"
    by (simp add: h'_def)
  show fwd: "meta h r = Some (a, s, d) \<Longrightarrow> \<exists>d'. meta h' r = Some (a, s, d')" for r a s d
    using mq by (auto simp: m)
  show bwd: "meta h' r = Some (a, s, d) \<Longrightarrow> \<exists>d'. meta h r = Some (a, s, d')" for r a s d
    using mq by (auto simp: m split: if_splits)
  show wk': "meta h' r = Some (a, s, WeakSdarcInner (Some y)) \<Longrightarrow> meta h r = Some (a, s, WeakSdarcInner (Some y))"
    for r a s y by (auto simp: m split: if_splits)
  show "owned h' = owned h" using fwd bwd unfolding owned_def by (intro ext) blast
  show "backref_live h' r \<Longrightarrow> backref_live h r" unfolding backref_live_def using bwd wk' by blast
qed

lemma track_same_slots:
  assumes tr: "inv_track h pend m"
    and fwd: "\<And>r a s d. meta h r = Some (a, s, d) \<Longrightarrow> \<exists>s d. meta h' r = Some (a, s, d)"
    and bwd: "\<And>r a s d. meta h' r = Some (a, s, d) \<Longrightarrow> \<exists>s d. meta h r = Some (a, s, d)"
  shows "inv_track h' pend m"
proof (rule inv_trackI)
  show "sorted_keys m" "distinct (map snd (concat pend))" using inv_trackD(1,5) [OF tr] by auto
  show "\<exists>r d. meta h' (fat_ptr tc) = Some (a, r, d)" if "map_of m a = Some tc" for a tc
    using inv_trackD(2) [OF tr that] fwd by blast
  show "map_of m a = None \<and> (\<exists>r d. meta h' p = Some (a, r, d))" if "(p, a) \<in> set (concat pend)" for p a
    using inv_trackD(3,4) [OF tr that] fwd by blast
  show "(p, a) \<in> set (concat pend) \<or> (\<exists>tc. map_of m a = Some tc \<and> fat_ptr tc = p)"
    if "meta h' p = Some (a, r, d)" for p a r d
    using bwd [OF that] inv_trackD(6) [OF tr] by blast
qed

lemma clear_backref_shape:
  assumes wki: "inv_weak h" and sl: "inv_slots h used" and tr: "inv_track h pend m"
    and q: "h q = Some wk" and wk: "data wk = WeakSdarcInner (Some x)"
  defines "h' \<equiv> h(q \<mapsto> wk\<lparr>data := WeakSdarcInner None\<rparr>)"
  shows "inv_weak h'" "inv_slots h' used" "inv_track h' pend m"
proof -
  note cv = clear_backref_views [where h = h, OF q wk, folded h'_def]
  show "inv_weak h'"
    using wki cv(3-5) unfolding inv_weak_def by meson
  show "inv_slots h' used"
    using sl cv(4) unfolding inv_slots_def by meson
  show "inv_track h' pend m"
    by (rule track_same_slots [OF tr]) (use cv(3,4) in blast)+
qed

text \<open>Clearing one back reference leaves the others alone.\<close>

lemma clear_backref_others:
  assumes wki: "inv_weak h" and q: "h q = Some wk" and wk: "data wk = WeakSdarcInner (Some x)"
    and p: "meta h p = Some (a, Some q, d)" and r: "backref_live h r" "r \<noteq> p"
  shows "backref_live (h(q \<mapsto> wk\<lparr>data := WeakSdarcInner None\<rparr>)) r"
proof -
  note cv = clear_backref_views [where h = h, OF q wk]
  from r(1) obtain b d q' b' r' y where q': "meta h r = Some (b, Some q', d)"
    "meta h q' = Some (b', r', WeakSdarcInner (Some y))"
    unfolding backref_live_def by blast
  have "q' \<noteq> q" using q'(1) r(2) wki p unfolding inv_weak_def by metis
  then have "meta (h(q \<mapsto> wk\<lparr>data := WeakSdarcInner None\<rparr>)) q' = meta h q'" by simp
  then show ?thesis using q' cv(3) [OF q'(1)] unfolding backref_live_def by metis
qed

text \<open>After a visit, what is still to be visited is another object.\<close>

lemma finish_visit_todo:
  assumes i: "inv w" and v: "visiting (cpc (coll w)) = Some (a, p)"
    and b: "b \<in> set (todo (finish_visit a p st (coll w)))"
      "map_of (tracked_counters (finish_visit a p st (coll w))) b = Some tc"
  shows "fat_ptr tc \<noteq> p"
proof -
  from i v obtain tc' where tc': "map_of (tracked_counters (coll w)) a = Some tc'" "fat_ptr tc' = p"
    "a \<notin> set (todo (coll w))" by (rule visiting_facts)
  have ne: "b \<noteq> a" using b(1) tc'(3) by (auto simp: finish_visit_def)
  then have "map_of (tracked_counters (coll w)) b = Some tc"
    using b(2) by (simp add: finish_visit_def btree.lookup_ins [OF inv_trackD(1) [OF invD(8) [OF i]]])
  from tracked_distinct [OF invD(8) [OF i] this tc'(1) ne] tc'(2) show ?thesis by simp
qed

lemma clear_backref_inv:
  assumes i: "inv w" and pc: "cpc (coll w) = ClearWeak a p" and ob: "heap w p = Some ob"
    and wr: "weak_inner_ref ob = Some q" and q: "heap w q = Some wk" and wk: "data wk = WeakSdarcInner (Some x)"
  shows "inv (set_coll (finish_visit a p RequiresReChecking)
      (set_obj q (wk\<lparr>data := WeakSdarcInner None\<rparr>) w))"
proof -
  define w1 where "w1 = set_coll (finish_visit a p RequiresReChecking) w"
  have v: "visiting (cpc (coll w)) = Some (a, p)" using pc by simp
  have i1: "inv w1" unfolding w1_def by (rule finish_visit_inv [OF i v]) simp
  let ?w = "set_obj q (wk\<lparr>data := WeakSdarcInner None\<rparr>) w1"
  have eq: "set_coll (finish_visit a p RequiresReChecking) (set_obj q (wk\<lparr>data := WeakSdarcInner None\<rparr>) w) = ?w"
    by (simp add: w1_def set_coll_def set_obj_def)
  have h1: "heap w1 = heap w" by (simp add: w1_def)
  have q1: "heap w1 q = Some wk" using q h1 by simp
  have mp: "meta (heap w1) p = Some (counters_ptr ob, Some q, data ob)"
    using meta_SomeI [of "heap w1" p ob] ob wr h1 by simp
  note cv = clear_backref_views [where h = "heap w1", OF q1 wk]
  note cs = clear_backref_shape [where h = "heap w1", OF invD(6,7,8) [OF i1] q1 wk]
  have fr: "threads ?w = threads w1" "coll ?w = coll w1" "shards ?w = shards w1" "critical ?w = critical w1"
    "used_slots ?w = used_slots w1" "pending_to_track ?w = pending_to_track w1"
    and h: "heap ?w = (heap w1)(q \<mapsto> wk\<lparr>data := WeakSdarcInner None\<rparr>)"
    by (simp_all add: set_obj_def)
  have st: "strong ?w = strong w1"
    by (rule strong_cong) (simp_all add: set_obj_def cv(1) del: fun_upd_apply)
  have tg: "tagged ?w = tagged w1" using q h1 by (auto simp: tagged_def h fun_eq_iff)
  have de: "dead ?w r" if "dead w1 r" for r
    using that cv(2) [of r] unfolding dead_def st fr h by blast
  have pcv: "cpc (coll w1) = Visit" by (simp add: w1_def finish_visit_def)
  have sp: "spun ?w = spun w1" by (simp only: spun_def fr)
  have ne: "fat_ptr tc \<noteq> p" if "b \<in> set (todo (coll w1))" "map_of (tracked_counters (coll w1)) b = Some tc" for b tc
    using finish_visit_todo [OF i v, of b RequiresReChecking tc] that by (simp add: w1_def)
  have "inv_readers ?w" unfolding inv_readers_def st tg sp fr h
    using invD(11) [OF i1, unfolded inv_readers_def] ne clear_backref_others [where h = "heap w1", OF invD(6) [OF i1] q1 wk mp]
    by blast
  moreover have "inv_count ?w" "inv_len ?w" "inv_alive ?w"
    using invD(2,3,4) [OF i1] q h1 unfolding inv_count_def inv_len_def inv_alive_def st fr h by auto
  moreover have "inv_ready ?w" using invD(10) [OF i1] de unfolding inv_ready_def fr by blast
  moreover have "inv_recheck ?w" by (simp add: inv_recheck_def fr pcv)
  ultimately show ?thesis
    unfolding eq using invD [OF i1] cs h1
    unfolding inv_def h by (simp add: fr inv_shape_def inv_critical_def)
qed

end
