(* ===== verification/Sdarc_Free_Steps.thy ===== *)
theory Sdarc_Free_Steps
  imports Sdarc_Collector_Steps
begin

text \<open>
  The rest of the collector's steps: deciding on an object whose re-check found a zero sum and no
  tag, freeing the objects that are ready, and going on to the next pass. Together with the other
  steps of the collector they keep the invariant and never fault.
\<close>

section \<open>The weak reference of an object without strong references\<close>

lemma clear_weak_inv:
  assumes i: "inv w" and ps: "inv_pcs w" and pc: "cpc (coll w) = ClearWeak a p"
  shows "\<exists>w'. clear_weak_back_ref a p w = Next w' \<and> inv w' \<and> inv_pcs w'"
proof -
  have v: "visiting (cpc (coll w)) = Some (a, p)" using pc by simp
  from i v obtain tc ob where ob: "heap w p = Some ob" by (rule visiting_facts)
  have or: "backref_live (heap w) p \<or> dead w p" using invD(12) [OF i] pc by (simp add: inv_recheck_def)
  have fin: "\<exists>w'. Next (set_coll (finish_visit a p ReadyToFree) w) = Next w' \<and> inv w' \<and> inv_pcs w'"
    if "\<not> backref_live (heap w) p"
    using finish_visit_inv [OF i v, of ReadyToFree] that or ps by auto
  show ?thesis
  proof (cases "weak_inner_ref ob")
    case None
    then have "\<not> backref_live (heap w) p" using ob by (auto simp: backref_live_def meta_def)
    from fin [OF this] show ?thesis
      by (simp add: clear_weak_back_ref_def clear_weak_backref_impl_def ob None)
  next
    case (Some q)
    have mp: "meta (heap w) p = Some (counters_ptr ob, Some q, data ob)"
      using meta_SomeI [of "heap w" p ob] ob Some by simp
    then obtain wk where wk: "heap w q = Some wk"
      using weak_ref_alive [OF invD(4) [OF i]] by (blast dest: meta_SomeD)
    show ?thesis
    proof (cases "\<exists>x. data wk = WeakSdarcInner (Some x)")
      case True
      then obtain x where x: "data wk = WeakSdarcInner (Some x)" by blast
      let ?w = "set_obj q (wk\<lparr>data := WeakSdarcInner None\<rparr>) w"
      note cv = clear_backref_views [where h = "heap w", OF wk x]
      have "pc_ok (heap ?w) y" if "pc_ok (heap w) y" for y
        using that cv(3) by (cases y) (force simp: set_obj_def)+
      then have "inv_pcs (set_coll (finish_visit a p RequiresReChecking) ?w)"
        using ps by (simp add: inv_pcs_def set_obj_def)
      with clear_backref_inv [OF i pc ob Some wk x] show ?thesis
        by (simp add: clear_weak_back_ref_def clear_weak_backref_impl_def ob Some wk x)
    next
      case False
      have "\<not> backref_live (heap w) p" using mp wk False by (auto simp: backref_live_def meta_def)
      from fin [OF this] False show ?thesis
        by (auto simp: clear_weak_back_ref_def clear_weak_backref_impl_def ob Some wk
            split: payload.splits option.splits)
    qed
  qed
qed

section \<open>Freeing one object\<close>

lemma free_shape:
  assumes wki: "inv_weak h" and sl: "inv_slots h used" and tr: "inv_track h pend m"
    and a: "map_of m a = Some tc" and nb: "\<not> backref_live h (fat_ptr tc)"
  defines "h' \<equiv> h(fat_ptr tc := None)"
  shows "inv_weak h'" "inv_slots h' (used - {a})" "inv_track h' pend (map_remove a m)"
proof -
  obtain r0 d0 where p: "meta h (fat_ptr tc) = Some (a, r0, d0)" using inv_trackD(2) [OF tr a] by blast
  have m: "meta h' = (meta h)(fat_ptr tc := None)" by (simp add: h'_def)
  have other: "fat_ptr tc \<noteq> q" if "meta h q = Some (b, r, d)" "b \<noteq> a" for q b r d
    using that p by auto
  have slot: "b \<noteq> a" if "meta h q = Some (b, r, d)" "q \<noteq> fat_ptr tc" for q b r d
    using that p sl unfolding inv_slots_def by metis
  have "r \<noteq> fat_ptr tc" if "meta h q = Some (b, s, WeakSdarcInner (Some r))" for q b s r
    using that wki nb unfolding inv_weak_def backref_live_def by metis
  then show "inv_weak h'" using wki unfolding inv_weak_def m by (auto split: if_splits)
  show "inv_slots h' (used - {a})"
    using sl slot unfolding inv_slots_def m by (auto split: if_splits)
  note lk = btree.lookup_del [OF inv_trackD(1) [OF tr]]
  show "inv_track h' pend (map_remove a m)"
  proof (rule inv_trackI)
    show "sorted_keys (map_remove a m)" by (rule btree.ok_del [OF inv_trackD(1) [OF tr]])
    show "distinct (map snd (concat pend))" by (rule inv_trackD(5) [OF tr])
    show "\<exists>r d. meta h' (fat_ptr tc') = Some (b, r, d)" if "map_of (map_remove a m) b = Some tc'" for b tc'
      using that inv_trackD(2) [OF tr, of b tc'] other by (fastforce simp: lk m split: if_splits)
    show "map_of (map_remove a m) b = None \<and> (\<exists>r d. meta h' q = Some (b, r, d))"
      if "(q, b) \<in> set (concat pend)" for q b
      using inv_trackD(3,4) [OF tr that] a other by (fastforce simp: lk m)
    show "(q, b) \<in> set (concat pend) \<or> (\<exists>tc. map_of (map_remove a m) b = Some tc \<and> fat_ptr tc = q)"
      if "meta h' q = Some (b, r, d)" for q b r d
      using that inv_trackD(6) [OF tr, of q b r d] slot [of q b r d] by (auto simp: lk m split: if_splits)
  qed
qed

text \<open>
  The reference that the freed object's \<open>weak_inner_ref\<close> held passes to the collector thread, which
  is about to drop it.
\<close>

definition take_weak :: "SdarcInner \<Rightarrow> thread \<Rightarrow> thread" where
  "take_weak ob th = (case weak_inner_ref ob of None \<Rightarrow> th | Some q \<Rightarrow> th\<lparr>pc := DropDec q\<rparr>)"

lemma take_weak_simps [simp]:
  "pc th = Idle \<Longrightarrow> loaded (pc (take_weak ob th)) = None"
  "pc th = Idle \<Longrightarrow> \<not> in_critical (pc (take_weak ob th))"
  "pc th = Idle \<Longrightarrow> pc_ok h (pc (take_weak ob th))"
  "shard_index (take_weak ob th) = shard_index th"
  by (auto simp: take_weak_def split: option.split)

lemma owned_free:
  assumes wki: "inv_weak h" and ob: "h p = Some ob"
  shows "owned (h(p := None)) r \<longleftrightarrow> owned h r \<and> weak_inner_ref ob \<noteq> Some r"
proof -
  have mp: "meta h p = Some (counters_ptr ob, weak_inner_ref ob, data ob)"
    using ob by (rule meta_SomeI)
  show ?thesis
    using wki mp unfolding owned_def inv_weak_def meta_del fun_upd_apply
    by (metis option.distinct(1) option.inject prod.inject)
qed

lemma owned_weak_ref: "h p = Some ob \<Longrightarrow> weak_inner_ref ob = Some r \<Longrightarrow> owned h r"
  unfolding owned_def by (metis meta_SomeI)

lemma free_strong:
  assumes wki: "inv_weak (heap w)" and ob: "heap w p = Some ob" and idle: "pc (threads w ! 0) = Idle"
    and ths: "threads w \<noteq> []"
    and w': "heap w' = (heap w)(p := None)" "handles w' = handles w" "atomics w' = atomics w"
      "threads w' = (threads w)[0 := take_weak ob (threads w ! 0)]"
  shows "strong w' = strong w"
proof
  fix r
  have "int (strong w' r) = int (strong w r)"
    using ths idle owned_free [where h = "heap w", OF wki ob, of r] owned_weak_ref [where h = "heap w", OF ob, of r]
    by (auto simp: strong_int w' int_sum_list_update take_weak_def split: option.splits)
  then show "strong w' r = strong w r" by simp
qed

lemma idle_update_readers:
  assumes "threads w \<noteq> []" and idle: "pc (threads w ! 0) = Idle"
  shows "pending_reader ((threads w)[0 := take_weak ob (threads w ! 0)]) s r = pending_reader (threads w) s r"
    and "readers_in ((threads w)[0 := take_weak ob (threads w ! 0)]) s = readers_in (threads w) s"
proof -
  obtain th ths where ths: "threads w = th # ths" using assms(1) by (cases "threads w") auto
  then show "pending_reader ((threads w)[0 := take_weak ob (threads w ! 0)]) s r = pending_reader (threads w) s r"
    and "readers_in ((threads w)[0 := take_weak ob (threads w ! 0)]) s = readers_in (threads w) s"
    using idle by (simp_all add: pending_reader_def readers_in_def)
qed

text \<open>The world after \<open>drop_sdarc_inner\<close>, when its assertion holds.\<close>

definition freed :: "cptr \<Rightarrow> ptr \<Rightarrow> SdarcInner \<Rightarrow> cptr list \<Rightarrow> world \<Rightarrow> world" where
  "freed a p ob rest w =
     w\<lparr>heap := (heap w)(p := None), used_slots := used_slots w - {a},
       threads := (threads w)[0 := take_weak ob (threads w ! 0)],
       coll := (coll w)\<lparr>to_free := rest, tracked_counters := map_remove a (tracked_counters (coll w)),
         cpc := UserDrop\<rparr>\<rparr>"

lemma freed_simps [simp]:
  "heap (freed a p ob rest w) = (heap w)(p := None)" "used_slots (freed a p ob rest w) = used_slots w - {a}"
  "threads (freed a p ob rest w) = (threads w)[0 := take_weak ob (threads w ! 0)]"
  "coll (freed a p ob rest w) = (coll w)\<lparr>to_free := rest,
     tracked_counters := map_remove a (tracked_counters (coll w)), cpc := UserDrop\<rparr>"
  "shards (freed a p ob rest w) = shards w" "critical (freed a p ob rest w) = critical w"
  "pending_to_track (freed a p ob rest w) = pending_to_track w" "handles (freed a p ob rest w) = handles w"
  "atomics (freed a p ob rest w) = atomics w"
  by (simp_all add: freed_def)

lemma freed_pass:
  assumes "inv_pass n c" "to_free c = a # rest" "sorted_keys (tracked_counters c)"
  shows "inv_pass n (c\<lparr>to_free := rest, tracked_counters := map_remove a (tracked_counters c), cpc := UserDrop\<rparr>)"
  using assms(1,2) unfolding inv_pass_def by (auto simp: btree.lookup_del [OF assms(3)])

lemma freed_inv:
  assumes i: "inv w" and idle: "pc (threads w ! 0) = Idle" and tf: "to_free (coll w) = a # rest"
    and tc: "map_of (tracked_counters (coll w)) a = Some tc" and dd: "dead w (fat_ptr tc)"
    and ob: "heap w (fat_ptr tc) = Some ob"
  shows "inv (freed a (fat_ptr tc) ob rest w)" (is "inv ?w")
proof -
  have ths: "threads w \<noteq> []" using invD(1) [OF i] by (simp add: inv_shape_def)
  have nb: "\<not> backref_live (heap w) (fat_ptr tc)" using dd by (simp add: dead_def)
  note sh = free_shape [where h = "heap w", OF invD(6-8) [OF i] tc nb]
  have st: "strong ?w = strong w"
    by (rule free_strong [OF invD(6) [OF i] ob idle ths]) simp_all
  note rd = idle_update_readers [OF ths idle, of ob]
  have de: "dead ?w r" if "dead w r" for r
    using that by (auto simp: dead_def st rd backref_live_def split: if_splits)
  have "inv_shape ?w" "inv_critical ?w"
    using invD(1,5) [OF i] ths set_update_subset_insert [of "threads w" 0 "take_weak ob (threads w ! 0)"]
    by (auto simp: inv_shape_def inv_critical_def rd)
  moreover have "inv_len ?w" "inv_count ?w"
    using invD(2,3) [OF i] unfolding inv_len_def inv_count_def st by auto
  moreover have "inv_alive ?w"
    using invD(4) [OF i] dd unfolding inv_alive_def st dead_def by (auto simp: rd)
  moreover have "inv_pass (shards w) (coll ?w)"
    using freed_pass [OF invD(9) [OF i] tf inv_trackD(1) [OF invD(8) [OF i]]] by simp
  moreover have "inv_ready ?w"
    using invD(10) [OF i] de inv_trackD(1) [OF invD(8) [OF i]]
    by (auto simp: inv_ready_def btree.lookup_del split: if_splits)
  moreover have "inv_readers ?w" "inv_recheck ?w"
    by (simp_all add: inv_readers_def inv_recheck_def spun_def)
  ultimately show ?thesis using sh by (simp add: inv_def)
qed

lemma freed_pcs:
  assumes "inv_pcs w" and idle: "pc (threads w ! 0) = Idle" and ths: "threads w \<noteq> []" and dd: "dead w p"
  shows "inv_pcs (freed a p ob rest w)"
  unfolding inv_pcs_def
proof
  fix th assume "th \<in> set (threads (freed a p ob rest w))"
  then consider "th = take_weak ob (threads w ! 0)" | "th \<in> set (threads w)"
    using set_update_subset_insert [of "threads w" 0 "take_weak ob (threads w ! 0)"] by auto
  then show "pc_ok (heap (freed a p ob rest w)) (pc th)"
  proof cases
    case 1
    then show ?thesis using idle by simp
  next
    case 2
    then obtain t where "t < length (threads w)" "th = threads w ! t" by (auto simp: in_set_conv_nth)
    then have "held (pc th) p = 0" using strong_held [of t w p] dd by (auto simp: dead_def)
    with 2 assms(1) show ?thesis by (cases "pc th") (auto simp: inv_pcs_def)
  qed
qed

lemma ready_content:
  assumes i: "inv w" and dd: "dead w p" and ob: "heap w p = Some ob"
  shows "data ob \<noteq> WeakSdarcInner (Some x)"
proof
  assume "data ob = WeakSdarcInner (Some x)"
  then have "owned (heap w) p"
    using invD(6) [OF i] meta_SomeI [of "heap w" p ob] ob unfolding inv_weak_def owned_def by metis
  then show False using dd by (simp add: dead_def strong_def)
qed

lemma drop_sdarc_inner_freed:
  assumes "\<And>x. data ob \<noteq> WeakSdarcInner (Some x)" "counters_ptr ob = a"
  shows "drop_sdarc_inner p ob (set_coll (\<lambda>c. c\<lparr>to_free := rest,
       tracked_counters := map_remove a (tracked_counters c)\<rparr>) w) = Next (freed a p ob rest w)"
proof (cases "weak_inner_ref ob")
  case None
  have "freed a p ob rest w = w\<lparr>heap := (heap w)(p := None), used_slots := used_slots w - {a},
       coll := coll (freed a p ob rest w)\<rparr>"
    using None by (cases w) (simp add: freed_def take_weak_def)
  with assms None show ?thesis
    by (cases "data ob") (auto simp: drop_sdarc_inner_def cgoto_def set_coll_def Let_def split: option.split)
next
  case (Some q)
  with assms show ?thesis
    by (cases "data ob") (auto simp: drop_sdarc_inner_def freed_def cgoto_def set_coll_def take_weak_def
        goto_def set_thread_def Let_def split: option.split)
qed

section \<open>The end of a pass\<close>

lemma distinct_fold_insort_insert: "distinct ys \<Longrightarrow> distinct (fold insort_insert xs ys)"
  by (induction xs arbitrary: ys) (auto simp: distinct_insort_insert)

lemma end_pass_inv:
  assumes i: "inv w" and pc: "cpc (coll w) = Freeing" and tf: "to_free (coll w) = []"
  shows "inv (set_coll end_pass w)"
proof (rule control_inv [OF i])
  have "distinct (fold insort_insert (counters_to_recheck (coll w)) (to_recheck (coll w)))"
    using invD(9) [OF i] by (intro distinct_fold_insort_insert) (simp add: inv_pass_def)
  then show "inv_pass (shards w) (end_pass (coll w))"
    using invD(9) [OF i] tf by (auto simp: end_pass_def Let_def start_pass_def inv_pass_def)
  show "inv_readers (set_coll end_pass w)" "inv_recheck (set_coll end_pass w)"
    by (auto simp: inv_readers_def inv_recheck_def spun_def end_pass_def Let_def start_pass_def)
qed (simp add: end_pass_def Let_def start_pass_def)

lemma free_pointers_inv:
  assumes i: "inv w" and ps: "inv_pcs w" and pc: "cpc (coll w) = Freeing" and idle: "pc (threads w ! 0) = Idle"
  shows "\<exists>w'. free_pointers w = Next w' \<and> inv w' \<and> inv_pcs w'"
proof (cases "to_free (coll w)")
  case Nil
  then show ?thesis using end_pass_inv [OF i pc] ps by (simp add: free_pointers_def)
next
  case (Cons a rest)
  have ths: "threads w \<noteq> []" using invD(1) [OF i] by (simp add: inv_shape_def)
  obtain tc where tc: "map_of (tracked_counters (coll w)) a = Some tc" "tstate tc = ReadyToFree"
    using invD(9) [OF i] Cons unfolding inv_pass_def by fastforce
  have dd: "dead w (fat_ptr tc)" using invD(10) [OF i] tc by (auto simp: inv_ready_def)
  obtain ob where ob: "heap w (fat_ptr tc) = Some ob" "counters_ptr ob = a"
    using inv_trackD(2) [OF invD(8) [OF i] tc(1)] by (auto dest: meta_SomeD)
  have "free_pointers w = Next (freed a (fat_ptr tc) ob rest w)"
    using drop_sdarc_inner_freed [OF ready_content [OF i dd ob(1)] ob(2)]
    by (simp add: free_pointers_def Cons tc ob)
  then show ?thesis
    using freed_inv [OF i idle Cons tc(1) dd ob(1)] freed_pcs [OF ps idle ths dd] by blast
qed

section \<open>Every step of the collector\<close>

lemma collector_step_ok:
  assumes "safe w" and idle: "pc (threads w ! 0) = Idle"
  shows "\<exists>w'. collector_step w = Next w' \<and> safe w'"
proof -
  from assms(1) have i: "inv w" and ps: "inv_pcs w" by (auto simp: safe_def)
  have sc: "\<exists>w'. x = Next w' \<and> inv w' \<and> inv_pcs w'" if "\<exists>f. x = Next (set_coll f w) \<and> inv (set_coll f w)" for x
    using that ps by auto
  have "\<exists>w'. collector_at (cpc (coll w)) w = Next w' \<and> inv w' \<and> inv_pcs w'"
  proof (cases "cpc (coll w)")
    case Parked
    then show ?thesis using park_inv [OF i Parked] ps by (simp add: cgoto_def)
  next
    case UserDrop
    then show ?thesis using user_drop_inv [OF i UserDrop] ps by (simp add: cgoto_def)
  next
    case (TakeNew n)
    then show ?thesis using take_new_inv [OF i TakeNew] ps by auto
  next
    case (SpinScan n)
    then show ?thesis using sc [OF spin_scan_inv [OF i SpinScan]] by simp
  next
    case SpinWait
    then show ?thesis using sc [OF spin_wait_inv [OF i SpinWait]] by simp
  next
    case Visit
    then show ?thesis using sc [OF visit_inv [OF i Visit]] by simp
  next
    case (PreRead a p n acc)
    then show ?thesis using sc [OF pre_read_inv [OF i PreRead]] by simp
  next
    case (ClearRead a p n acc)
    then show ?thesis using clear_read_inv [OF i ClearRead] ps by auto
  next
    case (ReCheck a p n acc)
    then show ?thesis using sc [OF recheck_inv [OF i ReCheck]] by simp
  next
    case (ClearWeak a p)
    then show ?thesis using clear_weak_inv [OF i ps ClearWeak] by simp
  next
    case Freeing
    then show ?thesis using free_pointers_inv [OF i ps Freeing idle] by simp
  qed
  then show ?thesis using idle by (simp add: collector_step_def safe_def)
qed

end
