(* ===== verification/Sdarc_Safety.thy ===== *)
theory Sdarc_Safety
  imports Sdarc_Free_Steps
begin

text \<open>
  Memory safety of the whole system: user threads and the collector, in every interleaving of their
  atomic accesses. The one operation whose accesses must stay together is \<open>compare_and_set\<close> with a
  non-null pointer; \<open>uc_step\<close> is the system in which it is not interrupted. The last section shows
  what happens when it is.
\<close>

section \<open>The transition system\<close>

fun uc_step :: "event \<Rightarrow> world \<Rightarrow> outcome" where
  "uc_step (User t (CompareAndSet c m (Some q))) w =
     (case user_step t (CompareAndSet c m (Some q)) w of
        Next w1 \<Rightarrow> if pc (threads w1 ! t) = Idle then Next w1 else user_step t Continue w1
      | r \<Rightarrow> r)"
| "uc_step e w = step e w"

inductive sys_step :: "world \<Rightarrow> world \<Rightarrow> bool" where
  "uc_step e w = Next w' \<Longrightarrow> sys_step w w'"

inductive_cases sys_stepE: "sys_step w w'"

definition initial :: "world \<Rightarrow> bool" where
  "initial w \<longleftrightarrow> (\<exists>n idx m. 0 < n \<and> idx \<noteq> [] \<and> (\<forall>i \<in> set idx. i < n) \<and> w = init_world n idx m)"

abbreviation reachable :: "world \<Rightarrow> bool" where
  "reachable \<equiv> reach initial sys_step"

fun uc_run :: "event list \<Rightarrow> world \<Rightarrow> outcome" where
  "uc_run [] w = Next w"
| "uc_run (e # es) w = (case uc_step e w of Next w' \<Rightarrow> uc_run es w' | r \<Rightarrow> r)"

lemma uc_run_replicate:
  "uc_run (replicate (numeral n) Collector @ es) w =
     (case uc_step Collector w of Next w' \<Rightarrow> uc_run (replicate (pred_numeral n) Collector @ es) w' | r \<Rightarrow> r)"
  by (simp add: numeral_eq_Suc)

fun is_next :: "outcome \<Rightarrow> bool" where
  "is_next (Next w) = True"
| "is_next _ = False"

fun world_of :: "outcome \<Rightarrow> world" where
  "world_of (Next w) = w"
| "world_of _ = init_world 1 [0] 0"

section \<open>The initial states are safe\<close>

lemma init_strong [simp]: "strong (init_world n idx m) p = 0"
  by (simp add: strong_def init_world_def comp_def owned_def meta_def count_list_0_iff)

lemma init_readers [simp]:
  "pending_reader (threads (init_world n idx m)) s p = False"
  "readers_in (threads (init_world n idx m)) s = 0"
  by (auto simp: pending_reader_def readers_in_def init_world_def comp_def)

lemma init_heap [simp]: "heap (init_world n idx m) = (\<lambda>_. None)" "meta (\<lambda>_. None) p = None"
  "coll (init_world n idx m) = init_collector"
  by (auto simp: init_world_def meta_def)

lemma init_safe:
  assumes "initial w"
  shows "safe w"
proof -
  from assms obtain n idx m where w: "w = init_world n idx m" and n: "0 < n" "idx \<noteq> []" "\<forall>i \<in> set idx. i < n"
    by (auto simp: initial_def)
  have c: "tracked_counters init_collector = []" "todo init_collector = []" "cpc init_collector = Parked"
    by (simp_all add: init_collector_def)
  have "inv_shape w" using n by (auto simp: w inv_shape_def init_world_def)
  moreover have "inv_critical w" by (simp add: w inv_critical_def) (simp add: init_world_def)
  moreover have "inv_track (heap w) (pending_to_track w) (tracked_counters (coll w))"
    by (auto simp: w inv_track_def c) (auto simp: init_world_def)
  moreover have "inv_pass (shards w) (coll w)" by (simp add: w inv_pass_def init_collector_def)
  ultimately show ?thesis
    by (auto simp: safe_def inv_def w inv_len_def inv_count_def inv_alive_def inv_weak_def inv_slots_def
        inv_ready_def inv_readers_def inv_recheck_def c) (auto simp: inv_pcs_def init_world_def)
qed

section \<open>An uninterrupted compare-and-set\<close>

lemma cas_whole_inv:
  assumes i: "inv w" and t: "t < length (threads w)" and pc: "pc (threads w ! t) = Idle"
    and c: "c < length (atomics w)" "atomics w ! c = m" and q: "0 < handles w q"
    and st: "raw_compare_and_set_inc t q m (goto t (CasInc q m) (lose q (set_atomic c (Some q) w))) = Next w'"
  shows "inv w'" "threads w' = (threads w)[t := (threads w ! t)\<lparr>pc := Idle, ret := RetOpt m\<rparr>]"
    "meta (heap w') = meta (heap w)"
proof -
  note s = thread_shard [OF i t]
  from st obtain ob where ob: "heap w q = Some ob"
    and w': "w' = return t (RetOpt m) (gain_opt m (gain q ((goto t (CasInc q m) (lose q (set_atomic c (Some q) w)))
       \<lparr>heap := (heap w)(q \<mapsto> ob\<lparr>counters := (counters ob)[shard_of t w := itc_increment (counters ob ! shard_of t w)]\<rparr>)\<rparr>)))"
    using t by (auto simp: raw_compare_and_set_inc_def modify_counter_Next world_ops)
  show ths: "threads w' = (threads w)[t := (threads w ! t)\<lparr>pc := Idle, ret := RetOpt m\<rparr>]"
    using t by (simp add: w' world_ops)
  show "meta (heap w') = meta (heap w)" using ob by (auto simp: w' world_ops meta_def)
  have "thread_step t ((threads w ! t)\<lparr>pc := Idle, ret := RetOpt m\<rparr>) w w'"
    using s t pc ths by (simp add: w' step_simps)
  then show "inv w'"
    by (rule incr_step [OF i _ ob, where s = "shard_of t w"])
      (use c q in \<open>simp_all add: w' step_simps s t pc ob strong_handle\<close>)
qed

lemma cas_begin:
  assumes "user_step t (CompareAndSet c m (Some q)) w = Next w1"
  shows "t < length (threads w)" "pc (threads w ! t) = Idle"
    "(user_step t (CompareAndSet c m None) w = Next w1 \<and> pc (threads w1 ! t) = Idle)
   \<or> (c < length (atomics w) \<and> atomics w ! c = m \<and> 0 < handles w q
      \<and> w1 = goto t (CasInc q m) (lose q (set_atomic c (Some q) w)) \<and> pc (threads w1 ! t) = CasInc q m
      \<and> user_step t Continue w1 = raw_compare_and_set_inc t q m w1)"
  using assms by (auto simp: user_step_def raw_compare_and_set_def world_ops split: if_splits)

lemma uc_step_cases:
  obtains (plain) "uc_step e w = step e w" "\<And>t act. e = User t act \<Longrightarrow> cas_free act"
  | (cas) t c m q where "e = User t (CompareAndSet c m (Some q))"
proof (cases e)
  case (User t act)
  then show ?thesis using plain cas by (cases "(e, w)" rule: uc_step.cases) auto
qed (use plain in auto)

text \<open>A property that every user step keeps, and the collector step at hand, holds after a step of the system.\<close>

lemma uc_step_keeps:
  assumes st: "uc_step e w = Next w'" and P: "P w"
    and user: "\<And>t act w w'. P w \<Longrightarrow> user_step t act w = Next w' \<Longrightarrow> P w'"
    and coll: "collector_step w = Next w' \<Longrightarrow> P w'"
  shows "P w'"
proof (cases rule: uc_step_cases [of e w])
  case plain
  show ?thesis
  proof (cases e)
    case (User t act)
    with plain(1) st have "user_step t act w = Next w'" by simp
    then show ?thesis by (rule user [OF P])
  next
    case Collector
    with st show ?thesis by (simp add: coll)
  qed
next
  case (cas t c m q)
  with st obtain w1 where w1: "user_step t (CompareAndSet c m (Some q)) w = Next w1"
      "w' = w1 \<or> user_step t Continue w1 = Next w'"
    by (auto split: outcome.splits if_splits)
  have "P w1" by (rule user [OF P w1(1)])
  with w1(2) user [of w1 t Continue w'] show ?thesis by blast
qed

lemma uc_step_safe:
  assumes s: "safe w" and st: "uc_step e w = Next w'"
  shows "safe w'"
proof (cases rule: uc_step_cases [of e w])
  case plain
  show ?thesis
  proof (cases e)
    case (User t act)
    then show ?thesis using user_step_safe [OF s plain(2)] st plain(1) by simp
  next
    case Collector
    with st have c: "collector_step w = Next w'" by simp
    then have "pc (threads w ! 0) = Idle" by (simp add: collector_step_def split: if_splits)
    from collector_step_ok [OF s this] c show ?thesis by auto
  qed
next
  case (cas t c m q)
  from st cas obtain w1 where w1: "user_step t (CompareAndSet c m (Some q)) w = Next w1"
    by (auto split: outcome.splits)
  note b = cas_begin [OF w1]
  from b(3) show ?thesis
  proof (elim disjE conjE)
    assume "user_step t (CompareAndSet c m None) w = Next w1" "pc (threads w1 ! t) = Idle"
    then show ?thesis using user_step_safe [OF s, of "CompareAndSet c m None" t w1] st w1 cas by simp
  next
    assume c: "c < length (atomics w)" "atomics w ! c = m" "0 < handles w q"
      and w1': "w1 = goto t (CasInc q m) (lose q (set_atomic c (Some q) w))"
      "pc (threads w1 ! t) = CasInc q m" "user_step t Continue w1 = raw_compare_and_set_inc t q m w1"
    with st w1 cas have inc: "raw_compare_and_set_inc t q m (goto t (CasInc q m) (lose q (set_atomic c (Some q) w))) = Next w'"
      by simp
    note r = cas_whole_inv [OF _ b(1,2) c inc]
    have "inv w" "inv_pcs w" using s by (auto simp: safe_def)
    with inv_pcs_step [OF \<open>inv_pcs w\<close> r(2)] r(1,3) show ?thesis by (simp add: safe_def)
  qed
qed

lemma uc_step_fault:
  assumes s: "safe w" and st: "uc_step e w = Fault f"
  shows "\<exists>t p. e = User t Continue \<and> pc (threads w ! t) = DropNotify p \<and> f = UseAfterFree p"
proof (cases rule: uc_step_cases [of e w])
  case plain
  show ?thesis
  proof (cases e)
    case (User t act)
    with st plain(1) have u: "user_step t act w = Fault f" by simp
    from user_step_fault [OF s u] have "pc (threads w ! t) \<noteq> Idle" by auto
    then have "act = Continue" using u by (auto simp: user_step_def split: if_splits)
    with user_step_fault [OF s u] User show ?thesis by blast
  next
    case Collector
    with st have c: "collector_step w = Fault f" by simp
    then have "pc (threads w ! 0) = Idle" by (simp add: collector_step_def split: if_splits)
    from collector_step_ok [OF s this] c show ?thesis by auto
  qed
next
  case (cas t c m q)
  have i: "inv w" using s by (simp add: safe_def)
  have "user_step t (CompareAndSet c m (Some q)) w \<noteq> Fault f"
    using begin_no_fault [OF i, of t "CompareAndSet c m (Some q)" f] by (auto simp: user_step_def split: if_splits)
  with st cas obtain w1 where w1: "user_step t (CompareAndSet c m (Some q)) w = Next w1"
    and f: "pc (threads w1 ! t) \<noteq> Idle" "user_step t Continue w1 = Fault f"
    by (auto split: outcome.splits if_splits)
  from cas_begin(3) [OF w1] f have "raw_compare_and_set_inc t q m w1 = Fault f" "0 < handles w q"
    "heap w1 q = heap w q"
    by (auto simp: world_ops)
  then have False using handle_alive [OF i, of q] by (auto simp: raw_compare_and_set_inc_def modify_counter_Fault)
  then show ?thesis ..
qed

interpretation sys: invariant_system initial sys_step safe
  by unfold_locales (auto intro: init_safe uc_step_safe elim!: sys_stepE)

lemma reachable_inv: "reachable w \<Longrightarrow> inv w"
  using sys.reach_inv [of w] by (simp add: safe_def)

lemma uc_run_reachable: "reachable w \<Longrightarrow> uc_run es w = Next w' \<Longrightarrow> reachable w'"
proof (induction es w rule: uc_run.induct)
  case (2 e es w)
  then show ?case
    by (auto split: outcome.splits intro: reach_step sys_step.intros)
qed simp

section \<open>What a step can free or change\<close>

text \<open>A step that is not one of \<open>free_pointers\<close> frees nothing and changes content in one way only.\<close>

definition content_kept :: "bool \<Rightarrow> world \<Rightarrow> world \<Rightarrow> ptr \<Rightarrow> bool" where
  "content_kept clr w w' p \<longleftrightarrow>
     (\<forall>a r d. meta (heap w) p = Some (a, r, d) \<longrightarrow>
        (\<exists>r' d'. meta (heap w') p = Some (a, r', d')
           \<and> (d' = d \<or> clr \<and> (\<exists>x. d = WeakSdarcInner (Some x)) \<and> d' = WeakSdarcInner None)))"

lemma begin_content: "begin_op t act w = Next w' \<Longrightarrow> content_kept False w w' p"
  by (cases act) (auto simp: content_kept_def user_op_defs world_ops modify_counter_Next meta_def
      split: if_splits option.splits payload.splits)

lemma continue_content: "continue t x w = Next w' \<Longrightarrow> content_kept False w w' p"
  by (cases x) (auto simp: content_kept_def user_op_defs world_ops modify_counter_Next meta_def
      split: if_splits option.splits payload.splits)

lemma user_content: "user_step t act w = Next w' \<Longrightarrow> content_kept False w w' p"
  using begin_content [of t act w w' p] continue_content [of t _ w w' p]
  by (auto simp: user_step_def split: if_splits)

text \<open>A user thread touches the collector only through the set of counters to re-check.\<close>

lemma user_coll:
  assumes "user_step t act w = Next w'"
  shows "\<exists>xs. coll w' = (coll w)\<lparr>counters_to_recheck := xs\<rparr>" "cpc (coll w) \<noteq> UserDrop \<Longrightarrow> coll w' = coll w"
proof -
  have b: "coll w' = coll w" if "begin_op t act w = Next w'"
    using that by (cases act) (auto simp: user_op_defs world_ops modify_counter_Next
        split: if_splits option.splits payload.splits)
  have c: "\<exists>xs. coll w' = (coll w)\<lparr>counters_to_recheck := xs\<rparr> \<and> (t \<noteq> 0 \<longrightarrow> coll w' = coll w)" if "continue t x w = Next w'" for x
    using that by (cases x) (auto simp: user_op_defs world_ops modify_counter_Next
        intro: exI [of _ "counters_to_recheck (coll w)"] split: if_splits option.splits payload.splits)
  have u: "coll w = (coll w)\<lparr>counters_to_recheck := counters_to_recheck (coll w)\<rparr>" by simp
  show "\<exists>xs. coll w' = (coll w)\<lparr>counters_to_recheck := xs\<rparr>" "cpc (coll w) \<noteq> UserDrop \<Longrightarrow> coll w' = coll w"
    using assms b c u unfolding user_step_def by (metis outcome.distinct(3))+
qed

lemma collector_content:
  assumes "collector_at q w = Next w'" "q \<noteq> Freeing"
  shows "content_kept True w w' p"
  using assms
  by (cases q) (auto simp: content_kept_def collector_defs set_obj_def meta_def
      split: if_splits option.splits payload.splits sum.splits list.splits TrackedCounterState.splits
        ClearWeakBackRefResult.splits prod.splits)

lemma content_kept_alive: "content_kept clr w w' p \<Longrightarrow> heap w p \<noteq> None \<Longrightarrow> heap w' p \<noteq> None"
  by (fastforce simp: content_kept_def meta_def)

text \<open>What \<open>free_pointers\<close> does in a safe state: it frees one dead object, or ends the pass.\<close>

lemma free_step_cases:
  assumes s: "safe w" and pc: "cpc (coll w) = Freeing" and idle: "pc (threads w ! 0) = Idle"
    and st: "free_pointers w = Next w'"
  obtains (ended) "heap w' = heap w"
  | (freed) p where "heap w' = (heap w)(p := None)" "dead w p" "heap w p \<noteq> None"
proof (cases "to_free (coll w)")
  case Nil
  with st show ?thesis by (intro ended) (auto simp: free_pointers_def)
next
  case (Cons a rest)
  have i: "inv w" using s by (simp add: safe_def)
  obtain tc where tc: "map_of (tracked_counters (coll w)) a = Some tc" "tstate tc = ReadyToFree"
    using invD(9) [OF i] Cons unfolding inv_pass_def by fastforce
  have dd: "dead w (fat_ptr tc)" using invD(10) [OF i] tc by (auto simp: inv_ready_def)
  obtain ob where ob: "heap w (fat_ptr tc) = Some ob" "counters_ptr ob = a"
    using inv_trackD(2) [OF invD(8) [OF i] tc(1)] by (auto dest: meta_SomeD)
  have "free_pointers w = Next (Sdarc_Free_Steps.freed a (fat_ptr tc) ob rest w)"
    using drop_sdarc_inner_freed [OF ready_content [OF i dd ob(1)] ob(2)]
    by (simp add: free_pointers_def Cons tc ob)
  with st dd ob(1) show ?thesis by (intro freed [of "fat_ptr tc"]) auto
qed

lemma step_frees:
  assumes s: "safe w" and st: "step e w = Next w'" and p: "heap w p \<noteq> None" "heap w' p = None"
  shows "e = Collector \<and> cpc (coll w) = Freeing \<and> dead w p"
proof (cases e)
  case (User t act)
  with st have "user_step t act w = Next w'" by simp
  from content_kept_alive [OF user_content [OF this] p(1)] p(2) show ?thesis by simp
next
  case Collector
  then have c: "collector_at (cpc (coll w)) w = Next w'" and idle: "pc (threads w ! 0) = Idle"
    using st by (auto simp: collector_step_def split: if_splits)
  have fr: "cpc (coll w) = Freeing"
    using content_kept_alive [OF collector_content [OF c] p(1)] p(2) by blast
  with c have "free_pointers w = Next w'" by simp
  from s fr idle this have "dead w p" by (rule free_step_cases) (use p in \<open>auto split: if_splits\<close>)
  with Collector fr show ?thesis by simp
qed

lemma content_keptD:
  "content_kept clr w w' p \<Longrightarrow> heap w p = Some ob \<Longrightarrow> heap w' p = Some ob' \<Longrightarrow>
     counters_ptr ob' = counters_ptr ob \<and>
     (data ob' = data ob \<or> clr \<and> data ob' = WeakSdarcInner None \<and> (\<exists>x. data ob = WeakSdarcInner (Some x)))"
  by (auto simp: content_kept_def meta_def)

lemma step_content:
  assumes s: "safe w" and st: "step e w = Next w'" and ob: "heap w p = Some ob" "heap w' p = Some ob'"
  shows "counters_ptr ob' = counters_ptr ob \<and>
    (data ob' = data ob \<or> (e = Collector \<and> data ob' = WeakSdarcInner None \<and> (\<exists>x. data ob = WeakSdarcInner (Some x))))"
proof (cases e)
  case (User t act)
  with st have "user_step t act w = Next w'" by simp
  from content_keptD [OF user_content [OF this] ob] show ?thesis by simp
next
  case Collector
  then have c: "collector_at (cpc (coll w)) w = Next w'" and idle: "pc (threads w ! 0) = Idle"
    using st by (auto simp: collector_step_def split: if_splits)
  show ?thesis
  proof (cases "cpc (coll w) = Freeing")
    case True
    with c have "free_pointers w = Next w'" by simp
    from s True idle this have "ob' = ob" by (rule free_step_cases) (use ob in \<open>auto split: if_splits\<close>)
    then show ?thesis by simp
  next
    case False
    from content_keptD [OF collector_content [OF c False] ob] Collector show ?thesis by simp
  qed
qed

end
