(* ===== verification/Sdarc_Functional.thy ===== *)
theory Sdarc_Functional
  imports Sdarc_Safety
begin

text \<open>
  What the operations of \<^verbatim>\<open>src/src/sdarc.rs\<close> compute when nothing comes between their accesses: the
  result each returns and the exact state it leaves. In a reachable state the objects they touch are
  allocated, so the operations succeed.
\<close>

section \<open>Uninterrupted operations\<close>

definition solo :: "nat \<Rightarrow> uaction \<Rightarrow> nat \<Rightarrow> event list" where
  "solo t act k = User t act # replicate k (User t Continue)"

definition user_idle :: "nat \<Rightarrow> world \<Rightarrow> bool" where
  "user_idle t w \<longleftrightarrow> 0 < t \<and> t < length (threads w) \<and> pc (threads w ! t) = Idle"

definition incremented :: "nat \<Rightarrow> ptr \<Rightarrow> world \<Rightarrow> world" where
  "incremented t p w = (case heap w p of None \<Rightarrow> w
     | Some ob \<Rightarrow> set_obj p (ob\<lparr>counters := (counters ob)
         [shard_of t w := itc_increment (counters ob ! shard_of t w)]\<rparr>) w)"

definition decremented :: "nat \<Rightarrow> ptr \<Rightarrow> world \<Rightarrow> world" where
  "decremented t p w = (case heap w p of None \<Rightarrow> w
     | Some ob \<Rightarrow> set_obj p (ob\<lparr>counters := (counters ob)
         [shard_of t w := itc_decrement (counters ob ! shard_of t w)]\<rparr>) w)"

lemmas solo_defs = solo_def user_idle_def incremented_def decremented_def numeral_2_eq_2 numeral_3_eq_3
  user_step_def modify_counter_def world_ops user_op_defs

lemma incremented_threads [simp]: "threads (incremented t p w) = threads w"
  by (simp add: incremented_def set_obj_def split: option.split)

lemma list_update_back [simp]: "xs[i := xs[i := Suc (xs ! i)] ! i - Suc 0] = xs"
  by (cases "i < length xs") (simp_all add: list_update_beyond)

lemma load_null:
  assumes "user_idle t w" "c < length (atomics w)" "atomics w ! c = None"
  shows "run (solo t (Load c) 2) w = Next (return t (RetOpt None) w)"
  using assms by (cases w) (simp add: solo_defs)

lemma load_ptr:
  assumes "user_idle t w" "c < length (atomics w)" "atomics w ! c = Some p" "heap w p \<noteq> None"
  shows "run (solo t (Load c) 3) w = Next (return t (RetOpt (Some p)) (gain p (incremented t p w)))"
  using assms by (cases w) (auto simp: solo_defs)

lemma drop_solo:
  assumes "user_idle t w" "0 < handles w p" "heap w p \<noteq> None"
  shows "run (solo t (Drop p) 2) w = Next (return t NoRet (decremented t p (lose p w)))"
  using assms by (cases w) (auto simp: solo_defs)

lemma upgrade_null:
  assumes "user_idle t w" "0 < handles w q" "heap w q = Some wk" "data wk = WeakSdarcInner None"
  shows "run (solo t (Upgrade q) 2) w = Next (return t (RetOpt None) w)"
  using assms by (cases w) (auto simp: solo_defs)

lemma upgrade_ptr:
  assumes "user_idle t w" "0 < handles w q" "heap w q = Some wk" "data wk = WeakSdarcInner (Some p)"
    and "heap w p \<noteq> None"
  shows "run (solo t (Upgrade q) 3) w = Next (return t (RetOpt (Some p)) (gain p (incremented t p w)))"
  using assms by (cases w) (auto simp: solo_defs fun_eq_iff)

section \<open>Results in reachable states\<close>

text \<open>A concrete reachable state: thread 1 holds object 10, cell 0 holds object 11.\<close>

definition sample_run :: "event list" where
  "sample_run = [User 1 (New 10 20 7), User 1 (New 11 21 8), User 1 (Store 0 (Some 11))]"

definition sample :: world where
  "sample = \<lparr>shards = 1,
     heap = [10 \<mapsto> \<lparr>counters_ptr = 20, counters = [2], weak_inner_ref = None, data = UserData 7\<rparr>,
       11 \<mapsto> \<lparr>counters_ptr = 21, counters = [2], weak_inner_ref = None, data = UserData 8\<rparr>],
     used_slots = {21, 20}, atomics = [Some 11], handles = (\<lambda>_. 0)(10 := 1, 11 := 0),
     threads = [\<lparr>shard_index = 0, pc = Idle, ret = NoRet\<rparr>, \<lparr>shard_index = 0, pc = Idle, ret = NoRet\<rparr>],
     critical = [0], pending_to_track = [[(10, 20), (11, 21)]], coll = init_collector\<rparr>"

lemma run_reachable:
  assumes "uc_run es (init_world n idx m) = Next w" "0 < n" "idx \<noteq> []" "\<forall>i \<in> set idx. i < n"
  shows "reachable w"
proof -
  have "initial (init_world n idx m)" using assms(2-) unfolding initial_def by blast
  then show ?thesis using uc_run_reachable [OF reach_init assms(1)] by blast
qed

lemma sample_reachable: "reachable sample"
proof (rule run_reachable)
  show "uc_run sample_run (init_world 1 [0, 0] 1) = Next sample"
    by (simp add: sample_run_def sample_def exec_defs)
qed simp_all

lemma sample_idle: "user_idle 1 sample"
  by (simp add: user_idle_def sample_def)

text \<open>
  C23: \<open>AtomicNullableSdarc::load\<close>. In a reachable state, an uninterrupted load of a null cell
  returns \<open>None\<close> and leaves the state as it was; of a cell holding \<open>p\<close> it returns an owned handle to
  \<open>p\<close>, whose counter in the thread's shard has grown by one. The critical-section counter is back at
  its old value.
\<close>

theorem load_correct:
  assumes "reachable w" "user_idle t w" "c < length (atomics w)"
  shows "case atomics w ! c of
      None \<Rightarrow> run (solo t (Load c) 2) w = Next (return t (RetOpt None) w)
    | Some p \<Rightarrow> heap w p \<noteq> None
        \<and> run (solo t (Load c) 3) w = Next (return t (RetOpt (Some p)) (gain p (incremented t p w)))"
proof (cases "atomics w ! c")
  case None
  then show ?thesis using load_null [OF assms(2,3)] by simp
next
  case (Some p)
  have "heap w p \<noteq> None"
    using invD(4) [OF reachable_inv [OF assms(1)]] strong_cell [OF assms(3) Some] by (simp add: inv_alive_def)
  with Some show ?thesis using load_ptr [OF assms(2,3) Some] by simp
qed

theorem load_correct_witness:
  "run (solo 1 (Load 0) 3) sample = Next (return 1 (RetOpt (Some 11)) (gain 11 (incremented 1 11 sample)))"
proof -
  have "0 < length (atomics sample)" "atomics sample ! 0 = Some 11" by (simp_all add: sample_def)
  with load_correct [OF sample_reachable sample_idle, of 0] show ?thesis by simp
qed

text \<open>
  \<open>store\<close> then \<open>load\<close>: in a reachable state, a handle stored into a null cell comes back from the
  cell: the load returns the same pointer, the thread owns as many handles as before and the cell
  holds one more reference, which the object's counter in this shard records.
\<close>

lemma store_load_roundtrip:
  assumes "reachable w" "user_idle t w" "c < length (atomics w)" "atomics w ! c = None" "0 < handles w p"
  shows "\<exists>w'. run (User t (Store c (Some p)) # solo t (Load c) 3) w = Next w'
     \<and> ret (threads w' ! t) = RetOpt (Some p) \<and> handles w' p = handles w p
     \<and> atomics w' = (atomics w)[c := Some p] \<and> heap w' = heap (incremented t p w)"
proof -
  let ?w = "return t NoRet (set_atomic c (Some p) (lose p w))"
  have t: "t < length (threads w)" using assms(2) by (simp add: user_idle_def)
  have st: "step (User t (Store c (Some p))) w = Next ?w"
    using assms(2-) by (simp add: user_step_def AtomicNullableSdarc_store_def user_idle_def)
  have "heap w p \<noteq> None" using handle_alive [OF reachable_inv [OF assms(1)] assms(5)] .
  moreover have "user_idle t ?w" using assms(2) by (simp add: user_idle_def world_ops)
  ultimately have "run (solo t (Load c) 3) ?w = Next (return t (RetOpt (Some p)) (gain p (incremented t p ?w)))"
    using assms(3) by (intro load_ptr) (simp_all add: world_ops)
  with st show ?thesis
    using \<open>heap w p \<noteq> None\<close> t assms(5) by (auto simp: incremented_def world_ops)
qed

text \<open>A reachable state with a null cell.\<close>

definition sample_null :: world where
  "sample_null = \<lparr>shards = 1,
     heap = [10 \<mapsto> \<lparr>counters_ptr = 20, counters = [2], weak_inner_ref = None, data = UserData 7\<rparr>],
     used_slots = {20}, atomics = [None], handles = (\<lambda>_. 0)(10 := 1),
     threads = [\<lparr>shard_index = 0, pc = Idle, ret = NoRet\<rparr>, \<lparr>shard_index = 0, pc = Idle, ret = RetSdarc 10\<rparr>],
     critical = [0], pending_to_track = [[(10, 20)]], coll = init_collector\<rparr>"

lemma sample_null_reachable: "reachable sample_null"
proof (rule run_reachable)
  show "uc_run [User 1 (New 10 20 7)] (init_world 1 [0, 0] 1) = Next sample_null"
    by (simp add: sample_null_def exec_defs)
qed simp_all

lemma sample_null_idle: "user_idle 1 sample_null"
  by (simp add: user_idle_def sample_null_def)

text \<open>
  \<open>clone\<close> then \<open>drop\<close>: in a reachable state, cloning a handle and dropping the clone leaves the
  number of handles, the weak reference, the content and the sum of the counters as they were, but
  the counter of the thread's shard is now tagged: the trace that makes a re-check by the collector
  start over.
\<close>

lemma clone_drop_leaves_tag:
  assumes "reachable w" "user_idle t w" "0 < handles w p" "heap w p = Some ob"
  shows "\<exists>w' ob'. run (User t (Clone p) # solo t (Drop p) 2) w = Next w' \<and> heap w' p = Some ob'
     \<and> handles w' p = handles w p \<and> rc_sum itc_ref_count (counters ob') = rc_sum itc_ref_count (counters ob)
     \<and> itc_tag (counters ob' ! shard_of t w) \<and> weak_inner_ref ob' = weak_inner_ref ob \<and> data ob' = data ob"
proof -
  note i = reachable_inv [OF assms(1)]
  have t: "t < length (threads w)" using assms(2) by (simp add: user_idle_def)
  have s: "shard_of t w < length (counters ob)"
    using thread_shard [OF i t] invD(2) [OF i] assms(4) by (simp add: inv_len_def shard_of_def)
  let ?w = "return t (RetSdarc p) (gain p (incremented t p w))"
  have "step (User t (Clone p)) w = Next ?w"
    using assms(2-4) by (simp add: solo_defs)
  moreover have "run (solo t (Drop p) 2) ?w = Next (return t NoRet (decremented t p (lose p ?w)))"
    by (rule drop_solo) (use assms(2-4) in \<open>simp_all add: solo_defs\<close>)
  moreover have "heap (return t NoRet (decremented t p (lose p ?w))) p =
      Some (ob\<lparr>counters := (counters ob)[shard_of t w := itc_decrement (itc_increment (counters ob ! shard_of t w))]\<rparr>)"
    using assms(4) t s by (simp add: incremented_def decremented_def world_ops)
  moreover have "rc_sum itc_ref_count ((counters ob)[shard_of t w := itc_decrement (itc_increment (counters ob ! shard_of t w))])
      = rc_sum itc_ref_count (counters ob)"
    using itc.sum_dec [of "shard_of t w" "(counters ob)[shard_of t w := itc_increment (counters ob ! shard_of t w)]"]
      itc.sum_inc [OF s] s by simp
  moreover have "itc_tag (itc_decrement v)" for v by (simp add: itc_arith)
  moreover have "handles (return t NoRet (decremented t p (lose p ?w))) p = handles w p"
    using assms(4) by (simp add: incremented_def decremented_def world_ops)
  ultimately show ?thesis using s by simp
qed

text \<open>
  C24: \<open>downgrade\<close> then \<open>upgrade\<close>. In a reachable state, the first downgrade of an object followed by
  an upgrade of the weak handle gives back a strong handle to the same object; both handles are
  counted.
\<close>

theorem downgrade_upgrade_roundtrip:
  assumes "reachable w" "user_idle t w" "0 < handles w p" "heap w p = Some ob" "weak_inner_ref ob = None"
    and "can_allocate q a w"
  shows "\<exists>w'. run (solo t (Downgrade p q a) 1 @ solo t (Upgrade q) 3) w = Next w'
     \<and> ret (threads w' ! t) = RetOpt (Some p)
     \<and> handles w' p = handles w p + 1 \<and> handles w' q = handles w q + 1
     \<and> (\<exists>ob'. heap w' p = Some ob' \<and> weak_inner_ref ob' = Some q)"
proof -
  note i = reachable_inv [OF assms(1)]
  have qp: "q \<noteq> p" using assms(4,6) by (auto simp: can_allocate_def)
  let ?w = "gain q (lose p (set_obj p (ob\<lparr>weak_inner_ref := Some q\<rparr>)
       (allocate t q a (WeakSdarcInner (Some p)) w)))"
  let ?w1 = "return t (RetSdarc q) (incremented t q (gain p ?w))"
  have d: "run (solo t (Downgrade p q a) 1) w = Next ?w1"
    using assms(2-6) qp by (cases w) (auto simp: solo_defs fun_eq_iff)
  obtain wk where wk: "heap ?w1 q = Some wk" "data wk = WeakSdarcInner (Some p)"
    using qp by (simp add: incremented_def world_ops)
  have "run (solo t (Upgrade q) 3) ?w1 = Next (return t (RetOpt (Some p)) (gain p (incremented t p ?w1)))"
    by (rule upgrade_ptr [OF _ _ wk]) (use assms(2) qp in \<open>simp_all add: user_idle_def incremented_def world_ops\<close>)
  with d have "run (solo t (Downgrade p q a) 1 @ solo t (Upgrade q) 3) w =
      Next (return t (RetOpt (Some p)) (gain p (incremented t p ?w1)))"
    by (simp add: run_append)
  then show ?thesis
    using assms(2-4) qp by (auto simp: user_idle_def incremented_def world_ops)
qed

theorem downgrade_upgrade_roundtrip_witness:
  "\<exists>w'. run (solo 1 (Downgrade 10 12 22) 1 @ solo 1 (Upgrade 12) 3) sample = Next w'
     \<and> ret (threads w' ! 1) = RetOpt (Some 10)
     \<and> handles w' 10 = handles sample 10 + 1 \<and> handles w' 12 = handles sample 12 + 1
     \<and> (\<exists>ob'. heap w' 10 = Some ob' \<and> weak_inner_ref ob' = Some 12)"
  by (rule downgrade_upgrade_roundtrip [OF sample_reachable sample_idle,
        where ob = "\<lparr>counters_ptr = 20, counters = [2], weak_inner_ref = None, data = UserData 7\<rparr>"])
    (simp_all add: sample_def can_allocate_def)

section \<open>Cells that are never null\<close>

text \<open>
  \<open>AtomicSdarc\<close> wraps a cell and only ever puts non-null pointers into it. Its operations are those of
  \<open>AtomicNullableSdarc\<close> with the option unwrapped.
\<close>

datatype asdarc_op = ALoad | ASwap ptr | AStore ptr | ACompareAndSet ptr ptr

fun AtomicSdarc_action :: "nat \<Rightarrow> asdarc_op \<Rightarrow> uaction" where
  "AtomicSdarc_action c ALoad = Load c"
| "AtomicSdarc_action c (ASwap p) = Swap c (Some p)"
| "AtomicSdarc_action c (AStore p) = Store c (Some p)"
| "AtomicSdarc_action c (ACompareAndSet m p) = CompareAndSet c (Some m) (Some p)"

text \<open>What the wrapper returns, given what the wrapped operation returned: \<open>unwrap\<close> panics on \<open>None\<close>.\<close>

fun AtomicSdarc_result :: "asdarc_op \<Rightarrow> ret \<Rightarrow> ret result" where
  "AtomicSdarc_result (AStore p) r = Inr r"
| "AtomicSdarc_result op (RetOpt (Some p)) = Inr (RetSdarc p)"
| "AtomicSdarc_result op (RetOpt None) = Inl UnwrapNone"
| "AtomicSdarc_result op r = Inr r"

text \<open>
  The cells that are \<open>AtomicSdarc\<close>s: every action on such a cell is one of the above. The destructor,
  which stores null, needs the only reference to the cell and is not among its actions.
\<close>

fun cell_of :: "uaction \<Rightarrow> nat option" where
  "cell_of (Load c) = Some c"
| "cell_of (Swap c x) = Some c"
| "cell_of (Store c x) = Some c"
| "cell_of (CompareAndSet c m x) = Some c"
| "cell_of (DropAtomic c) = Some c"
| "cell_of _ = None"

fun is_asdarc_action :: "uaction \<Rightarrow> bool" where
  "is_asdarc_action (Swap c None) = False"
| "is_asdarc_action (Store c None) = False"
| "is_asdarc_action (CompareAndSet c m None) = False"
| "is_asdarc_action (CompareAndSet c None x) = False"
| "is_asdarc_action (DropAtomic c) = False"
| "is_asdarc_action _ = True"

fun wrapped :: "nat \<Rightarrow> event \<Rightarrow> bool" where
  "wrapped c (User t act) = (cell_of act = Some c \<longrightarrow> is_asdarc_action act)"
| "wrapped c Collector = True"

lemma asdarc_actions: "is_asdarc_action act \<Longrightarrow> cell_of act = Some c \<Longrightarrow> \<exists>op. act = AtomicSdarc_action c op"
  by (cases act rule: is_asdarc_action.cases)
    (auto intro: exI [of _ ALoad] exI [of _ "ASwap _"] exI [of _ "AStore _"] exI [of _ "ACompareAndSet _ _"])

lemma user_step_cell:
  assumes "user_step t act w = Next w'" "wrapped c (User t act)" "c < length (atomics w)" "atomics w ! c \<noteq> None"
  shows "c < length (atomics w') \<and> atomics w' ! c \<noteq> None"
proof -
  have "c < length (atomics w') \<and> atomics w' ! c \<noteq> None" if "begin_op t act w = Next w'"
    using that assms(2-)
    by (cases act rule: is_asdarc_action.cases)
      (auto simp: user_op_defs world_ops modify_counter_Next nth_list_update nth_append
        split: if_splits option.splits payload.splits)
  moreover have "c < length (atomics w') \<and> atomics w' ! c \<noteq> None" if "continue t x w = Next w'" for x
    using that assms(3-)
    by (cases x) (auto simp: user_op_defs world_ops modify_counter_Next split: if_splits option.splits payload.splits)
  ultimately show ?thesis using assms(1) by (auto simp: user_step_def split: if_splits)
qed

lemma collector_cell: "collector_step w = Next w' \<Longrightarrow> atomics w' = atomics w"
  by (cases "cpc (coll w)") (auto simp: collector_step_def collector_defs set_obj_def free_pointers_def
      drop_sdarc_inner_def goto_def set_thread_def Let_def
      split: if_splits option.splits payload.splits sum.splits list.splits TrackedCounterState.splits
        ClearWeakBackRefResult.splits prod.splits)

lemma uc_step_cell:
  assumes "uc_step e w = Next w'" "wrapped c e" "c < length (atomics w)" "atomics w ! c \<noteq> None"
  shows "c < length (atomics w') \<and> atomics w' ! c \<noteq> None"
proof (cases e)
  case Collector
  then show ?thesis using assms collector_cell [of w w'] by simp
next
  case (User t act)
  show ?thesis
  proof (cases rule: uc_step_cases [of e w])
    case plain
    then show ?thesis using user_step_cell [of t act w w' c] assms User by simp
  next
    case (cas t' c' m q)
    with assms(1) obtain w1 where w1: "user_step t act w = Next w1" "w' = w1 \<or> user_step t Continue w1 = Next w'"
      using User by (auto split: outcome.splits if_splits)
    have "c < length (atomics w1) \<and> atomics w1 ! c \<noteq> None"
      using user_step_cell [OF w1(1), of c] assms User by simp
    then show ?thesis
      using w1(2) user_step_cell [of t Continue w1 w' c] assms(3) by (auto simp del: not_None_eq)
  qed
qed

lemma uc_run_cell:
  "uc_run es w = Next w' \<Longrightarrow> list_all (wrapped c) es \<Longrightarrow> c < length (atomics w) \<Longrightarrow> atomics w ! c \<noteq> None \<Longrightarrow>
     c < length (atomics w') \<and> atomics w' ! c \<noteq> None"
proof (induction es w rule: uc_run.induct)
  case (2 e es w)
  then show ?case using uc_step_cell [of e w _ c] by (fastforce split: outcome.splits)
qed simp



end
