(* ===== verification/Sdarc_Weak.thy ===== *)
theory Sdarc_Weak
  imports Sdarc_Functional
begin

text \<open>
  Weak references of \<^verbatim>\<open>src/src/sdarc.rs\<close>. An object and its \<open>WeakSdarcInner\<close> point at each other until
  the collector clears the \<open>back_ref\<close>; and it clears it only after the strong count has been zero. The
  second fact is the documented promise of \<open>WeakSdarc::upgrade\<close>: while the strong count never reaches
  zero, an upgrade succeeds.
\<close>

section \<open>What a step does to a weak reference\<close>

lemma begin_weak:
  assumes "begin_op t act w = Next w'" "heap w p = Some ob"
  shows "\<exists>ob'. heap w' p = Some ob' \<and> (weak_inner_ref ob' = weak_inner_ref ob
     \<or> (\<exists>q wk. weak_inner_ref ob = None \<and> weak_inner_ref ob' = Some q \<and> heap w' q = Some wk
          \<and> data wk = WeakSdarcInner (Some p)))"
  using assms
  by (cases act) (auto simp: user_op_defs world_ops modify_counter_Next split: if_splits option.splits payload.splits)

lemma continue_weak:
  assumes "continue t x w = Next w'" "heap w p = Some ob"
  shows "\<exists>ob'. heap w' p = Some ob' \<and> weak_inner_ref ob' = weak_inner_ref ob"
  using assms
  by (cases x) (auto simp: user_op_defs world_ops modify_counter_Next split: if_splits option.splits payload.splits)

lemma user_weak:
  assumes "user_step t act w = Next w'" "heap w p = Some ob"
  shows "\<exists>ob'. heap w' p = Some ob' \<and> (weak_inner_ref ob' = weak_inner_ref ob
     \<or> (\<exists>q wk. weak_inner_ref ob = None \<and> weak_inner_ref ob' = Some q \<and> heap w' q = Some wk
          \<and> data wk = WeakSdarcInner (Some p)))"
  using begin_weak [OF _ assms(2), of t act w'] continue_weak [OF _ assms(2), of t _ w'] assms(1)
  unfolding user_step_def by (metis outcome.distinct(3))

text \<open>New objects have no weak reference.\<close>

lemma user_fresh:
  assumes "user_step t act w = Next w'" "heap w p = None" "heap w' p = Some ob"
  shows "weak_inner_ref ob = None"
proof -
  have "weak_inner_ref ob = None" if "begin_op t act w = Next w'"
    using that assms(2,3)
    by (cases act) (auto simp: user_op_defs world_ops modify_counter_Next split: if_splits option.splits payload.splits)
  moreover have "weak_inner_ref ob = None" if "continue t x w = Next w'" for x
    using that assms(2,3)
    by (cases x) (auto simp: user_op_defs world_ops modify_counter_Next split: if_splits option.splits payload.splits)
  ultimately show ?thesis using assms(1) unfolding user_step_def by (metis outcome.distinct(3))
qed

lemma user_keeps_data:
  assumes "user_step t act w = Next w'" "heap w q = Some wk"
  shows "\<exists>wk'. heap w' q = Some wk' \<and> data wk' = data wk"
  using user_content [OF assms(1), of q] assms(2) by (fastforce simp: content_kept_def meta_def)

text \<open>The counters of an object change by single increments and decrements.\<close>

lemma user_evidence:
  assumes "user_step t act w = Next w'" "heap w p = Some ob" "heap w' p = Some ob'"
    and ev: "scan_evidence itc_ref_count itc_tag k (counters ob) i acc"
  shows "scan_evidence itc_ref_count itc_tag k (counters ob') i acc"
proof -
  have e: "scan_evidence itc_ref_count itc_tag k ((counters ob)[s := itc_increment (counters ob ! s)]) i acc"
    "scan_evidence itc_ref_count itc_tag k ((counters ob)[s := itc_decrement (counters ob ! s)]) i acc" for s
    using itc.evidence_inc [OF _ ev, of s] itc.evidence_dec [OF _ ev, of s] ev
    by (cases "s < length (counters ob)"; simp add: list_update_beyond)+
  have "scan_evidence itc_ref_count itc_tag k (counters ob') i acc" if "begin_op t act w = Next w'"
    using that assms(2,3) e ev
    by (cases act) (auto simp: user_op_defs world_ops modify_counter_Next split: if_splits option.splits payload.splits)
  moreover have "scan_evidence itc_ref_count itc_tag k (counters ob') i acc" if "continue t x w = Next w'" for x
    using that assms(2,3) e ev
    by (cases x) (auto simp: user_op_defs world_ops modify_counter_Next split: if_splits option.splits payload.splits)
  ultimately show ?thesis using assms(1) unfolding user_step_def by (metis outcome.distinct(3))
qed

lemma user_cpc: "user_step t act w = Next w' \<Longrightarrow> cpc (coll w') = cpc (coll w)"
  using user_coll(1) by fastforce

text \<open>The collector keeps weak references and clears a back reference only at its owner.\<close>

lemma collector_weak_ref:
  assumes "collector_at x w = Next w'" "heap w' p = Some ob'"
  shows "\<exists>ob. heap w p = Some ob \<and> weak_inner_ref ob' = weak_inner_ref ob"
  using assms
  by (cases x) (auto simp: collector_defs set_obj_def free_pointers_def drop_sdarc_inner_def goto_def set_thread_def Let_def
      split: if_splits option.splits payload.splits sum.splits list.splits TrackedCounterState.splits
        ClearWeakBackRefResult.splits prod.splits)

lemma collector_clears:
  assumes "collector_at x w = Next w'" "heap w q = Some wk" "heap w' q = Some wk'" "data wk' \<noteq> data wk"
  shows "\<exists>a p ob. x = ClearWeak a p \<and> heap w p = Some ob \<and> weak_inner_ref ob = Some q"
  using assms
  by (cases x) (auto simp: collector_defs set_obj_def free_pointers_def drop_sdarc_inner_def goto_def set_thread_def Let_def
      split: if_splits option.splits payload.splits sum.splits list.splits TrackedCounterState.splits
        ClearWeakBackRefResult.splits prod.splits)

lemma owned_kept:
  assumes s: "safe w" and st: "collector_step w = Next w'"
    and p: "heap w p = Some ob" "weak_inner_ref ob = Some q" and q: "heap w q = Some wk"
  shows "\<exists>wk'. heap w' q = Some wk' \<and> (data wk' = data wk
     \<or> ((\<exists>a. cpc (coll w) = ClearWeak a p) \<and> data wk' = WeakSdarcInner None))"
proof -
  have c: "collector_at (cpc (coll w)) w = Next w'" using st by (simp add: collector_step_def split: if_splits)
  have i: "inv w" using s by (simp add: safe_def)
  have "0 < strong w q" using owned_weak_ref [where h = "heap w", OF p] by (simp add: strong_def)
  then have "heap w' q \<noteq> None" using step_frees [OF s, of Collector w' q] st q by (auto simp: dead_def)
  then obtain wk' where wk': "heap w' q = Some wk'" by auto
  have "\<exists>a. cpc (coll w) = ClearWeak a p" if "data wk' \<noteq> data wk"
  proof -
    from collector_clears [OF c q wk' that] obtain a p' ob' where p': "cpc (coll w) = ClearWeak a p'"
      "heap w p' = Some ob'" "weak_inner_ref ob' = Some q" by blast
    have "p' = p"
      using invD(6) [OF i] meta_SomeI [of "heap w", OF p(1)] meta_SomeI [of "heap w", OF p'(2)] p(2) p'(3)
      unfolding inv_weak_def by metis
    with p' show ?thesis by blast
  qed
  then show ?thesis using step_content [OF s, of Collector w' q wk wk'] st q wk' by auto
qed

section \<open>The two objects of a weak reference\<close>

text \<open>
  An object with a weak reference owns an object that is a \<open>WeakSdarcInner\<close>, whose \<open>back_ref\<close> is null or
  points back.
\<close>

definition weak_linked :: "world \<Rightarrow> bool" where
  "weak_linked w \<longleftrightarrow> (\<forall>p ob q. heap w p = Some ob \<longrightarrow> weak_inner_ref ob = Some q \<longrightarrow>
     (\<exists>wk. heap w q = Some wk \<and> (data wk = WeakSdarcInner (Some p) \<or> data wk = WeakSdarcInner None)))"

lemma user_linked:
  assumes "weak_linked w" "user_step t act w = Next w'"
  shows "weak_linked w'"
  unfolding weak_linked_def
proof (intro allI impI)
  fix p ob' q assume p: "heap w' p = Some ob'" "weak_inner_ref ob' = Some q"
  then obtain ob where ob: "heap w p = Some ob" using user_fresh [OF assms(2), of p ob'] by fastforce
  from user_weak [OF assms(2) ob] p consider "weak_inner_ref ob = Some q"
    | wk where "heap w' q = Some wk" "data wk = WeakSdarcInner (Some p)" by auto
  then show "\<exists>wk. heap w' q = Some wk \<and> (data wk = WeakSdarcInner (Some p) \<or> data wk = WeakSdarcInner None)"
  proof cases
    case 1
    then show ?thesis
      using assms(1) ob user_keeps_data [OF assms(2), of q] unfolding weak_linked_def by metis
  qed blast
qed

lemma collector_linked:
  assumes s: "safe w" and l: "weak_linked w" and st: "collector_step w = Next w'"
  shows "weak_linked w'"
  unfolding weak_linked_def
proof (intro allI impI)
  fix p ob' q assume p: "heap w' p = Some ob'" "weak_inner_ref ob' = Some q"
  have "collector_at (cpc (coll w)) w = Next w'" using st by (simp add: collector_step_def split: if_splits)
  from collector_weak_ref [OF this p(1)] p(2) obtain ob where ob: "heap w p = Some ob" "weak_inner_ref ob = Some q"
    by auto
  with l obtain wk where wk: "heap w q = Some wk" "data wk = WeakSdarcInner (Some p) \<or> data wk = WeakSdarcInner None"
    unfolding weak_linked_def by blast
  from owned_kept [OF s st ob wk(1)] wk(2)
  show "\<exists>wk. heap w' q = Some wk \<and> (data wk = WeakSdarcInner (Some p) \<or> data wk = WeakSdarcInner None)" by metis
qed

lemma init_linked: "initial w \<Longrightarrow> weak_linked w"
  by (auto simp: initial_def weak_linked_def)

interpretation linked: invariant_system initial sys_step "\<lambda>w. safe w \<and> weak_linked w"
proof
  show "safe s \<and> weak_linked s" if "initial s" for s using that init_safe init_linked by blast
  show "safe s' \<and> weak_linked s'" if h: "safe s \<and> weak_linked s" "sys_step s s'" for s s'
  proof -
    from h(2) obtain e where e: "uc_step e s = Next s'" by (blast elim: sys_stepE)
    then show ?thesis
      using uc_step_safe [OF _ e] uc_step_keeps [OF e, of weak_linked] user_linked collector_linked h(1) by blast
  qed
qed

section \<open>Upgrading while the object is alive\<close>

text \<open>The strong count of \<open>p\<close> has been positive in every state since the object was created.\<close>

inductive held_since_creation :: "ptr \<Rightarrow> world \<Rightarrow> bool" for p where
  created: "reachable w \<Longrightarrow> heap w p = None \<Longrightarrow> sys_step w w' \<Longrightarrow> 0 < strong w' p \<Longrightarrow> held_since_creation p w'"
| step: "held_since_creation p w \<Longrightarrow> sys_step w w' \<Longrightarrow> 0 < strong w' p \<Longrightarrow> held_since_creation p w'"

lemma held_reachable: "held_since_creation p w \<Longrightarrow> reachable w \<and> 0 < strong w p"
  by (induction rule: held_since_creation.induct) (auto intro: reach_step)

text \<open>
  The back reference of \<open>p\<close> is set, and a re-check of \<open>p\<close> in progress will find a tag or a positive
  sum.
\<close>

definition back_ref_set :: "ptr \<Rightarrow> world \<Rightarrow> bool" where
  "back_ref_set p w \<longleftrightarrow> (\<forall>ob q. heap w p = Some ob \<longrightarrow> weak_inner_ref ob = Some q \<longrightarrow>
     (\<exists>wk. heap w q = Some wk \<and> data wk = WeakSdarcInner (Some p)))"

definition not_confirmed :: "ptr \<Rightarrow> world \<Rightarrow> bool" where
  "not_confirmed p w \<longleftrightarrow> (\<forall>a. cpc (coll w) \<noteq> ClearWeak a p)
   \<and> (\<forall>a i acc. cpc (coll w) = ReCheck a p i acc \<longrightarrow>
        (\<exists>ob. heap w p = Some ob \<and> scan_evidence itc_ref_count itc_tag 1 (counters ob) i acc))"

lemma user_back_ref:
  assumes "back_ref_set p w \<and> not_confirmed p w" "user_step t act w = Next w'"
  shows "back_ref_set p w' \<and> not_confirmed p w'"
proof (cases "heap w p")
  case None
  then have "cpc (coll w) \<noteq> ReCheck a p i acc" for a i acc using assms(1) by (auto simp: not_confirmed_def)
  then have "not_confirmed p w'" using assms(1) by (auto simp: not_confirmed_def user_cpc [OF assms(2)])
  moreover have "back_ref_set p w'" using user_fresh [OF assms(2) None] by (auto simp: back_ref_set_def)
  ultimately show ?thesis by simp
next
  case (Some ob)
  from user_weak [OF assms(2) Some] obtain ob' where ob': "heap w' p = Some ob'"
    and r: "weak_inner_ref ob' = weak_inner_ref ob \<or> (\<exists>q wk. weak_inner_ref ob = None \<and> weak_inner_ref ob' = Some q
        \<and> heap w' q = Some wk \<and> data wk = WeakSdarcInner (Some p))" by blast
  have "back_ref_set p w'"
    using r Some ob' assms(1) user_keeps_data [OF assms(2)] unfolding back_ref_set_def
    by (metis option.inject option.distinct(1))
  moreover have "not_confirmed p w'"
    using assms(1) user_evidence [OF assms(2) Some ob'] Some ob'
    unfolding not_confirmed_def user_cpc [OF assms(2)] by auto
  ultimately show ?thesis by simp
qed

lemma collector_not_confirmed:
  assumes i: "inv w" and nc: "not_confirmed p w" and pos: "0 < strong w p"
    and c: "collector_at (cpc (coll w)) w = Next w'"
  shows "not_confirmed p w'"
proof -
  obtain ob where ob: "heap w p = Some ob" using invD(4) [OF i] pos by (auto simp: inv_alive_def)
  have sum: "1 \<le> rc_sum itc_ref_count (counters ob)" using invD(3) [OF i] ob pos by (simp add: inv_count_def)
  show ?thesis
  proof (cases "cpc (coll w)")
    case Visit
    with c ob itc.evidence_start [OF sum] show ?thesis
      by (auto simp: not_confirmed_def visit_def cgoto_def split: list.splits option.splits TrackedCounterState.splits)
  next
    case (ReCheck a p' n acc)
    show ?thesis
    proof (cases "p' = p")
      case True
      with nc ReCheck ob have ev: "scan_evidence itc_ref_count itc_tag 1 (counters ob) n acc"
        by (auto simp: not_confirmed_def)
      have n: "n \<le> length (counters ob)" using invD(2,12) [OF i] ReCheck True ob by (auto simp: inv_recheck_def inv_len_def)
      then have "acc \<noteq> 0" if "\<not> n < shards w"
        using that itc.evidence_end [of 1 "counters ob" acc] ev invD(2) [OF i] ob by (auto simp: inv_len_def)
      then show ?thesis
        using c ReCheck True ob itc.evidence_read [OF _ _ ev] invD(2) [OF i]
        by (auto simp: not_confirmed_def read_ref_count_sum_if_all_tags_unset_acquire_def at_slot_def cgoto_def
            finish_visit_def inv_len_def split: if_splits option.splits)
    next
      case False
      with c ReCheck show ?thesis
        by (auto simp: not_confirmed_def read_ref_count_sum_if_all_tags_unset_acquire_def at_slot_def cgoto_def
            finish_visit_def split: if_splits option.splits)
    qed
  qed (use c in \<open>auto simp: not_confirmed_def collector_defs set_obj_def free_pointers_def drop_sdarc_inner_def goto_def
      set_thread_def Let_def finish_visit_def start_pass_def end_pass_def
      split: if_splits option.splits payload.splits sum.splits list.splits ClearWeakBackRefResult.splits prod.splits\<close>)
qed

lemma collector_back_ref:
  assumes s: "safe w" and b: "back_ref_set p w" and nc: "not_confirmed p w" and st: "collector_step w = Next w'"
  shows "back_ref_set p w'"
  unfolding back_ref_set_def
proof (intro allI impI)
  fix ob' q assume p: "heap w' p = Some ob'" "weak_inner_ref ob' = Some q"
  have "collector_at (cpc (coll w)) w = Next w'" using st by (simp add: collector_step_def split: if_splits)
  from collector_weak_ref [OF this p(1)] p(2) obtain ob where ob: "heap w p = Some ob" "weak_inner_ref ob = Some q"
    by auto
  with b obtain wk where wk: "heap w q = Some wk" "data wk = WeakSdarcInner (Some p)"
    unfolding back_ref_set_def by blast
  from owned_kept [OF s st ob wk(1)] nc wk(2)
  show "\<exists>wk. heap w' q = Some wk \<and> data wk = WeakSdarcInner (Some p)" by (auto simp: not_confirmed_def)
qed

lemma unborn_not_confirmed: "inv w \<Longrightarrow> heap w p = None \<Longrightarrow> back_ref_set p w \<and> not_confirmed p w"
proof -
  assume i: "inv w" and p: "heap w p = None"
  have v: "visiting (cpc (coll w)) \<noteq> Some (a, p)" for a
    using p invD(9) [OF i] tracked_alive [OF invD(8) [OF i]] unfolding inv_pass_def by metis
  have "cpc (coll w) \<noteq> ClearWeak a p" "cpc (coll w) \<noteq> ReCheck a p j acc" for a j acc
    using v [of a] by auto
  then show ?thesis using p by (auto simp: back_ref_set_def not_confirmed_def)
qed

lemma held_back_ref: "held_since_creation p w \<Longrightarrow> back_ref_set p w \<and> not_confirmed p w"
proof (induction rule: held_since_creation.induct)
  case (created w w')
  from created(3) obtain e where e: "uc_step e w = Next w'" by (blast elim: sys_stepE)
  note i = reachable_inv [OF created(1)] and i' = reachable_inv [OF reach_step [OF created(1,3)]]
  obtain ob where ob: "heap w' p = Some ob" using created(4) invD(4) [OF i'] by (auto simp: inv_alive_def)
  have "collector_step w \<noteq> Next w'"
    using collector_weak_ref [of "cpc (coll w)" w w' p ob] ob created(2)
    by (auto simp: collector_step_def split: if_splits)
  then show ?case
    using uc_step_keeps [OF e, of "\<lambda>w. back_ref_set p w \<and> not_confirmed p w"]
      unborn_not_confirmed [OF i created(2)] user_back_ref by blast
next
  case (step w w')
  from step(2) obtain e where e: "uc_step e w = Next w'" by (blast elim: sys_stepE)
  have s: "safe w" "inv w" "0 < strong w p"
    using held_reachable [OF step(1)] sys.reach_inv [of w] by (auto simp: safe_def)
  have "back_ref_set p w' \<and> not_confirmed p w'" if "collector_step w = Next w'"
    using collector_back_ref [OF s(1) _ _ that] collector_not_confirmed [OF s(2) _ s(3), of w'] that step.IH
    by (auto simp: collector_step_def split: if_splits)
  then show ?case
    using uc_step_keeps [OF e, of "\<lambda>w. back_ref_set p w \<and> not_confirmed p w"] user_back_ref step.IH by blast
qed

text \<open>
  C25: the documented promise of \<open>WeakSdarc::upgrade\<close>. If the strong count of an object has never
  reached zero since the object was created, whatever user threads and collector have done, then an
  upgrade of its weak handle, not interrupted, succeeds: it returns a handle to the object and counts
  it in the shard of the thread.
\<close>

theorem upgrade_succeeds_while_held:
  assumes "held_since_creation p w" "heap w p = Some ob" "weak_inner_ref ob = Some q"
    and "user_idle t w" "0 < handles w q"
  shows "run (solo t (Upgrade q) 3) w = Next (return t (RetOpt (Some p)) (gain p (incremented t p w)))"
proof -
  from held_back_ref [OF assms(1)] assms(2,3) obtain wk where "heap w q = Some wk" "data wk = WeakSdarcInner (Some p)"
    unfolding back_ref_set_def by blast
  then show ?thesis using upgrade_ptr [OF assms(4,5)] assms(2) by simp
qed

text \<open>
  Thread 1 has created object 10 (\<open>weak_born\<close>), is in the middle of a downgrade (\<open>weak_middle\<close>), and has
  obtained a weak handle (\<open>weak_world\<close>).
\<close>

definition weak_born :: world where
  "weak_born = \<lparr>shards = 1,
     heap = [10 \<mapsto> \<lparr>counters_ptr = 20, counters = [2], weak_inner_ref = None, data = UserData 7\<rparr>],
     used_slots = {20}, atomics = [], handles = (\<lambda>_. 0)(10 := 1),
     threads = [\<lparr>shard_index = 0, pc = Idle, ret = NoRet\<rparr>, \<lparr>shard_index = 0, pc = Idle, ret = RetSdarc 10\<rparr>],
     critical = [0], pending_to_track = [[(10, 20)]], coll = init_collector\<rparr>"

definition weak_middle :: world where
  "weak_middle = \<lparr>shards = 1,
     heap = [10 \<mapsto> \<lparr>counters_ptr = 20, counters = [2], weak_inner_ref = Some 12, data = UserData 7\<rparr>,
       12 \<mapsto> \<lparr>counters_ptr = 22, counters = [2], weak_inner_ref = None, data = WeakSdarcInner (Some 10)\<rparr>],
     used_slots = {20, 22}, atomics = [], handles = (\<lambda>_. 0),
     threads = [\<lparr>shard_index = 0, pc = Idle, ret = NoRet\<rparr>,
       \<lparr>shard_index = 0, pc = DowngradeClone 10 12, ret = RetSdarc 10\<rparr>],
     critical = [0], pending_to_track = [[(10, 20), (12, 22)]], coll = init_collector\<rparr>"

definition weak_world :: world where
  "weak_world = weak_middle\<lparr>
     heap := [10 \<mapsto> \<lparr>counters_ptr = 20, counters = [2], weak_inner_ref = Some 12, data = UserData 7\<rparr>,
       12 \<mapsto> \<lparr>counters_ptr = 22, counters = [4], weak_inner_ref = None, data = WeakSdarcInner (Some 10)\<rparr>],
     handles := (\<lambda>_. 0)(10 := 1, 12 := 1),
     threads := [\<lparr>shard_index = 0, pc = Idle, ret = NoRet\<rparr>, \<lparr>shard_index = 0, pc = Idle, ret = RetSdarc 12\<rparr>]\<rparr>"

lemma weak_world_steps:
  "uc_step (User 1 (New 10 20 7)) (init_world 1 [0, 0] 0) = Next weak_born"
  "uc_step (User 1 (Downgrade 10 12 22)) weak_born = Next weak_middle"
  "uc_step (User 1 Continue) weak_middle = Next weak_world"
  by (auto simp: exec_defs weak_born_def weak_middle_def weak_world_def fun_eq_iff)

lemma weak_world_held: "held_since_creation 10 weak_world"
proof -
  have "reachable (init_world 1 [0, 0] 0)" by (rule run_reachable [of "[]" 1 "[0, 0]" 0]) simp_all
  then have "held_since_creation 10 weak_born"
    by (rule created [OF _ _ sys_step.intros [OF weak_world_steps(1)]])
      (simp_all add: weak_born_def strong_def)
  moreover have "sys_step weak_born weak_middle" by (rule sys_step.intros [OF weak_world_steps(2)])
  moreover have "0 < strong weak_middle 10" by (simp add: strong_def weak_middle_def)
  ultimately have "held_since_creation 10 weak_middle" by (rule held_since_creation.step)
  moreover have "sys_step weak_middle weak_world" by (rule sys_step.intros [OF weak_world_steps(3)])
  moreover have "0 < strong weak_world 10" by (simp add: strong_def weak_world_def)
  ultimately show ?thesis by (rule held_since_creation.step)
qed

theorem upgrade_succeeds_while_held_witness:
  "run (solo 1 (Upgrade 12) 3) weak_world =
     Next (return 1 (RetOpt (Some 10)) (gain 10 (incremented 1 10 weak_world)))"
  by (rule upgrade_succeeds_while_held [OF weak_world_held]) (auto simp: weak_world_def weak_middle_def user_idle_def)

text \<open>
  C21: the shape of every reachable state. There is at least one shard; every object has one counter per
  shard, every thread a shard index in range, the critical-section counters and the pending lists one
  entry per shard; \<open>tracked_counters\<close> is sorted by key without duplicates. A weak reference leads to a
  \<open>WeakSdarcInner\<close> whose back reference is null or leads back, a back reference that is set leads to the
  object that owns it, and no two objects own the same \<open>WeakSdarcInner\<close>.
\<close>

theorem world_well_formed:
  assumes "reachable w"
  shows "0 < shards w \<and> length (critical w) = shards w \<and> length (pending_to_track w) = shards w
     \<and> (\<forall>th \<in> set (threads w). shard_index th < shards w)
     \<and> sorted_wrt (<) (map fst (tracked_counters (coll w)))
     \<and> (\<forall>p ob. heap w p = Some ob \<longrightarrow> length (counters ob) = shards w
          \<and> (\<forall>q. weak_inner_ref ob = Some q \<longrightarrow>
               (\<exists>wk. heap w q = Some wk \<and> (data wk = WeakSdarcInner (Some p) \<or> data wk = WeakSdarcInner None)))
          \<and> (\<forall>x. data ob = WeakSdarcInner (Some x) \<longrightarrow> (\<exists>owner. heap w x = Some owner \<and> weak_inner_ref owner = Some p))
          \<and> (\<forall>q p' ob'. weak_inner_ref ob = Some q \<longrightarrow> heap w p' = Some ob' \<longrightarrow> weak_inner_ref ob' = Some q \<longrightarrow> p' = p))"
proof -
  note i = reachable_inv [OF assms]
  have l: "weak_linked w" using linked.reach_inv [OF assms] by blast
  have "\<exists>owner. heap w x = Some owner \<and> weak_inner_ref owner = Some p"
    if "heap w p = Some ob" "data ob = WeakSdarcInner (Some x)" for p ob x
    using invD(6) [OF i] meta_SomeI [of "heap w", OF that(1)] that(2) unfolding inv_weak_def by (metis meta_SomeD)
  moreover have "p' = p"
    if "heap w p = Some ob" "weak_inner_ref ob = Some q" "heap w p' = Some ob'" "weak_inner_ref ob' = Some q" for p ob q p' ob'
    using invD(6) [OF i] meta_SomeI [of "heap w", OF that(1)] meta_SomeI [of "heap w", OF that(3)] that(2,4)
    unfolding inv_weak_def by metis
  ultimately show ?thesis
    using invD(1,2) [OF i] inv_trackD(1) [OF invD(8) [OF i]] l
    unfolding inv_shape_def inv_len_def weak_linked_def by blast
qed

theorem world_well_formed_witness:
  "reachable weak_world \<and> length [4::int] = shards weak_world
     \<and> (\<exists>owner. heap weak_world 10 = Some owner \<and> weak_inner_ref owner = Some 12)"
proof -
  have r: "reachable weak_world" using held_reachable [OF weak_world_held] by blast
  let ?wk = "\<lparr>counters_ptr = 22, counters = [4], weak_inner_ref = None, data = WeakSdarcInner (Some 10)\<rparr>"
  have "heap weak_world 12 = Some ?wk" by (simp add: weak_world_def)
  with world_well_formed [OF r] have "length (counters ?wk) = shards weak_world
     \<and> (\<forall>x. data ?wk = WeakSdarcInner (Some x) \<longrightarrow> (\<exists>owner. heap weak_world x = Some owner \<and> weak_inner_ref owner = Some 12))"
    by blast
  with r show ?thesis by simp
qed

end
