(* ===== verification/Sdarc_Unreferenced.thy ===== *)
theory Sdarc_Unreferenced
  imports Sdarc_Weak
begin

text \<open>
  Objects that nothing refers to. Whatever the user threads do, such an object stays out of reach and
  its counters do not change, and the collector leaves it so until it frees it. This is the part of the
  state that the collector relies on when it works beside user threads.
\<close>

section \<open>Objects that nothing refers to\<close>

text \<open>No handle, no cell and no operation in progress has the object.\<close>

definition untouchable :: "world \<Rightarrow> ptr \<Rightarrow> bool" where
  "untouchable w p \<longleftrightarrow> handles w p = 0 \<and> (\<forall>c < length (atomics w). atomics w ! c \<noteq> Some p)
     \<and> (\<forall>t < length (threads w). held (pc (threads w ! t)) p = 0 \<and> loaded (pc (threads w ! t)) \<noteq> Some p)"

text \<open>
  Nothing refers to the object: nor is it the weak inner object of another one. It may still have a back
  reference, if no weak handle is left to use it.
\<close>

definition unreferenced :: "world \<Rightarrow> ptr \<Rightarrow> bool" where
  "unreferenced w p \<longleftrightarrow> untouchable w p \<and> \<not> owned (heap w) p
     \<and> (backref_live (heap w) p \<longrightarrow> (\<exists>ob q. heap w p = Some ob \<and> weak_inner_ref ob = Some q
          \<and> untouchable w q \<and> \<not> backref_live (heap w) q))"

lemma unreferenced_strong: "unreferenced w p \<Longrightarrow> strong w p = 0"
  by (auto simp: unreferenced_def untouchable_def strong_def in_set_conv_nth count_list_0_iff sum_list_eq_0_iff)

text \<open>What keeps an object out of reach: so are its owner and the objects whose back reference leads to it.\<close>

definition enclosed :: "world \<Rightarrow> ptr \<Rightarrow> bool" where
  "enclosed w x \<longleftrightarrow> heap w x \<noteq> None \<and> untouchable w x
     \<and> (\<forall>y ob. heap w y = Some ob \<longrightarrow> weak_inner_ref ob = Some x \<longrightarrow> untouchable w y)
     \<and> (\<forall>y ob. heap w y = Some ob \<longrightarrow> data ob = WeakSdarcInner (Some x) \<longrightarrow> untouchable w y)
     \<and> (\<forall>t < length (threads w). \<forall>y. pc (threads w ! t) \<noteq> DowngradeClone y x)"

lemma gain_lose_handles [simp]:
  "handles (gain_opt y w) x = handles w x + of_bool (y = Some x)"
  "handles (lose_opt y w) x = handles w x - of_bool (y = Some x)"
  by (cases y; simp add: gain_def lose_def)+

lemma begin_enclosed:
  assumes "begin_op t act w = Next w'" "t < length (threads w)"
    and x: "heap w x \<noteq> None" "untouchable w x"
    and own: "\<And>y ob. heap w y = Some ob \<Longrightarrow> weak_inner_ref ob = Some x \<Longrightarrow> handles w y = 0"
  shows "untouchable w' x \<and> heap w' x = heap w x"
proof -
  have h: "handles w x = 0" "\<And>c. c < length (atomics w) \<Longrightarrow> atomics w ! c \<noteq> Some x"
    "\<And>t. t < length (threads w) \<Longrightarrow> held (pc (threads w ! t)) x = 0 \<and> loaded (pc (threads w ! t)) \<noteq> Some x"
    using x(2) by (auto simp: untouchable_def)
  show ?thesis using assms(1,2) x(1) h own
  by (cases act) (auto simp: untouchable_def user_op_defs world_ops modify_counter_Next nth_list_update nth_append
      split: if_splits option.splits payload.splits)
qed

lemma continue_enclosed:
  assumes "continue t (pc (threads w ! t)) w = Next w'" "enclosed w x" "t < length (threads w)"
  shows "untouchable w' x \<and> heap w' x = heap w x"
proof -
  have x: "heap w x \<noteq> None" "untouchable w x" using assms(2) by (simp_all add: enclosed_def)
  have d: "z \<noteq> x" if "pc (threads w ! t) = DowngradeClone y z" for y z using assms(2,3) that by (auto simp: enclosed_def)
  have h: "handles w x = 0" "\<And>c. c < length (atomics w) \<Longrightarrow> atomics w ! c \<noteq> Some x"
    "\<And>t. t < length (threads w) \<Longrightarrow> held (pc (threads w ! t)) x = 0 \<and> loaded (pc (threads w ! t)) \<noteq> Some x"
    using x(2) by (auto simp: untouchable_def)
  have bk: "held (pc (threads w ! t)) y = 0" if "heap w y = Some ob" "data ob = WeakSdarcInner (Some x)" for y ob
    using assms(2,3) that unfolding enclosed_def untouchable_def by blast
  show ?thesis using assms(1,3) x(1) h(1,2) h(3) h(3) [OF assms(3)] d
    by (cases "pc (threads w ! t)") (auto simp: untouchable_def user_op_defs world_ops modify_counter_Next nth_list_update
      split: if_splits option.splits payload.splits dest: bk)
qed


lemma user_enclosed:
  assumes "user_step t act w = Next w'" "enclosed w x"
  shows "untouchable w' x \<and> heap w' x = heap w x"
proof -
  have t: "t < length (threads w)" using assms(1) by (simp add: user_step_def split: if_splits)
  have "heap w x \<noteq> None" "untouchable w x"
    "\<And>y ob. heap w y = Some ob \<Longrightarrow> weak_inner_ref ob = Some x \<Longrightarrow> handles w y = 0"
    using assms(2) by (auto simp: enclosed_def untouchable_def)
  then have "untouchable w' x \<and> heap w' x = heap w x" if "begin_op t act w = Next w'"
    using begin_enclosed [OF that t] by blast
  then show ?thesis using assms continue_enclosed [OF _ assms(2) t] unfolding user_step_def by (metis outcome.distinct(3))
qed

lemma held_DowngradeClone: "untouchable w y \<Longrightarrow> t < length (threads w) \<Longrightarrow> pc (threads w ! t) \<noteq> DowngradeClone y x"
  by (auto simp: untouchable_def)

lemma enclosedI:
  assumes s: "safe w" and x: "heap w x \<noteq> None" "untouchable w x"
    and own: "\<And>y ob. heap w y = Some ob \<Longrightarrow> weak_inner_ref ob = Some x \<Longrightarrow> untouchable w y"
    and bk: "\<And>y. backref_live (heap w) x \<Longrightarrow> meta (heap w) x = Some (counters_ptr (the (heap w x)), Some y, data (the (heap w x))) \<Longrightarrow> untouchable w y"
  shows "enclosed w x"
proof -
  have "untouchable w y" if "heap w y = Some ob" "data ob = WeakSdarcInner (Some x)" for y ob
  proof -
    note m = meta_SomeI [of "heap w", OF that(1), unfolded that(2)]
    obtain a d where a: "meta (heap w) x = Some (a, Some y, d)"
      using s m unfolding safe_def inv_def inv_weak_def by blast
    with m have "backref_live (heap w) x" unfolding backref_live_def by blast
    from bk [OF this] a show ?thesis by (auto simp: meta_def)
  qed
  moreover have "pc (threads w ! t) \<noteq> DowngradeClone y x" if "t < length (threads w)" for t y
  proof
    assume pc: "pc (threads w ! t) = DowngradeClone y x"
    have "pc_ok (heap w) (pc (threads w ! t))" using s that by (simp add: safe_def inv_pcs_def)
    then obtain a d where "meta (heap w) y = Some (a, Some x, d)" using pc by auto
    then obtain ob where ob: "heap w y = Some ob" "weak_inner_ref ob = Some x" by (auto dest: meta_SomeD)
    show False using held_DowngradeClone [OF own [OF ob] that, of x] pc by simp
  qed
  ultimately show ?thesis unfolding enclosed_def using x own by blast
qed

lemma unreferenced_enclosed:
  assumes s: "safe w" and p: "heap w p = Some ob" "unreferenced w p"
  shows "enclosed w p" "backref_live (heap w) p \<Longrightarrow> weak_inner_ref ob = Some q \<Longrightarrow> enclosed w q"
proof -
  have i: "inv w" using s by (simp add: safe_def)
  show "enclosed w p"
  proof (rule enclosedI [OF s])
    show "untouchable w y" if "heap w y = Some ob'" "weak_inner_ref ob' = Some p" for y ob'
      using p(2) owned_weak_ref [where h = "heap w", OF that] by (simp add: unreferenced_def)
    show "untouchable w y" if "backref_live (heap w) p"
      "meta (heap w) p = Some (counters_ptr (the (heap w p)), Some y, data (the (heap w p)))" for y
      using p that by (auto simp: unreferenced_def meta_def)
  qed (use p in \<open>simp_all add: unreferenced_def\<close>)
  assume b: "backref_live (heap w) p" and q: "weak_inner_ref ob = Some q"
  have u: "untouchable w q" "\<not> backref_live (heap w) q" using p b q by (auto simp: unreferenced_def)
  show "enclosed w q"
  proof (rule enclosedI [OF s _ u(1)])
    have "0 < strong w q" using owned_weak_ref [where h = "heap w", OF p(1) q] by (simp add: strong_def)
    then show "heap w q \<noteq> None" using invD(4) [OF i] by (simp add: inv_alive_def)
    show "untouchable w y" if "heap w y = Some ob'" "weak_inner_ref ob' = Some q" for y ob'
    proof -
      have "y = p" using invD(6) [OF i] meta_SomeI [of "heap w", OF that(1)] meta_SomeI [of "heap w", OF p(1)] that(2) q
        unfolding inv_weak_def by metis
      then show ?thesis using p(2) by (simp add: unreferenced_def)
    qed
  qed (use u(2) in simp)
qed

text \<open>A step that keeps these parts keeps the object unreferenced.\<close>

lemma unreferenced_transfer:
  assumes p: "heap w p = Some ob" "unreferenced w p"
    and p': "untouchable w' p" "weak_inner_ref ob' = weak_inner_ref ob" "heap w' p = Some ob'"
    and own: "owned (heap w') p \<Longrightarrow> owned (heap w) p"
    and bp: "backref_live (heap w') p \<Longrightarrow> backref_live (heap w) p"
    and q: "\<And>q. backref_live (heap w) p \<Longrightarrow> weak_inner_ref ob = Some q \<Longrightarrow>
       untouchable w' q \<and> (backref_live (heap w') q \<longrightarrow> backref_live (heap w) q)"
  shows "unreferenced w' p"
proof -
  have "\<exists>ob q. heap w' p = Some ob \<and> weak_inner_ref ob = Some q \<and> untouchable w' q \<and> \<not> backref_live (heap w') q"
    if "backref_live (heap w') p"
    using bp [OF that] q p p'(2,3) unfolding unreferenced_def by auto
  then show ?thesis using p(2) p'(1) own unfolding unreferenced_def by blast
qed


lemma user_owned:
  assumes i: "inv w" and st: "user_step t act w = Next w'" and p: "heap w p \<noteq> None" "owned (heap w') p"
  shows "owned (heap w) p"
proof -
  from p(2) obtain y ob' where y: "heap w' y = Some ob'" "weak_inner_ref ob' = Some p"
    by (auto simp: owned_def dest: meta_SomeD)
  then obtain ob where ob: "heap w y = Some ob" using user_fresh [OF st _ y(1)] by (cases "heap w y") auto
  show ?thesis
  proof (cases "weak_inner_ref ob' = weak_inner_ref ob")
    case True
    then show ?thesis using owned_weak_ref [where h = "heap w", OF ob] y(2) by simp
  next
    case False
    with user_weak [OF st ob] y obtain wk where wk: "heap w' p = Some wk" "data wk = WeakSdarcInner (Some y)"
      and n: "weak_inner_ref ob = None" by auto
    from p(1) obtain wk0 where wk0: "heap w p = Some wk0" by auto
    with user_keeps_data [OF st wk0] wk have "data wk0 = WeakSdarcInner (Some y)" by auto
    with meta_SomeI [of "heap w", OF wk0] have "\<exists>a d. meta (heap w) y = Some (a, Some p, d)"
      using invD(6) [OF i] unfolding inv_weak_def by metis
    with ob n show ?thesis by (auto simp: meta_def)
  qed
qed

lemma weak_alive: "inv w \<Longrightarrow> heap w x = Some ob \<Longrightarrow> weak_inner_ref ob = Some q \<Longrightarrow> heap w q \<noteq> None"
  using owned_weak_ref [where h = "heap w"] owned_alive invD(4) by blast

lemma user_backref:
  assumes i: "inv w" and st: "user_step t act w = Next w'" and x: "heap w x \<noteq> None" "heap w' x = heap w x"
    and b: "backref_live (heap w') x"
  shows "backref_live (heap w) x"
proof -
  from b x obtain ob q wk y where ob: "heap w x = Some ob" "weak_inner_ref ob = Some q"
    and wk: "heap w' q = Some wk" "data wk = WeakSdarcInner (Some y)"
    by (auto simp: backref_live_def meta_def)
  from weak_alive [OF i ob] obtain wk0 where wk0: "heap w q = Some wk0" by auto
  with user_keeps_data [OF st this] wk have "data wk0 = WeakSdarcInner (Some y)" by auto
  with ob wk0 show ?thesis by (auto simp: backref_live_def meta_def)
qed

lemma user_unreferenced:
  assumes s: "safe w" and p: "heap w p = Some ob" "unreferenced w p" and st: "user_step t act w = Next w'"
  shows "unreferenced w' p \<and> heap w' p = heap w p"
proof -
  have i: "inv w" using s by (simp add: safe_def)
  note e = unreferenced_enclosed [OF s p]
  note u = user_enclosed [OF st e(1)]
  have "unreferenced w' p"
  proof (rule unreferenced_transfer [OF p])
    show "untouchable w' q \<and> (backref_live (heap w') q \<longrightarrow> backref_live (heap w) q)"
      if b: "backref_live (heap w) p" "weak_inner_ref ob = Some q" for q
      using user_enclosed [OF st e(2) [OF b]] user_backref [OF i st, of q] weak_alive [OF i p(1) b(2)] by blast
  qed (use u p user_owned [OF i st, of p] user_backref [OF i st, of p] in auto)
  with u show ?thesis by simp
qed


text \<open>The two halves of a \<open>compare_and_set\<close> that is not interrupted.\<close>

lemma cas_half:
  assumes "user_step t (CompareAndSet c m y) w = Next w1"
  shows "heap w1 = heap w" "s < length (threads w1) \<Longrightarrow> pc (threads w1 ! s) = DowngradeClone z x \<Longrightarrow>
     s < length (threads w) \<and> pc (threads w ! s) = DowngradeClone z x"
  using assms by (auto simp: user_step_def raw_compare_and_set_def world_ops nth_list_update split: if_splits option.splits)

lemma enclosed_cas:
  assumes e: "enclosed w x" and st: "user_step t (CompareAndSet c m y) w = Next w1"
    and ne: "\<And>z ob. heap w z = Some ob \<Longrightarrow> weak_inner_ref ob = Some x \<or> data ob = WeakSdarcInner (Some x) \<Longrightarrow> enclosed w z"
  shows "enclosed w1 x"
proof -
  note u = user_enclosed [OF st] and h = cas_half(1) [OF st]
  have "pc (threads w1 ! s) \<noteq> DowngradeClone z x" if "s < length (threads w1)" for s z
    using cas_half(2) [OF st that, of z x] e unfolding enclosed_def by blast
  moreover have "heap w1 x \<noteq> None" "untouchable w1 x" using e u [OF e] h by (simp_all add: enclosed_def)
  moreover have "untouchable w1 z" if "heap w1 z = Some ob" "weak_inner_ref ob = Some x \<or> data ob = WeakSdarcInner (Some x)" for z ob
    using u [OF ne] that h by simp
  ultimately show ?thesis unfolding enclosed_def by blast
qed

lemma cas_inc_meta: "raw_compare_and_set_inc t q m w1 = Next w' \<Longrightarrow> meta (heap w') = meta (heap w1)"
  by (auto simp: raw_compare_and_set_inc_def modify_counter_Next world_ops meta_upd_same simp del: meta_upd)

lemma cas_meta:
  assumes "user_step t (CompareAndSet c m (Some q)) w = Next w1" "pc (threads w1 ! t) \<noteq> Idle" "user_step t Continue w1 = Next w'"
  shows "meta (heap w') = meta (heap w)"
  using cas_begin(3) [OF assms(1)] assms(2,3) cas_inc_meta [of t q m w1 w'] cas_half(1) [OF assms(1)] by auto

lemma unreferenced_links:
  assumes s: "safe w" and p: "heap w p = Some ob" "unreferenced w p"
    and z: "heap w z = Some ob'" "weak_inner_ref ob' = Some x \<or> data ob' = WeakSdarcInner (Some x)"
    and x: "x = p \<or> (backref_live (heap w) p \<and> weak_inner_ref ob = Some x)"
  shows "enclosed w z"
proof -
  have i: "inv w" using s by (simp add: safe_def)
  note e = unreferenced_enclosed [OF s p] and mp = meta_SomeI [of "heap w", OF p(1)] and mz = meta_SomeI [of "heap w", OF z(1)]
  from z(2) show ?thesis
  proof
    assume r: "weak_inner_ref ob' = Some x"
    with p(2) owned_weak_ref [where h = "heap w", OF z(1) r] have "x \<noteq> p" by (auto simp: unreferenced_def)
    with x r invD(6) [OF i] mp mz have "z = p" unfolding inv_weak_def by metis
    with e(1) show ?thesis by simp
  next
    assume d: "data ob' = WeakSdarcInner (Some x)"
    with mz obtain a r where r: "meta (heap w) x = Some (a, Some z, r)" using invD(6) [OF i] unfolding inv_weak_def by metis
    with mz d have b: "backref_live (heap w) x" unfolding backref_live_def by metis
    with p x have "x = p" by (auto simp: unreferenced_def)
    with e(2) b r mp show ?thesis by simp
  qed
qed


lemma uc_user_unreferenced:
  assumes s: "safe w" and p: "heap w p = Some ob" "unreferenced w p" and st: "uc_step (User t act) w = Next w'"
  shows "unreferenced w' p \<and> heap w' p = heap w p"
proof (cases rule: uc_step_cases [of "User t act" w])
  case plain
  then show ?thesis using user_unreferenced [OF s p] st by simp
next
  case (cas t' c m q)
  then have e: "t' = t" "act = CompareAndSet c m (Some q)" by simp_all
  from st e obtain w1 where w1: "user_step t (CompareAndSet c m (Some q)) w = Next w1"
    and w': "w' = w1 \<or> pc (threads w1 ! t) \<noteq> Idle \<and> user_step t Continue w1 = Next w'"
    by (auto split: outcome.splits if_splits)
  show ?thesis
  proof (cases "w' = w1")
    case True
    then show ?thesis using user_unreferenced [OF s p w1] by simp
  next
    case False
    with w' have w2: "pc (threads w1 ! t) \<noteq> Idle" "user_step t Continue w1 = Next w'" by simp_all
    note m = cas_meta [OF w1 w2] and en = unreferenced_enclosed [OF s p]
    have u: "untouchable w' x \<and> heap w' x = heap w x" if "x = p \<or> backref_live (heap w) p \<and> weak_inner_ref ob = Some x" for x
    proof -
      have "enclosed w x" using that en by blast
      from user_enclosed [OF w2(2) enclosed_cas [OF this w1]] unreferenced_links [OF s p _ _ that] cas_half(1) [OF w1]
      show ?thesis by simp
    qed
    have "unreferenced w' p"
      by (rule unreferenced_transfer [OF p]) (use u p m owned_cong [OF m] backref_live_cong [OF m] in auto)
    with u show ?thesis by blast
  qed
qed

lemma collector_threads:
  assumes "collector_at x w = Next w'"
  shows "handles w' = handles w" "atomics w' = atomics w"
    "threads w' = threads w \<or> (\<exists>y ob q. heap w y = Some ob \<and> weak_inner_ref ob = Some q \<and> heap w' y = None
       \<and> threads w' = (threads w)[0 := (threads w ! 0)\<lparr>pc := DropDec q\<rparr>])"
  using assms
  by (cases x; auto simp: collector_defs set_obj_def free_pointers_def drop_sdarc_inner_def goto_def set_thread_def Let_def
      split: if_splits option.splits payload.splits sum.splits list.splits TrackedCounterState.splits
        ClearWeakBackRefResult.splits prod.splits)+

lemma collector_untouchable:
  assumes st: "collector_at x w = Next w'" and u: "untouchable w p"
    and own: "\<And>y ob. heap w y = Some ob \<Longrightarrow> weak_inner_ref ob = Some p \<Longrightarrow> heap w' y \<noteq> None"
  shows "untouchable w' p"
  using collector_threads(3) [OF st]
proof
  assume "\<exists>y ob q. heap w y = Some ob \<and> weak_inner_ref ob = Some q \<and> heap w' y = None
       \<and> threads w' = (threads w)[0 := (threads w ! 0)\<lparr>pc := DropDec q\<rparr>]"
  then obtain y ob q where q: "heap w y = Some ob" "weak_inner_ref ob = Some q" "heap w' y = None"
    and th: "threads w' = (threads w)[0 := (threads w ! 0)\<lparr>pc := DropDec q\<rparr>]" by blast
  have "q \<noteq> p" using own [OF q(1)] q(2,3) by auto
  with th have "held (pc (threads w' ! t)) p = 0 \<and> loaded (pc (threads w' ! t)) \<noteq> Some p" if "t < length (threads w')" for t
    using that u by (cases "t = 0") (auto simp: untouchable_def)
  then show ?thesis using u collector_threads(1,2) [OF st] by (simp add: untouchable_def)
qed (use u collector_threads(1,2) [OF st] in \<open>simp add: untouchable_def\<close>)

lemma collector_data:
  assumes "collector_at x w = Next w'" "heap w' q = Some wk'"
  shows "\<exists>wk. heap w q = Some wk \<and> (data wk' = data wk \<or> data wk' = WeakSdarcInner None)"
  using assms
  by (cases x) (auto simp: collector_defs set_obj_def free_pointers_def drop_sdarc_inner_def goto_def set_thread_def Let_def
      split: if_splits option.splits payload.splits sum.splits list.splits TrackedCounterState.splits
        ClearWeakBackRefResult.splits prod.splits)

lemma collector_backref:
  assumes st: "collector_at x w = Next w'" and b: "backref_live (heap w') p"
  shows "backref_live (heap w) p"
proof -
  from b obtain ob' q wk' y where "heap w' p = Some ob'" "weak_inner_ref ob' = Some q"
    "heap w' q = Some wk'" "data wk' = WeakSdarcInner (Some y)"
    by (auto simp: backref_live_def meta_def)
  with collector_weak_ref [OF st, of p ob'] collector_data [OF st, of q wk'] obtain ob wk where
    "heap w p = Some ob" "weak_inner_ref ob = Some q" "heap w q = Some wk" "data wk = WeakSdarcInner (Some y)" by auto
  then show ?thesis by (auto simp: backref_live_def meta_def)
qed

lemma collector_owned: "collector_at x w = Next w' \<Longrightarrow> owned (heap w') p \<Longrightarrow> owned (heap w) p"
  using collector_weak_ref [of x w w'] by (fastforce simp: owned_def meta_def)

lemma collector_unreferenced:
  assumes s: "safe w" and p: "heap w p = Some ob" "unreferenced w p"
    and st: "collector_at x w = Next w'" and p': "heap w' p = Some ob'"
  shows "unreferenced w' p"
proof (rule unreferenced_transfer [OF p])
  have i: "inv w" using s by (simp add: safe_def)
  show "untouchable w' p"
    by (rule collector_untouchable [OF st]) (use p(2) owned_weak_ref [where h = "heap w"] in \<open>auto simp: unreferenced_def\<close>)
  show "weak_inner_ref ob' = weak_inner_ref ob" using collector_weak_ref [OF st p'] p(1) by auto
  show "untouchable w' q \<and> (backref_live (heap w') q \<longrightarrow> backref_live (heap w) q)"
    if q: "backref_live (heap w) p" "weak_inner_ref ob = Some q" for q
  proof -
    have "untouchable w q" using p q by (auto simp: unreferenced_def)
    moreover have "y = p" if "heap w y = Some ob2" "weak_inner_ref ob2 = Some q" for y ob2
      using invD(6) [OF i] meta_SomeI [of "heap w", OF that(1)] meta_SomeI [of "heap w", OF p(1)] that(2) q(2)
      unfolding inv_weak_def by metis
    ultimately show ?thesis using collector_untouchable [OF st, of q] p' collector_backref [OF st, of q] by auto
  qed
qed (use p' collector_owned [OF st] collector_backref [OF st] in auto)

end
