(* ===== verification/Sdarc_Sequential.thy ===== *)
theory Sdarc_Sequential
  imports Sdarc_Functional
begin

text \<open>
  The functions of \<open>CollectorThreadState\<close> in \<^verbatim>\<open>src/src/collector.rs\<close> as sequential programs, in the
  shape the source has them: \<open>update_state\<close>, the two passes, \<open>free_pointers\<close>, the loop of inner
  iterations and \<open>update\<close>. They say what the collector computes when no user thread runs in between and
  none is inside a reader critical section; user code run by destructors is taken to touch no \<open>Sdarc\<close>.
  The second half shows that the step-by-step model of the collector, run alone, computes exactly this.
\<close>

section \<open>The collector as a program\<close>

text \<open>The counters at \<open>a\<close>, which belong to the object at \<open>p\<close>.\<close>

definition read_slot :: "cptr \<Rightarrow> ptr \<Rightarrow> world \<Rightarrow> fault + SdarcInner" where
  "read_slot a p w =
     (case heap w p of
        None \<Rightarrow> Inl (UseAfterFree p)
      | Some ob \<Rightarrow> if counters_ptr ob = a then Inr ob else Inl (UseAfterFree p))"

definition ref_count_sum :: "SdarcInner \<Rightarrow> int" where
  "ref_count_sum ob = rc_sum itc_ref_count (counters ob)"

definition clear_tags :: "SdarcInner \<Rightarrow> SdarcInner" where
  "clear_tags ob = ob\<lparr>counters := map itc_clear_tag (counters ob)\<rparr>"

definition ref_count_sum_if_all_tags_unset :: "SdarcInner \<Rightarrow> int option" where
  "ref_count_sum_if_all_tags_unset ob =
     (if list_ex itc_tag (counters ob) then None else Some (ref_count_sum ob))"

text \<open>\<open>TrackedCounter::update_state\<close>: the new state, and the world with tags or a back reference cleared.\<close>

definition update_state :: "cptr \<Rightarrow> TrackedCounter \<Rightarrow> world \<Rightarrow> fault + TrackedCounterState \<times> world" where
  "update_state a tc w =
     (case tstate tc of
        DefaultState \<Rightarrow>
          res_bind (read_slot a (fat_ptr tc) w) (\<lambda>ob.
            if ref_count_sum ob = 0
            then Inr (if ref_count_sum ob = 0 then RequiresReChecking else DefaultState,
                      set_obj (fat_ptr tc) (clear_tags ob) w)
            else Inr (DefaultState, w))
      | RequiresReChecking \<Rightarrow>
          res_bind (read_slot a (fat_ptr tc) w) (\<lambda>ob.
            case ref_count_sum_if_all_tags_unset ob of
              None \<Rightarrow> Inr (DefaultState, w)
            | Some n \<Rightarrow>
                if n = 0
                then res_bind (clear_weak_backref_impl (fat_ptr tc) w) (\<lambda>(r, w').
                       Inr (if r = WeakBackRefCleared then RequiresReChecking else ReadyToFree, w'))
                else if 0 < n then Inr (DefaultState, w)
                else Inl (CollectorPanic AssertionFailed))
      | ReadyToFree \<Rightarrow> Inl (CollectorPanic AssertionFailed))"

text \<open>
  The body of the loop of a pass. \<open>tracked_counters\<close> and the locals \<open>to_recheck\<close> and \<open>to_free\<close> are
  fields of the collector's record.
\<close>

definition update_tracked :: "cptr \<Rightarrow> world \<Rightarrow> fault + world" where
  "update_tracked a w =
     (case map_of (tracked_counters (coll w)) a of
        None \<Rightarrow> Inr w
      | Some tc \<Rightarrow>
          res_bind (update_state a tc w) (\<lambda>(st, w').
            Inr (set_coll (finish_visit a (fat_ptr tc) st) w')))"

text \<open>\<open>drop\<close> of the handle in \<open>weak_inner_ref\<close>, in the collector thread, and of the whole object.\<close>

definition drop_weak_handle :: "ptr \<Rightarrow> world \<Rightarrow> fault + world" where
  "drop_weak_handle q w =
     (case heap w q of
        None \<Rightarrow> Inl (UseAfterFree q)
      | Some wk \<Rightarrow>
          Inr (return 0 NoRet (on_sdarc_drop 0 (counters_ptr wk)
                (set_obj q (wk\<lparr>counters := (counters wk)
                   [shard_of 0 w := itc_decrement (counters wk ! shard_of 0 w)]\<rparr>) w))))"

definition drop_inner :: "ptr \<Rightarrow> SdarcInner \<Rightarrow> world \<Rightarrow> fault + world" where
  "drop_inner p ob w =
     (case data ob of
        WeakSdarcInner (Some _) \<Rightarrow> Inl (BackRefNotCleared p)
      | _ \<Rightarrow>
          (let w1 = w\<lparr>heap := (heap w)(p := None), used_slots := used_slots w - {counters_ptr ob}\<rparr>
           in case weak_inner_ref ob of None \<Rightarrow> Inr w1 | Some q \<Rightarrow> drop_weak_handle q w1))"

definition free_pointer :: "cptr \<Rightarrow> world \<Rightarrow> fault + world" where
  "free_pointer a w =
     (case map_of (tracked_counters (coll w)) a of
        None \<Rightarrow> Inl (CollectorPanic UnwrapNone)
      | Some tc \<Rightarrow>
          (if tstate tc \<noteq> ReadyToFree then Inl (CollectorPanic AssertionFailed)
           else (case heap w (fat_ptr tc) of
                   None \<Rightarrow> Inl (UseAfterFree (fat_ptr tc))
                 | Some ob \<Rightarrow>
                     (if counters_ptr ob \<noteq> a then Inl (CollectorPanic AssertionFailed)
                      else drop_inner (fat_ptr tc) ob
                             (set_coll (\<lambda>c. c\<lparr>tracked_counters := map_remove a (tracked_counters c)\<rparr>) w)))))"

text \<open>
  One pass: \<open>update_all_tracked_counters_\<dots>\<close> updates the entries of the map in place, and
  \<open>update_specific_counters_\<dots>\<close> looks up the counters \<open>ks\<close>. The result is the set to re-check.
\<close>

definition update_entry :: "cptr \<times> TrackedCounter \<Rightarrow> world \<Rightarrow> fault + world" where
  "update_entry = (\<lambda>(a, tc) w. res_bind (update_state a tc w) (\<lambda>(st, w').
     Inr (set_coll (finish_visit a (fat_ptr tc) st) w')))"

definition begin_pass :: "world \<Rightarrow> world" where
  "begin_pass w = set_coll (\<lambda>c. c\<lparr>to_free := [], to_recheck := []\<rparr>) w"

definition free_all :: "world \<Rightarrow> fault + world" where
  "free_all w = for_r (to_free (coll w)) free_pointer (set_coll (\<lambda>c. c\<lparr>to_free := []\<rparr>) w)"

definition take_to_recheck :: "world \<Rightarrow> cptr list \<times> world" where
  "take_to_recheck w =
     (fold insort_insert (counters_to_recheck (coll w)) (to_recheck (coll w)),
      set_coll (\<lambda>c. c\<lparr>counters_to_recheck := []\<rparr>) w)"

definition update_counters :: "cptr list \<Rightarrow> world \<Rightarrow> fault + cptr list \<times> world" where
  "update_counters ks w =
     res_bind (for_r ks update_tracked (begin_pass w)) (\<lambda>w1.
       res_bind (free_all w1) (\<lambda>w2. Inr (take_to_recheck w2)))"

definition update_all_tracked_counters :: "world \<Rightarrow> fault + cptr list \<times> world" where
  "update_all_tracked_counters w =
     res_bind (for_r (tracked_counters (coll w)) update_entry (begin_pass w)) (\<lambda>w1.
       res_bind (free_all w1) (\<lambda>w2. Inr (take_to_recheck w2)))"

text \<open>The loop of \<open>do_collection_inner_iterations\<close>, with the number of passes it may still make.\<close>

fun re_check_loop :: "nat \<Rightarrow> cptr list \<Rightarrow> world \<Rightarrow> fault + world" where
  "re_check_loop 0 ks w = Inr w"
| "re_check_loop (Suc k) ks w =
     (if ks = [] then Inr w
      else res_bind (update_counters ks w) (\<lambda>(ks', w'). re_check_loop k ks' w'))"

definition do_collection_inner_iterations :: "world \<Rightarrow> fault + world" where
  "do_collection_inner_iterations w =
     res_bind (update_all_tracked_counters w)
       (\<lambda>(ks, w'). re_check_loop max_inner_iterations ks w')"

definition take_new_of :: "nat \<Rightarrow> world \<Rightarrow> fault + world" where
  "take_new_of i w =
     (case track_new (pending_to_track w ! i) (tracked_counters (coll w)) of
        Inl e \<Rightarrow> Inl (CollectorPanic e)
      | Inr m \<Rightarrow> Inr (set_coll (\<lambda>c. c\<lparr>tracked_counters := m\<rparr>)
                   (w\<lparr>pending_to_track := (pending_to_track w)[i := []]\<rparr>)))"

definition CollectorThreadState_update :: "world \<Rightarrow> fault + world" where
  "CollectorThreadState_update w =
     res_bind (for_r [0..<shards w] take_new_of w) do_collection_inner_iterations"

section \<open>The step-by-step collector running alone\<close>

text \<open>
  Thread 0 finishes the operation it is in the middle of, otherwise the collector goes on. Nothing
  else runs.
\<close>

definition alone_step :: "world \<Rightarrow> outcome" where
  "alone_step w = (if pc (threads w ! 0) = Idle then collector_step w else user_step 0 Continue w)"

inductive alone :: "world \<Rightarrow> world \<Rightarrow> bool" where
  aloneI: "alone_step w = Next w' \<Longrightarrow> alone w w'"

inductive_simps alone_iff: "alone w w'"

text \<open>
  \<open>runs k w r\<close>: from \<open>w\<close> the collector alone gets to the world that \<open>k\<close> makes of the result \<open>r\<close> of the
  program; if the program fails, the collector gets to a step that fails in the same way.
\<close>

definition runs :: "('a \<Rightarrow> world) \<Rightarrow> world \<Rightarrow> fault + 'a \<Rightarrow> bool" where
  "runs k w r \<longleftrightarrow> (case r of Inr x \<Rightarrow> alone\<^sup>*\<^sup>* w (k x)
     | Inl f \<Rightarrow> (\<exists>w1. alone\<^sup>*\<^sup>* w w1 \<and> alone_step w1 = Fault f))"

lemma runs_Inr [simp]: "runs k w (Inr x) \<longleftrightarrow> alone\<^sup>*\<^sup>* w (k x)"
  by (simp add: runs_def)

lemma runs_after: "alone\<^sup>*\<^sup>* w w1 \<Longrightarrow> runs k w1 r \<Longrightarrow> runs k w r"
  by (auto simp: runs_def split: sum.splits intro: rtranclp_trans)

lemma runs_bind:
  assumes "runs k w r" and "\<And>x. r = Inr x \<Longrightarrow> runs k' (k x) (f x)"
  shows "runs k' w (res_bind r f)"
  using assms runs_after [of w _ k'] by (cases r) (auto simp: runs_def)

lemma runs_fault: "alone_step w = Fault f \<Longrightarrow> runs k w (Inl f)"
  by (auto simp: runs_def)

lemma runs_for:
  assumes "I w"
    and "\<And>x xs w. I w \<Longrightarrow> runs (k xs) (k (x # xs) w) (f x w) \<and> (\<forall>w'. f x w = Inr w' \<longrightarrow> I w')"
  shows "runs (k []) (k xs w) (for_r xs f w) \<and> (\<forall>w'. for_r xs f w = Inr w' \<longrightarrow> I w')"
  using assms(1)
proof (induction xs arbitrary: w)
  case (Cons x xs)
  then have "runs (k []) (k xs w') (for_r xs f w')" if "f x w = Inr w'" for w'
    using assms(2) [where w = w and x = x and xs = xs] that by blast
  then have "runs (k []) (k (x # xs) w) (for_r (x # xs) f w)"
    using assms(2) [where x = x and xs = xs, OF Cons.prems] by (auto intro: runs_bind)
  then show ?case
    using Cons.IH assms(2) [where x = x and xs = xs, OF Cons.prems] by (auto simp: res_bind_eq_Inr)
qed simp

text \<open>
  The worlds between which the program moves: the collector stands at \<open>q\<close> with the counters \<open>ks\<close> still
  to visit; \<open>fp\<close> and \<open>n\<close> say which pass it is.
\<close>

definition stage :: "bool \<Rightarrow> nat \<Rightarrow> cpc \<Rightarrow> cptr list \<Rightarrow> world \<Rightarrow> world" where
  "stage fp n q ks w =
     set_coll (\<lambda>c. c\<lparr>cpc := q, todo := ks, first_pass := fp, loop_counter := n, shards_to_spin := []\<rparr>) w"

lemma stage_simps [simp]:
  "heap (stage fp n q ks w) = heap w" "threads (stage fp n q ks w) = threads w"
  "shards (stage fp n q ks w) = shards w" "critical (stage fp n q ks w) = critical w"
  "atomics (stage fp n q ks w) = atomics w" "handles (stage fp n q ks w) = handles w"
  "pending_to_track (stage fp n q ks w) = pending_to_track w" "used_slots (stage fp n q ks w) = used_slots w"
  "coll (stage fp n q ks w) = (coll w)\<lparr>cpc := q, todo := ks, first_pass := fp, loop_counter := n, shards_to_spin := []\<rparr>"
  by (simp_all add: stage_def)

lemma stage_stage [simp]: "stage fp n q ks (stage fp' n' q' ks' w) = stage fp n q ks w"
  by (simp add: stage_def set_coll_def)

lemma cgoto_stage [simp]: "cgoto q' (stage fp n q ks w) = stage fp n q' ks w"
  by (simp add: stage_def cgoto_def set_coll_def)

lemma finish_stage:
  "set_coll (finish_visit a p st) (stage fp n q ks w) =
     stage fp n Visit ks (set_coll (finish_visit a p st) w)"
  by (simp add: stage_def set_coll_def finish_visit_def)

lemma set_obj_stage [simp]: "set_obj p ob (stage fp n q ks w) = stage fp n q ks (set_obj p ob w)"
  by (simp add: stage_def set_coll_def set_obj_def)

text \<open>What the program relies on.\<close>

definition quiet :: "world \<Rightarrow> bool" where
  "quiet w \<longleftrightarrow> 0 < shards w \<and> threads w \<noteq> [] \<and> pc (threads w ! 0) = Idle \<and> (\<forall>i < shards w. critical w ! i = 0) \<and> inv_len w"

lemma quiet_stage [simp]: "quiet (stage fp n q ks w) = quiet w"
  by (simp add: quiet_def inv_len_def)

lemma quiet_coll [simp]: "quiet (set_coll f w) = quiet w"
  by (simp add: quiet_def inv_len_def)

lemma alone_stage:
  assumes "quiet w" "collector_at q (stage fp n q ks w) = Next w'"
  shows "alone (stage fp n q ks w) w'"
  using assms by (intro aloneI) (simp add: alone_step_def collector_step_def quiet_def)

lemma fault_stage:
  assumes "quiet w" "collector_at q (stage fp n q ks w) = Fault f"
  shows "alone_step (stage fp n q ks w) = Fault f"
  using assms by (simp add: alone_step_def collector_step_def quiet_def)

lemma step_stage:
  "quiet w \<Longrightarrow> collector_at q (stage fp n q ks w) = Next w' \<Longrightarrow> alone\<^sup>*\<^sup>* (stage fp n q ks w) w'"
  by (blast intro: alone_stage)

lemma steps_cons:
  "quiet w \<Longrightarrow> collector_at q (stage fp n q ks w) = Next w1 \<Longrightarrow> alone\<^sup>*\<^sup>* w1 w' \<Longrightarrow> alone\<^sup>*\<^sup>* (stage fp n q ks w) w'"
  by (blast intro: converse_rtranclp_into_rtranclp alone_stage)

subsection \<open>One counter\<close>

lemma pre_read_steps:
  assumes "quiet w" "heap w p = Some ob" "counters_ptr ob = a" "i \<le> shards w"
  shows "alone\<^sup>*\<^sup>* (stage fp n (PreRead a p i acc) ks w)
    (stage fp n (PreRead a p (shards w) (acc + rc_sum itc_ref_count (drop i (counters ob)))) ks w)"
  using assms(4)
proof (induction i arbitrary: acc rule: inc_induct)
  case base
  then show ?case using assms(1,2) by (simp add: rc_sum_def quiet_def inv_len_def)
next
  case (step i)
  have "i < length (counters ob)" using assms(1,2) step.hyps by (simp add: quiet_def inv_len_def)
  then have e: "acc + rc_sum itc_ref_count (drop i (counters ob)) =
      (acc + itc_ref_count (counters ob ! i)) + rc_sum itc_ref_count (drop (Suc i) (counters ob))"
    by (simp add: rc_sum_def sum_list_drop_Suc)
  show ?case
    by (rule steps_cons [OF assms(1)])
      (use assms(2,3) step.hyps in \<open>simp add: read_ref_count_sum_relaxed_def at_slot_def\<close>,
       unfold e, rule step.IH)
qed

text \<open>After \<open>i\<close> shards, the tags of the first \<open>i\<close> counters are cleared.\<close>

definition cleared_upto :: "nat \<Rightarrow> SdarcInner \<Rightarrow> SdarcInner" where
  "cleared_upto i ob = ob\<lparr>counters := map itc_clear_tag (take i (counters ob)) @ drop i (counters ob)\<rparr>"

lemma cleared_upto_step:
  assumes "i < length (counters ob)"
  shows "counters (cleared_upto i ob) ! i = counters ob ! i"
    "(cleared_upto i ob)\<lparr>counters := (counters (cleared_upto i ob))[i := itc_clear_tag (counters ob ! i)]\<rparr>
       = cleared_upto (Suc i) ob"
  using assms
  by (simp_all add: cleared_upto_def nth_append list_update_append take_Suc_conv_app_nth
      flip: Cons_nth_drop_Suc)

lemma cleared_upto_ends: "cleared_upto 0 ob = ob" "length (counters ob) \<le> n \<Longrightarrow> cleared_upto n ob = clear_tags ob"
  by (simp_all add: cleared_upto_def clear_tags_def)

lemma set_obj_twice [simp]: "set_obj p ob (set_obj p ob' w) = set_obj p ob w"
  by (simp add: set_obj_def)

lemma set_obj_same: "heap w p = Some ob \<Longrightarrow> set_obj p ob w = w"
  by (cases w) (auto simp: set_obj_def)

lemma quiet_set_obj:
  "quiet w \<Longrightarrow> heap w p = Some ob \<Longrightarrow> length (counters ob') = length (counters ob) \<Longrightarrow> quiet (set_obj p ob' w)"
  by (auto simp: quiet_def inv_len_def set_obj_def)

lemma clear_read_steps:
  assumes "quiet w" "heap w p = Some ob" "counters_ptr ob = a" "i \<le> shards w"
  shows "alone\<^sup>*\<^sup>* (stage fp n (ClearRead a p i acc) ks (set_obj p (cleared_upto i ob) w))
    (stage fp n (ClearRead a p (shards w) (acc + rc_sum itc_ref_count (drop i (counters ob)))) ks
       (set_obj p (clear_tags ob) w))"
  using assms(4)
proof (induction i arbitrary: acc rule: inc_induct)
  case base
  have "length (counters ob) = shards w" using assms(1,2) by (simp add: quiet_def inv_len_def)
  then show ?case by (simp add: rc_sum_def cleared_upto_ends)
next
  case (step i)
  have i: "i < length (counters ob)" using assms(1,2) step.hyps by (simp add: quiet_def inv_len_def)
  have e: "acc + rc_sum itc_ref_count (drop i (counters ob)) =
      (acc + itc_ref_count (counters ob ! i)) + rc_sum itc_ref_count (drop (Suc i) (counters ob))"
    using i by (simp add: rc_sum_def sum_list_drop_Suc)
  have h: "heap (set_obj p (cleared_upto i ob) w) p = Some (cleared_upto i ob)"
    "counters_ptr (cleared_upto i ob) = a" "shards (set_obj p (cleared_upto i ob) w) = shards w"
    using assms(3) by (simp_all add: set_obj_def cleared_upto_def)
  have "length (counters (cleared_upto i ob)) = length (counters ob)"
    using i by (simp add: cleared_upto_def)
  from quiet_set_obj [OF assms(1,2) this] show ?case
    by (rule steps_cons)
      (use h step.hyps in \<open>simp add: clear_tags_and_read_ref_count_sum_relaxed_def at_slot_def cleared_upto_step [OF i]\<close>,
       unfold e, rule step.IH)
qed

lemma recheck_steps:
  assumes "quiet w" "heap w p = Some ob" "counters_ptr ob = a" "i \<le> shards w"
  shows "alone\<^sup>*\<^sup>* (stage fp n (ReCheck a p i acc) ks w)
    (if \<exists>c \<in> set (drop i (counters ob)). itc_tag c
     then stage fp n Visit ks (set_coll (finish_visit a p DefaultState) w)
     else stage fp n (ReCheck a p (shards w) (acc + rc_sum itc_ref_count (drop i (counters ob)))) ks w)"
  using assms(4)
proof (induction i arbitrary: acc rule: inc_induct)
  case base
  then show ?case using assms(1,2) by (simp add: rc_sum_def quiet_def inv_len_def)
next
  case (step i)
  have i: "i < length (counters ob)" using assms(1,2) step.hyps by (simp add: quiet_def inv_len_def)
  then have e: "acc + rc_sum itc_ref_count (drop i (counters ob)) =
      (acc + itc_ref_count (counters ob ! i)) + rc_sum itc_ref_count (drop (Suc i) (counters ob))"
    by (simp add: rc_sum_def sum_list_drop_Suc)
  have d: "(\<exists>c \<in> set (drop i (counters ob)). itc_tag c) \<longleftrightarrow>
      itc_tag (counters ob ! i) \<or> (\<exists>c \<in> set (drop (Suc i) (counters ob)). itc_tag c)"
    using i by (simp flip: Cons_nth_drop_Suc)
  note defs = read_ref_count_sum_if_all_tags_unset_acquire_def at_slot_def
  show ?case
  proof (cases "itc_tag (counters ob ! i)")
    case True
    then have "collector_at (ReCheck a p i acc) (stage fp n (ReCheck a p i acc) ks w) =
        Next (stage fp n Visit ks (set_coll (finish_visit a p DefaultState) w))"
      using assms(2,3) step.hyps by (simp add: defs finish_stage)
    from steps_cons [OF assms(1) this] True show ?thesis by (simp add: d)
  next
    case False
    then have "collector_at (ReCheck a p i acc) (stage fp n (ReCheck a p i acc) ks w) =
        Next (stage fp n (ReCheck a p (Suc i) (acc + itc_ref_count (counters ob ! i))) ks w)"
      using assms(2,3) step.hyps by (simp add: defs)
    from steps_cons [OF assms(1) this step.IH] False show ?thesis by (auto simp: d e split: if_splits)
  qed
qed

lemma todo_stage [simp]:
  "set_coll (\<lambda>c. c\<lparr>todo := ks', cpc := q'\<rparr>) (stage fp n q ks w) = stage fp n q' ks' w"
  "set_coll (\<lambda>c. c\<lparr>todo := ks'\<rparr>) (stage fp n q ks w) = stage fp n q ks' w"
  unfolding stage_def set_coll_def by (cases "coll w", simp)+

lemma zero_sum_steps:
  assumes "quiet w" and ob: "heap w p = Some ob" "counters_ptr ob = a" and z: "ref_count_sum ob = 0"
  shows "alone\<^sup>*\<^sup>* (stage fp n (PreRead a p (shards w) 0) ks w)
    (stage fp n Visit ks (set_coll (finish_visit a p RequiresReChecking) (set_obj p (clear_tags ob) w)))"
proof -
  let ?w = "set_obj p (clear_tags ob) w"
  have "collector_at (PreRead a p (shards w) 0) (stage fp n (PreRead a p (shards w) 0) ks w)
      = Next (stage fp n (ClearRead a p 0 0) ks w)"
    by (simp add: read_ref_count_sum_relaxed_def)
  moreover have "alone\<^sup>*\<^sup>* (stage fp n (ClearRead a p 0 0) ks w) (stage fp n (ClearRead a p (shards w) 0) ks ?w)"
    using clear_read_steps [OF assms(1) ob, of 0 fp n 0 ks] z
    by (simp add: ref_count_sum_def cleared_upto_ends set_obj_same [OF ob(1)])
  moreover have "collector_at (ClearRead a p (shards w) 0) (stage fp n (ClearRead a p (shards w) 0) ks ?w)
      = Next (stage fp n Visit ks (set_coll (finish_visit a p RequiresReChecking) ?w))"
    by (simp add: clear_tags_and_read_ref_count_sum_relaxed_def finish_stage) (simp add: set_obj_def)
  moreover have "quiet ?w" by (rule quiet_set_obj [OF assms(1) ob(1)]) (simp add: clear_tags_def)
  ultimately show ?thesis by (meson assms(1) rtranclp.rtrancl_refl rtranclp_trans steps_cons)
qed

lemma default_state_runs:
  assumes "quiet w" "map_of (tracked_counters (coll w)) a = Some tc" "tstate tc = DefaultState"
  shows "runs (stage fp n Visit ks) (stage fp n Visit (a # ks) w) (update_tracked a w)"
proof -
  let ?p = "fat_ptr tc" and ?fin = "\<lambda>st w. stage fp n Visit ks (set_coll (finish_visit a (fat_ptr tc) st) w)"
  have v: "alone\<^sup>*\<^sup>* (stage fp n Visit (a # ks) w) (stage fp n (PreRead a ?p 0 0) ks w)"
    by (rule step_stage [OF assms(1)]) (simp add: visit_def assms(2,3))
  show ?thesis
  proof (cases "read_slot a ?p w")
    case (Inl f)
    then have "at_slot a ?p w k = Fault f" for k
      by (auto simp: read_slot_def at_slot_def split: option.splits if_splits)
    then have "alone_step (stage fp n (PreRead a ?p 0 0) ks w) = Fault f"
      using assms(1) by (intro fault_stage) (simp_all add: quiet_def read_ref_count_sum_relaxed_def at_slot_def)
    with v Inl show ?thesis
      by (simp add: update_tracked_def update_state_def assms(2,3) runs_after [OF v] runs_fault)
  next
    case (Inr ob)
    then have ob: "heap w ?p = Some ob" "counters_ptr ob = a"
      by (auto simp: read_slot_def split: option.splits if_splits)
    let ?s = "ref_count_sum ob"
    have s: "alone\<^sup>*\<^sup>* (stage fp n Visit (a # ks) w) (stage fp n (PreRead a ?p (shards w) ?s) ks w)"
      using v pre_read_steps [OF assms(1) ob, of 0 fp n 0 ks] by (simp add: ref_count_sum_def)
    show ?thesis
    proof (cases "?s = 0")
      case False
      then have "collector_at (PreRead a ?p (shards w) ?s) (stage fp n (PreRead a ?p (shards w) ?s) ks w)
          = Next (?fin DefaultState w)"
        by (simp add: read_ref_count_sum_relaxed_def finish_stage)
      from rtranclp_trans [OF s step_stage [OF assms(1) this]] False Inr show ?thesis
        by (simp add: update_tracked_def update_state_def assms(2,3))
    next
      case True
      from rtranclp_trans [OF s [unfolded True] zero_sum_steps [OF assms(1) ob True]] True Inr show ?thesis
        by (simp add: update_tracked_def update_state_def assms(2,3))
    qed
  qed
qed

lemma res_bind_assoc: "res_bind (res_bind r f) g = res_bind r (\<lambda>x. res_bind (f x) g)"
  by (cases r) simp_all

lemma clear_backref_stage:
  "clear_weak_backref_impl p (stage fp n q ks w) =
     (case clear_weak_backref_impl p w of Inl f \<Rightarrow> Inl f | Inr (r, w') \<Rightarrow> Inr (r, stage fp n q ks w'))"
  by (simp add: clear_weak_backref_impl_def split: option.split payload.split)

lemma clear_weak_steps:
  assumes "quiet w"
  shows "runs (stage fp n Visit ks) (stage fp n (ClearWeak a p) ks w)
    (res_bind (clear_weak_backref_impl p w) (\<lambda>(r, w').
       Inr (set_coll (finish_visit a p (if r = WeakBackRefCleared then RequiresReChecking else ReadyToFree)) w')))"
proof (cases "clear_weak_backref_impl p w")
  case (Inl f)
  then have "collector_at (ClearWeak a p) (stage fp n (ClearWeak a p) ks w) = Fault f"
    by (simp add: clear_weak_back_ref_def clear_backref_stage)
  from runs_fault [OF fault_stage [OF assms this]] Inl show ?thesis by simp
next
  case (Inr x)
  then obtain r w' where x: "clear_weak_backref_impl p w = Inr (r, w')" by (cases x) auto
  then have "collector_at (ClearWeak a p) (stage fp n (ClearWeak a p) ks w) = Next (stage fp n Visit ks
      (set_coll (finish_visit a p (if r = WeakBackRefCleared then RequiresReChecking else ReadyToFree)) w'))"
    by (cases r) (simp_all add: clear_weak_back_ref_def clear_backref_stage finish_stage)
  from step_stage [OF assms this] x show ?thesis by simp
qed

lemma recheck_sum_runs:
  assumes "quiet w" "map_of (tracked_counters (coll w)) a = Some tc" "tstate tc = RequiresReChecking"
    and ob: "read_slot a (fat_ptr tc) w = Inr ob" "\<forall>c \<in> set (counters ob). \<not> itc_tag c"
  shows "runs (stage fp n Visit ks) (stage fp n (ReCheck a (fat_ptr tc) (shards w) (ref_count_sum ob)) ks w) (update_tracked a w)"
proof -
  let ?p = "fat_ptr tc" and ?s = "ref_count_sum ob"
  note defs = update_tracked_def update_state_def assms(2,3) ref_count_sum_if_all_tags_unset_def list_ex_iff
  show ?thesis
  proof (cases "?s = 0")
    case True
    then have "collector_at (ReCheck a ?p (shards w) ?s) (stage fp n (ReCheck a ?p (shards w) ?s) ks w)
        = Next (stage fp n (ClearWeak a ?p) ks w)"
      by (simp add: read_ref_count_sum_if_all_tags_unset_acquire_def)
    note c = step_stage [OF assms(1) this]
    show ?thesis
      using True ob clear_weak_steps [OF assms(1), where a = a and p = ?p and fp = fp and n = n and ks = ks]
      by (intro runs_after [OF c]) (simp add: defs res_bind_assoc case_prod_beta')
  qed (use ob step_stage [OF assms(1)] fault_stage [OF assms(1)] in
      \<open>auto simp: defs read_ref_count_sum_if_all_tags_unset_acquire_def finish_stage intro!: runs_fault\<close>)
qed

lemma recheck_state_runs:
  assumes "quiet w" "map_of (tracked_counters (coll w)) a = Some tc" "tstate tc = RequiresReChecking"
  shows "runs (stage fp n Visit ks) (stage fp n Visit (a # ks) w) (update_tracked a w)"
proof -
  let ?p = "fat_ptr tc" and ?fin = "\<lambda>st w. stage fp n Visit ks (set_coll (finish_visit a (fat_ptr tc) st) w)"
  have v: "alone\<^sup>*\<^sup>* (stage fp n Visit (a # ks) w) (stage fp n (ReCheck a ?p 0 0) ks w)"
    by (rule step_stage [OF assms(1)]) (simp add: visit_def assms(2,3))
  note defs = update_tracked_def update_state_def assms(2,3) ref_count_sum_if_all_tags_unset_def list_ex_iff
  show ?thesis
  proof (cases "read_slot a ?p w")
    case (Inl f)
    then have "alone_step (stage fp n (ReCheck a ?p 0 0) ks w) = Fault f"
      using assms(1) by (intro fault_stage)
        (auto simp: quiet_def read_ref_count_sum_if_all_tags_unset_acquire_def at_slot_def read_slot_def
          split: option.splits if_splits)
    with Inl show ?thesis by (simp add: defs runs_after [OF v] runs_fault)
  next
    case (Inr ob)
    then have ob: "heap w ?p = Some ob" "counters_ptr ob = a"
      by (auto simp: read_slot_def split: option.splits if_splits)
    let ?s = "ref_count_sum ob"
    have s: "alone\<^sup>*\<^sup>* (stage fp n Visit (a # ks) w) (if \<exists>c \<in> set (counters ob). itc_tag c
        then ?fin DefaultState w else stage fp n (ReCheck a ?p (shards w) ?s) ks w)"
      using rtranclp_trans [OF v recheck_steps [OF assms(1) ob, of 0 fp n 0 ks]]
      by (simp add: ref_count_sum_def cong: if_cong split del: if_split)
    show ?thesis
    proof (cases "\<exists>c \<in> set (counters ob). itc_tag c")
      case True
      with s Inr show ?thesis by (simp add: defs)
    next
      case False
      with s have s: "alone\<^sup>*\<^sup>* (stage fp n Visit (a # ks) w) (stage fp n (ReCheck a ?p (shards w) ?s) ks w)"
        by (simp split: if_splits)
      show ?thesis by (rule runs_after [OF s recheck_sum_runs [OF assms Inr]]) (use False in blast)
    qed
  qed
qed

lemma clear_backref_quiet: "quiet w \<Longrightarrow> clear_weak_backref_impl p w = Inr (r, w') \<Longrightarrow> quiet w'"
  by (auto simp: clear_weak_backref_impl_def intro!: quiet_set_obj split: option.splits payload.splits)

text \<open>The five ways in which \<open>update_state\<close> ends.\<close>

lemma update_state_cases:
  assumes "update_state a tc w = Inr (st, w')"
  obtains (nonzero) ob where "heap w (fat_ptr tc) = Some ob" "counters_ptr ob = a" "tstate tc = DefaultState"
      "ref_count_sum ob \<noteq> 0" "st = DefaultState" "w' = w"
  | (cleared) ob where "heap w (fat_ptr tc) = Some ob" "counters_ptr ob = a" "tstate tc = DefaultState"
      "ref_count_sum ob = 0" "st = RequiresReChecking" "w' = set_obj (fat_ptr tc) (clear_tags ob) w"
  | (tagged) ob where "heap w (fat_ptr tc) = Some ob" "counters_ptr ob = a" "tstate tc = RequiresReChecking"
      "\<exists>c \<in> set (counters ob). itc_tag c" "st = DefaultState" "w' = w"
  | (positive) ob where "heap w (fat_ptr tc) = Some ob" "counters_ptr ob = a" "tstate tc = RequiresReChecking"
      "\<forall>c \<in> set (counters ob). \<not> itc_tag c" "0 < ref_count_sum ob" "st = DefaultState" "w' = w"
  | (zero) ob r where "heap w (fat_ptr tc) = Some ob" "counters_ptr ob = a" "tstate tc = RequiresReChecking"
      "\<forall>c \<in> set (counters ob). \<not> itc_tag c" "ref_count_sum ob = 0"
      "clear_weak_backref_impl (fat_ptr tc) w = Inr (r, w')"
      "st = (if r = WeakBackRefCleared then RequiresReChecking else ReadyToFree)"
proof -
  from assms obtain ob where ob: "read_slot a (fat_ptr tc) w = Inr ob" and nr: "tstate tc \<noteq> ReadyToFree"
    by (cases "tstate tc") (auto simp: update_state_def res_bind_eq_Inr)
  then have h: "heap w (fat_ptr tc) = Some ob" "counters_ptr ob = a"
    by (auto simp: read_slot_def split: option.splits if_splits)
  show thesis
  proof (cases "tstate tc")
    case DefaultState
    with assms ob h show ?thesis
      by (cases "ref_count_sum ob = 0") (auto simp: update_state_def intro: nonzero cleared)
  next
    case RequiresReChecking
    consider "\<exists>c \<in> set (counters ob). itc_tag c"
      | "\<forall>c \<in> set (counters ob). \<not> itc_tag c" "ref_count_sum ob = 0"
      | "\<forall>c \<in> set (counters ob). \<not> itc_tag c" "0 < ref_count_sum ob"
      | "\<forall>c \<in> set (counters ob). \<not> itc_tag c" "ref_count_sum ob < 0"
      by (metis linorder_less_linear)
    then show ?thesis
      using assms RequiresReChecking ob
      by cases (auto simp: update_state_def ref_count_sum_if_all_tags_unset_def list_ex_iff res_bind_eq_Inr
          intro: tagged [OF h] positive [OF h] zero [OF h])
  qed (use nr in simp)
qed

lemma update_tracked_cases:
  assumes "update_tracked a w = Inr w'"
  obtains (untracked) "map_of (tracked_counters (coll w)) a = None" "w' = w"
  | (updated) tc st w1 where "map_of (tracked_counters (coll w)) a = Some tc" "update_state a tc w = Inr (st, w1)"
      "w' = set_coll (finish_visit a (fat_ptr tc) st) w1"
  using assms by (auto simp: update_tracked_def res_bind_eq_Inr split: option.splits)

lemma update_state_quiet:
  assumes "quiet w" "update_state a tc w = Inr (st, w')"
  shows "quiet w'"
  using assms(2)
  by (cases rule: update_state_cases)
    (auto simp: clear_tags_def intro: assms(1) quiet_set_obj [OF assms(1)] clear_backref_quiet [OF assms(1)])

text \<open>The pass over the entries of the map is the pass over its keys: no visit changes another entry.\<close>

lemma update_state_coll: "update_state a tc w = Inr (st, w') \<Longrightarrow> coll w' = coll w"
  by (cases rule: update_state_cases)
    (auto simp: set_obj_def clear_weak_backref_impl_def split: option.splits payload.splits if_splits)

lemma update_entries:
  assumes "sorted_keys (tracked_counters (coll w))" "distinct (map fst es)"
    and "\<And>a tc. (a, tc) \<in> set es \<Longrightarrow> map_of (tracked_counters (coll w)) a = Some tc"
  shows "for_r es update_entry w = for_r (map fst es) update_tracked w"
  using assms
proof (induction es arbitrary: w)
  case (Cons e es)
  obtain a tc where e: "e = (a, tc)" by (cases e)
  have one: "update_tracked a w = update_entry (a, tc) w"
    using Cons.prems(3) [of a tc] by (simp add: e update_tracked_def update_entry_def)
  have "for_r es update_entry w' = for_r (map fst es) update_tracked w'" if u: "update_entry (a, tc) w = Inr w'" for w'
  proof (rule Cons.IH)
    from u obtain st w1 where w1: "update_state a tc w = Inr (st, w1)" "w' = set_coll (finish_visit a (fat_ptr tc) st) w1"
      by (auto simp: update_entry_def res_bind_eq_Inr)
    have m: "tracked_counters (coll w') = map_insert a \<lparr>fat_ptr = fat_ptr tc, tstate = st\<rparr> (tracked_counters (coll w))"
      by (simp add: w1(2) finish_visit_def update_state_coll [OF w1(1)])
    then show "sorted_keys (tracked_counters (coll w'))" using sorted_map_insert Cons.prems(1) by simp
    show "map_of (tracked_counters (coll w')) b = Some tb" if b: "(b, tb) \<in> set es" for b tb
      using Cons.prems(2) Cons.prems(3) [of b tb] b by (force simp: m map_of_map_insert [OF Cons.prems(1)] e)
  qed (use Cons.prems(2) in simp)
  then show ?case unfolding e by (cases "update_entry (a, tc) w") (simp_all add: one)
qed simp

lemma update_all_eq:
  assumes "sorted_keys (tracked_counters (coll w))"
  shows "update_all_tracked_counters w = update_counters (map fst (tracked_counters (coll w))) w"
  unfolding update_all_tracked_counters_def update_counters_def
  by (subst update_entries) (use assms sorted_keys_distinct [OF assms] in \<open>auto simp: begin_pass_def\<close>)

lemma update_tracked_runs:
  assumes "quiet w"
  shows "runs (stage fp n Visit ks) (stage fp n Visit (a # ks) w) (update_tracked a w)
    \<and> (\<forall>w'. update_tracked a w = Inr w' \<longrightarrow> quiet w')"
proof (intro conjI allI impI)
  show "runs (stage fp n Visit ks) (stage fp n Visit (a # ks) w) (update_tracked a w)"
  proof (cases "map_of (tracked_counters (coll w)) a")
    case None
    then show ?thesis
      using step_stage [OF assms, where q = Visit and ks = "a # ks" and fp = fp and n = n] by (simp add: update_tracked_def visit_def)
  next
    case (Some tc)
    show ?thesis
    proof (cases "tstate tc")
      case ReadyToFree
      with Some have "collector_at Visit (stage fp n Visit (a # ks) w) = Fault (CollectorPanic AssertionFailed)"
        by (simp add: visit_def)
      from runs_fault [OF fault_stage [OF assms this]] Some ReadyToFree show ?thesis
        by (simp add: update_tracked_def update_state_def)
    qed (use default_state_runs [OF assms Some] recheck_state_runs [OF assms Some] in auto)
  qed
  fix w' assume "update_tracked a w = Inr w'"
  then show "quiet w'"
    by (cases rule: update_tracked_cases) (use assms update_state_quiet in auto)
qed

lemma visits_run:
  assumes "quiet w"
  shows "runs (stage fp n Visit []) (stage fp n Visit ks w) (for_r ks update_tracked w)
    \<and> (\<forall>w'. for_r ks update_tracked w = Inr w' \<longrightarrow> quiet w')"
  by (rule runs_for [where I = quiet]) (use assms update_tracked_runs in auto)

subsection \<open>Freeing\<close>

text \<open>The vector \<open>to_free\<close> is consumed as the loop goes.\<close>

definition free_stage :: "bool \<Rightarrow> nat \<Rightarrow> cptr list \<Rightarrow> world \<Rightarrow> world" where
  "free_stage fp n fs w = set_coll (\<lambda>c. c\<lparr>to_free := fs\<rparr>) (stage fp n Freeing [] w)"

definition drop_stage :: "bool \<Rightarrow> nat \<Rightarrow> cptr list \<Rightarrow> world \<Rightarrow> world" where
  "drop_stage fp n fs w = set_coll (\<lambda>c. c\<lparr>to_free := fs\<rparr>) (stage fp n UserDrop [] w)"

lemma drop_stage_simps [simp]:
  "heap (drop_stage fp n fs w) = heap w" "threads (drop_stage fp n fs w) = threads w"
  "cpc (coll (drop_stage fp n fs w)) = UserDrop" "shard_of t (drop_stage fp n fs w) = shard_of t w"
  "goto t q (drop_stage fp n fs w) = drop_stage fp n fs (goto t q w)"
  "set_obj p ob (drop_stage fp n fs w) = drop_stage fp n fs (set_obj p ob w)"
  "return t r (drop_stage fp n fs w) = drop_stage fp n fs (return t r w)"
  by (simp_all add: drop_stage_def stage_def set_coll_def world_ops)

lemma on_sdarc_drop_stage [simp]:
  "on_sdarc_drop t a (drop_stage fp n fs w) = drop_stage fp n fs (on_sdarc_drop t a w)"
  by (cases "coll w") (simp add: drop_stage_def stage_def set_coll_def on_sdarc_drop_def)

lemma drop_done: "pc (threads w ! 0) = Idle \<Longrightarrow> alone (drop_stage fp n fs w) (free_stage fp n fs w)"
  unfolding alone_iff
  by (simp add: alone_step_def collector_step_def cgoto_def)
    (cases "coll w", simp add: drop_stage_def free_stage_def stage_def set_coll_def)

lemma goto_simps:
  assumes "t < length (threads w)"
  shows "pc (threads (goto t q w) ! t) = q" "shard_of t (goto t q w) = shard_of t w" "heap (goto t q w) = heap w"
    "goto t q' (goto t q w) = goto t q' w" "return t r (goto t q w) = return t r w"
    "length (threads (goto t q w)) = length (threads w)"
    "set_obj p ob (goto t q w) = goto t q (set_obj p ob w)"
    "on_sdarc_drop t a (goto t q w) = goto t q (on_sdarc_drop t a w)"
  using assms by (simp_all add: world_ops)

lemma drop_weak_runs:
  assumes "0 < length (threads w)" "pc (threads w ! 0) = Idle"
  shows "runs (free_stage fp n fs) (drop_stage fp n fs (goto 0 (DropDec q) w)) (drop_weak_handle q w)"
proof (cases "heap w q")
  case None
  then show ?thesis
    using assms by (auto intro!: runs_fault simp: drop_weak_handle_def alone_step_def user_step_def
        Sdarc_drop_decrement_def modify_counter_def goto_def set_thread_def)
next
  case (Some wk)
  define wk' where "wk' = wk\<lparr>counters := (counters wk)[shard_of 0 w := itc_decrement (counters wk ! shard_of 0 w)]\<rparr>"
  define w1 where "w1 = set_obj q wk' w"
  let ?w2 = "return 0 NoRet (on_sdarc_drop 0 (counters_ptr wk) w1)"
  have w1: "heap w1 q = Some wk'" "counters_ptr wk' = counters_ptr wk" "threads w1 = threads w"
    "threads (on_sdarc_drop t x w1) = threads w" for t x
    by (simp_all add: w1_def wk'_def set_obj_def on_sdarc_drop_def)
  note g = assms(1) goto_simps [OF assms(1)] goto_simps [of 0 w1, unfolded w1, OF assms(1)]
    goto_simps [of 0 "on_sdarc_drop 0 (counters_ptr wk) w1", unfolded w1, OF assms(1)]
  have "alone (drop_stage fp n fs (goto 0 (DropDec q) w)) (drop_stage fp n fs (goto 0 (DropNotify q) w1))"
    unfolding alone_iff
    by (simp add: alone_step_def user_step_def Sdarc_drop_decrement_def modify_counter_def Some g del: length_greater_0_conv)
      (use assms(1) in \<open>simp add: w1_def wk'_def world_ops\<close>)
  moreover have "alone (drop_stage fp n fs (goto 0 (DropNotify q) w1)) (drop_stage fp n fs ?w2)"
    unfolding alone_iff
    by (simp add: alone_step_def user_step_def Sdarc_drop_notify_def g w1 del: length_greater_0_conv)
  moreover have "alone (drop_stage fp n fs ?w2) (free_stage fp n fs ?w2)"
    by (rule drop_done) (use assms w1 in \<open>simp add: return_def set_thread_def\<close>)
  ultimately show ?thesis using Some by (simp add: drop_weak_handle_def w1_def wk'_def)
qed

lemma runs_step: "alone w w1 \<Longrightarrow> runs k w1 r \<Longrightarrow> runs k w r"
  by (rule runs_after) auto

lemma free_pointer_runs:
  assumes "quiet w"
  shows "runs (free_stage fp n fs) (free_stage fp n (a # fs) w) (free_pointer a w)"
proof -
  let ?start = "free_stage fp n (a # fs) w"
  have st: "alone_step ?start = free_pointers ?start"
    using assms by (simp add: alone_step_def collector_step_def free_stage_def quiet_def)
  note defs = free_pointers_def free_pointer_def drop_sdarc_inner_def drop_inner_def free_stage_def Let_def
  show ?thesis
  proof (cases "free_pointers ?start")
    case Disabled
    then show ?thesis by (auto simp: defs split: option.splits if_splits payload.splits)
  next
    case (Fault f)
    then have "free_pointer a w = Inl f" by (auto simp: defs split: option.splits if_splits payload.splits)
    with Fault st show ?thesis by (simp add: runs_fault)
  next
    case (Next w1)
    then obtain tc ob where tc: "map_of (tracked_counters (coll w)) a = Some tc" "tstate tc = ReadyToFree"
        "heap w (fat_ptr tc) = Some ob" "counters_ptr ob = a" "\<nexists>x. data ob = WeakSdarcInner (Some x)"
      by (auto simp: defs split: option.splits if_splits payload.splits)
    let ?w = "(set_coll (\<lambda>c. c\<lparr>tracked_counters := map_remove a (tracked_counters c)\<rparr>) w)
      \<lparr>heap := (heap w)(fat_ptr tc := None), used_slots := used_slots w - {a}\<rparr>"
    have q: "0 < length (threads ?w)" "pc (threads ?w ! 0) = Idle" using assms by (simp_all add: quiet_def)
    have f: "free_pointer a w = (case weak_inner_ref ob of None \<Rightarrow> Inr ?w | Some q \<Rightarrow> drop_weak_handle q ?w)"
      using tc by (auto simp: free_pointer_def drop_inner_def Let_def split: payload.splits option.splits)
    have w1: "w1 = drop_stage fp n fs (case weak_inner_ref ob of None \<Rightarrow> ?w | Some q \<Rightarrow> goto 0 (DropDec q) ?w)"
      using Next tc by (cases w, cases "coll w") (auto simp: defs drop_stage_def stage_def set_coll_def cgoto_def
          goto_def set_thread_def split: payload.splits option.splits)
    have "alone ?start w1" using st Next by (simp add: alone_iff)
    then show ?thesis
      unfolding f w1
      by (rule runs_step) (use drop_done [OF q(2), of fp n fs] drop_weak_runs [OF q] in \<open>auto split: option.split\<close>)
  qed
qed

text \<open>What freeing one object does.\<close>

definition removed :: "cptr \<Rightarrow> ptr \<Rightarrow> world \<Rightarrow> world" where
  "removed a p w = (set_coll (\<lambda>c. c\<lparr>tracked_counters := map_remove a (tracked_counters c)\<rparr>) w)
     \<lparr>heap := (heap w)(p := None), used_slots := used_slots w - {a}\<rparr>"

definition weak_dropped :: "ptr \<Rightarrow> SdarcInner \<Rightarrow> world \<Rightarrow> world" where
  "weak_dropped q wk w = return 0 NoRet (on_sdarc_drop 0 (counters_ptr wk)
     (set_obj q (wk\<lparr>counters := (counters wk)[shard_of 0 w := itc_decrement (counters wk ! shard_of 0 w)]\<rparr>) w))"

lemma free_pointer_cases:
  assumes "free_pointer a w = Inr w'"
  obtains (plain) tc ob where "map_of (tracked_counters (coll w)) a = Some tc" "tstate tc = ReadyToFree"
      "heap w (fat_ptr tc) = Some ob" "counters_ptr ob = a" "weak_inner_ref ob = None" "w' = removed a (fat_ptr tc) w"
  | (weak) tc ob q wk where "map_of (tracked_counters (coll w)) a = Some tc" "tstate tc = ReadyToFree"
      "heap w (fat_ptr tc) = Some ob" "counters_ptr ob = a" "weak_inner_ref ob = Some q" "q \<noteq> fat_ptr tc"
      "heap w q = Some wk" "w' = weak_dropped q wk (removed a (fat_ptr tc) w)"
proof -
  from assms obtain tc ob where tc: "map_of (tracked_counters (coll w)) a = Some tc" "tstate tc = ReadyToFree"
      "heap w (fat_ptr tc) = Some ob" "counters_ptr ob = a"
    and d: "drop_inner (fat_ptr tc) ob (set_coll (\<lambda>c. c\<lparr>tracked_counters := map_remove a (tracked_counters c)\<rparr>) w) = Inr w'"
    by (auto simp: free_pointer_def split: option.splits if_splits)
  show thesis
  proof (cases "weak_inner_ref ob")
    case None
    with d tc(4) have "w' = removed a (fat_ptr tc) w"
      by (auto simp: drop_inner_def removed_def split: payload.splits option.splits)
    with plain [OF tc None] show ?thesis .
  next
    case (Some q)
    with d tc(4) have "drop_weak_handle q (removed a (fat_ptr tc) w) = Inr w'"
      by (auto simp: drop_inner_def removed_def split: payload.splits option.splits)
    then obtain wk where "q \<noteq> fat_ptr tc" "heap w q = Some wk" "w' = weak_dropped q wk (removed a (fat_ptr tc) w)"
      by (auto simp: drop_weak_handle_def weak_dropped_def removed_def split: option.splits if_splits)
    with weak [OF tc Some] show ?thesis by blast
  qed
qed

lemma free_pointer_quiet:
  assumes "quiet w" "free_pointer a w = Inr w'"
  shows "quiet w'"
proof -
  have r: "quiet (removed a p w)" for p using assms(1) by (auto simp: removed_def quiet_def inv_len_def)
  have "quiet (weak_dropped q wk w1)" if "quiet w1" "heap w1 q = Some wk" for q wk w1
    using that by (auto simp: weak_dropped_def quiet_def inv_len_def world_ops)
  from assms(2) this [OF r] show ?thesis
    by (cases rule: free_pointer_cases) (auto simp: r, simp add: removed_def)
qed

lemma frees_run:
  assumes "quiet w"
  shows "runs (free_stage fp n []) (free_stage fp n fs w) (for_r fs free_pointer w)
    \<and> (\<forall>w'. for_r fs free_pointer w = Inr w' \<longrightarrow> quiet w')"
  by (rule runs_for [where I = quiet]) (use assms free_pointer_runs free_pointer_quiet in auto)

lemma freeing_start:
  assumes "quiet w"
  shows "alone\<^sup>*\<^sup>* (stage fp n Visit [] w)
    (free_stage fp n (to_free (coll w)) (set_coll (\<lambda>c. c\<lparr>to_free := []\<rparr>) w))"
proof -
  have "free_stage fp n (to_free (coll w)) (set_coll (\<lambda>c. c\<lparr>to_free := []\<rparr>) w) = stage fp n Freeing [] w"
    by (cases w, cases "coll w") (simp add: free_stage_def stage_def set_coll_def)
  then show ?thesis
    using step_stage [OF assms, where q = Visit and ks = "[]" and fp = fp and n = n] by (simp add: visit_def)
qed

lemma free_all_runs:
  assumes "quiet w"
  shows "runs (free_stage fp n []) (stage fp n Visit [] w) (free_all w) \<and> (\<forall>w'. free_all w = Inr w' \<longrightarrow> quiet w')"
  using runs_after [OF freeing_start [OF assms, of fp n]] frees_run [of "set_coll (\<lambda>c. c\<lparr>to_free := []\<rparr>) w" fp n]
    assms by (auto simp: free_all_def)

subsection \<open>A pass\<close>

lemma spin_steps:
  assumes "quiet w" "i \<le> shards w"
  shows "alone\<^sup>*\<^sup>* (stage fp n (SpinScan i) ks w) (stage fp n Visit ks w)"
  using assms(2)
proof (induction i rule: inc_induct)
  case base
  have "alone\<^sup>*\<^sup>* (stage fp n (SpinScan (shards w)) ks w) (stage fp n SpinWait ks w)"
    by (rule step_stage [OF assms(1)]) (simp add: spin_scan_def)
  moreover have "alone\<^sup>*\<^sup>* (stage fp n SpinWait ks w) (stage fp n Visit ks w)"
    by (rule step_stage [OF assms(1)]) (simp add: spin_wait_def)
  ultimately show ?case by simp
next
  case (step i)
  have "alone\<^sup>*\<^sup>* (stage fp n (SpinScan i) ks w) (stage fp n (SpinScan (Suc i)) ks w)"
    by (rule step_stage [OF assms(1)], cases "coll w")
      (use assms(1) step.hyps in \<open>simp add: spin_scan_def quiet_def stage_def set_coll_def\<close>)
  with step.IH show ?case by simp
qed

lemma update_counters_runs:
  assumes "quiet w"
  shows "runs (free_stage fp n []) (stage fp n (SpinScan 0) ks (begin_pass w))
      (res_bind (for_r ks update_tracked (begin_pass w)) free_all)
    \<and> (\<forall>ks' w'. update_counters ks w = Inr (ks', w') \<longrightarrow> quiet w')"
proof -
  let ?w = "begin_pass w"
  have q: "quiet ?w" using assms by (simp add: begin_pass_def)
  note v = visits_run [OF q, of fp n ks]
  have "runs (free_stage fp n []) (stage fp n Visit ks ?w) (res_bind (for_r ks update_tracked ?w) free_all)"
    by (rule runs_bind) (use v free_all_runs in blast)+
  then have "runs (free_stage fp n []) (stage fp n (SpinScan 0) ks ?w) (res_bind (for_r ks update_tracked ?w) free_all)"
    by (rule runs_after [OF spin_steps [OF q], rotated]) simp
  moreover have "quiet w'" if "update_counters ks w = Inr (ks', w')" for ks' w'
    using that v free_all_runs by (auto simp: update_counters_def res_bind_eq_Inr take_to_recheck_def)
  ultimately show ?thesis by blast
qed

subsection \<open>The loops\<close>

text \<open>The collector parked, with nothing left to visit or to free.\<close>

definition parked :: "bool \<Rightarrow> nat \<Rightarrow> world \<Rightarrow> world" where
  "parked fp n w = set_coll (\<lambda>c. c\<lparr>to_free := []\<rparr>) (stage fp n Parked [] w)"

definition ends :: "world \<Rightarrow> fault + world \<Rightarrow> bool" where
  "ends w r \<longleftrightarrow> (case r of Inr w' \<Rightarrow> (\<exists>fp n. alone\<^sup>*\<^sup>* w (parked fp n w'))
     | Inl f \<Rightarrow> (\<exists>w1. alone\<^sup>*\<^sup>* w w1 \<and> alone_step w1 = Fault f))"

lemma ends_after: "alone\<^sup>*\<^sup>* w w1 \<Longrightarrow> ends w1 r \<Longrightarrow> ends w r"
  unfolding ends_def by (auto split: sum.splits intro: rtranclp_trans)

lemma ends_bind: "runs k w r \<Longrightarrow> (\<And>x. r = Inr x \<Longrightarrow> ends (k x) (f x)) \<Longrightarrow> ends w (res_bind r f)"
  using ends_after [of w] by (cases r) (auto simp: ends_def runs_def)

text \<open>Where the collector goes after a pass that leaves \<open>ks\<close> to re-check and \<open>k\<close> passes to go.\<close>

definition after_pass :: "bool \<Rightarrow> nat \<Rightarrow> nat \<Rightarrow> cptr list \<Rightarrow> world \<Rightarrow> world" where
  "after_pass fp n k ks w =
     (if k = 0 \<or> ks = [] then parked fp n w else stage False n (SpinScan 0) ks (begin_pass w))"

lemma end_pass_step:
  assumes "quiet w" "n' = (if fp then 0 else Suc n)" "n' + k = max_inner_iterations" "take_to_recheck w = (ks, w')"
  shows "alone (free_stage fp n [] w) (after_pass fp n' k ks w')"
proof -
  have "collector_step (free_stage fp n [] w) = Next (set_coll end_pass (free_stage fp n [] w))"
    using assms(1) by (simp add: collector_step_def free_stage_def quiet_def free_pointers_def)
  moreover have "set_coll end_pass (free_stage fp n [] w) = after_pass fp n' k ks w'"
    using assms(2-4) by (cases w, cases "coll w")
      (auto simp: end_pass_def after_pass_def take_to_recheck_def free_stage_def stage_def set_coll_def
        parked_def begin_pass_def start_pass_def Let_def)
  moreover have "pc (threads (free_stage fp n [] w) ! 0) = Idle"
    using assms(1) by (simp add: free_stage_def quiet_def)
  ultimately show ?thesis by (simp add: alone_iff alone_step_def)
qed

lemma pass_ends:
  assumes "quiet w" "n' = (if fp then 0 else Suc n)" "n' + k = max_inner_iterations"
    and "\<And>ks' w'. quiet w' \<Longrightarrow> ends (after_pass fp n' k ks' w') (f (ks', w'))"
  shows "ends (stage fp n (SpinScan 0) ks (begin_pass w)) (res_bind (update_counters ks w) f)"
proof -
  have "ends (stage fp n (SpinScan 0) ks (begin_pass w))
      (res_bind (res_bind (for_r ks update_tracked (begin_pass w)) free_all) (\<lambda>w2. f (take_to_recheck w2)))"
  proof (rule ends_bind)
    show "runs (free_stage fp n []) (stage fp n (SpinScan 0) ks (begin_pass w))
        (res_bind (for_r ks update_tracked (begin_pass w)) free_all)"
      using update_counters_runs [OF assms(1)] by blast
    fix w2 assume r: "res_bind (for_r ks update_tracked (begin_pass w)) free_all = Inr w2"
    obtain ks' w' where t: "take_to_recheck w2 = (ks', w')" by fastforce
    have "quiet (begin_pass w)" using assms(1) by (simp add: begin_pass_def)
    with r have q: "quiet w2" using visits_run free_all_runs unfolding res_bind_eq_Inr by metis
    then have "quiet w'" using t by (auto simp: take_to_recheck_def)
    from assms(4) [OF this] show "ends (free_stage fp n [] w2) (f (take_to_recheck w2))"
      unfolding t by (rule ends_after [OF r_into_rtranclp [of alone, OF end_pass_step [OF q assms(2,3) t]]])
  qed
  then show ?thesis by (simp add: update_counters_def res_bind_assoc)
qed

lemma re_check_ends:
  assumes "quiet w" "n + k = max_inner_iterations"
  shows "ends (after_pass fp n k ks w) (re_check_loop k ks w)"
  using assms
proof (induction k arbitrary: ks w n fp)
  case 0
  then show ?case by (auto simp: after_pass_def ends_def)
next
  case (Suc k)
  show ?case
  proof (cases "ks = []")
    case True
    then show ?thesis by (auto simp: after_pass_def ends_def)
  next
    case False
    have "ends (stage False n (SpinScan 0) ks (begin_pass w))
        (res_bind (update_counters ks w) (\<lambda>(ks', w'). re_check_loop k ks' w'))"
      by (rule pass_ends [OF Suc.prems(1), of "Suc n"]) (use Suc in auto)
    with False show ?thesis by (simp add: after_pass_def)
  qed
qed

lemma inner_iterations_end:
  assumes "quiet w" "sorted_keys (tracked_counters (coll w))"
  shows "ends (stage True 0 (SpinScan 0) (map fst (tracked_counters (coll w))) (begin_pass w))
    (do_collection_inner_iterations w)"
  unfolding do_collection_inner_iterations_def update_all_eq [OF assms(2)]
  by (rule pass_ends [OF assms(1), of 0]) (auto intro: re_check_ends)

lemma take_new_of_runs:
  assumes "quiet w" "i < shards w"
  shows "runs (cgoto (TakeNew (Suc i))) (cgoto (TakeNew i) w) (take_new_of i w)
    \<and> (\<forall>w'. take_new_of i w = Inr w' \<longrightarrow> quiet w' \<and> shards w' = shards w)"
proof -
  have st: "alone_step (cgoto (TakeNew i) w) = take_new_counters_to_track i (cgoto (TakeNew i) w)"
    using assms(1) by (simp add: alone_step_def collector_step_def quiet_def cgoto_def)
  have "runs (cgoto (TakeNew (Suc i))) (cgoto (TakeNew i) w) (take_new_of i w)"
  proof (cases "track_new (pending_to_track w ! i) (tracked_counters (coll w))")
    case (Inl e)
    then show ?thesis
      using assms(2) st by (simp add: take_new_of_def runs_fault take_new_counters_to_track_def cgoto_def)
  next
    case (Inr m)
    then have "take_new_of i w = Inr (set_coll (\<lambda>c. c\<lparr>tracked_counters := m\<rparr>)
        (w\<lparr>pending_to_track := (pending_to_track w)[i := []]\<rparr>))"
      by (simp add: take_new_of_def)
    with Inr st show ?thesis
      using assms(2) by (cases "coll w")
        (simp add: r_into_rtranclp alone_iff take_new_counters_to_track_def cgoto_def set_coll_def)
  qed
  then show ?thesis
    using assms(1) by (auto simp: take_new_of_def quiet_def inv_len_def split: sum.splits)
qed

lemma take_new_runs:
  assumes "i \<le> m" "quiet w" "shards w = m"
  shows "runs (cgoto (TakeNew m)) (cgoto (TakeNew i) w) (for_r [i..<m] take_new_of w)
    \<and> (\<forall>w'. for_r [i..<m] take_new_of w = Inr w' \<longrightarrow> quiet w' \<and> shards w' = m)"
  using assms
proof (induction i arbitrary: w rule: inc_induct)
  case base
  have "[m..<m] = []" by simp
  with base show ?case by (simp only: for_r.simps runs_Inr rtranclp.rtrancl_refl sum.inject) blast
next
  case (step i)
  note r = take_new_of_runs [of w i]
  have u: "[i..<m] = i # [Suc i..<m]" using step.hyps by (simp add: upt_conv_Cons)
  have "runs (cgoto (TakeNew m)) (cgoto (TakeNew i) w) (for_r [i..<m] take_new_of w)"
    unfolding u for_r.simps by (rule runs_bind) (use r step in blast)+
  moreover have "quiet w' \<and> shards w' = m" if f: "for_r [i..<m] take_new_of w = Inr w'" for w'
  proof -
    from f obtain w1 where "take_new_of i w = Inr w1" "for_r [Suc i..<m] take_new_of w1 = Inr w'"
      unfolding u for_r.simps res_bind_eq_Inr by blast
    with r step show ?thesis by blast
  qed
  ultimately show ?case by blast
qed

lemma track_new_sorted: "track_new xs m = Inr m' \<Longrightarrow> sorted_keys m \<Longrightarrow> sorted_keys m'"
  by (induction xs m rule: track_new.induct) (auto intro: sorted_map_insert split: if_splits)

lemma take_new_sorted:
  assumes "for_r is take_new_of w = Inr w'" "sorted_keys (tracked_counters (coll w))"
  shows "sorted_keys (tracked_counters (coll w'))"
  using assms by (rule for_r_invariant) (auto simp: take_new_of_def track_new_sorted split: sum.splits)

lemma first_pass_step:
  assumes "quiet w"
  shows "alone (cgoto (TakeNew (shards w)) w)
    (stage True 0 (SpinScan 0) (map fst (tracked_counters (coll w))) (begin_pass w))"
  using assms by (cases w, cases "coll w")
    (simp add: alone_iff alone_step_def collector_step_def quiet_def cgoto_def set_coll_def
      take_new_counters_to_track_def start_pass_def stage_def begin_pass_def)

theorem update_ends:
  assumes "quiet w" "sorted_keys (tracked_counters (coll w))" "cpc (coll w) = Parked"
  shows "ends w (CollectorThreadState_update w)"
proof -
  have "alone w (cgoto (TakeNew 0) w)"
    using assms by (simp add: alone_iff alone_step_def collector_step_def quiet_def)
  note start = r_into_rtranclp [of alone, OF this]
  have "ends (cgoto (TakeNew 0) w) (CollectorThreadState_update w)"
    unfolding CollectorThreadState_update_def
  proof (rule ends_bind)
    note r = take_new_runs [OF le0 assms(1) refl]
    show "runs (cgoto (TakeNew (shards w))) (cgoto (TakeNew 0) w) (for_r [0..<shards w] take_new_of w)"
      using r by blast
    fix w' assume t: "for_r [0..<shards w] take_new_of w = Inr w'"
    with r have q: "quiet w'" "shards w = shards w'" by metis+
    show "ends (cgoto (TakeNew (shards w)) w') (do_collection_inner_iterations w')"
      unfolding q(2)
      by (rule ends_after [OF r_into_rtranclp [of alone, OF first_pass_step [OF q(1)]] inner_iterations_end [OF q(1) take_new_sorted [OF t assms(2)]]])
  qed
  then show ?thesis by (rule ends_after [OF start])
qed

section \<open>The collector alone in a reachable state\<close>

lemma reachable_sorted: "reachable w \<Longrightarrow> sorted_keys (tracked_counters (coll w))"
  using invD(8) [OF reachable_inv] by (simp add: inv_track_def)

lemma alone_reachable: "reachable w \<Longrightarrow> alone w w' \<Longrightarrow> reachable w'"
  unfolding alone_iff alone_step_def
  by (rule reach_step, assumption, rule sys_step.intros [of "if pc (threads w ! 0) = Idle then Collector else User 0 Continue"])
    (auto split: if_splits)

lemma alone_steps_reachable: "alone\<^sup>*\<^sup>* w w' \<Longrightarrow> reachable w \<Longrightarrow> reachable w'"
  by (induction rule: rtranclp_induct) (auto intro: alone_reachable)

text \<open>
  The read after the decrement in \<open>Sdarc::drop\<close> is harmless in the collector thread: only the
  collector itself frees.
\<close>

definition notify_alive :: "world \<Rightarrow> bool" where
  "notify_alive w \<longleftrightarrow> (\<forall>p. pc (threads w ! 0) = DropNotify p \<longrightarrow> heap w p \<noteq> None)"

lemma collector_thread0:
  "collector_step w = Next w' \<Longrightarrow> pc (threads w' ! 0) = Idle \<or> (\<exists>q. pc (threads w' ! 0) = DropDec q)"
  by (cases "cpc (coll w)"; cases "0 < length (threads w)")
    (auto simp: collector_step_def collector_defs set_obj_def free_pointers_def
      drop_sdarc_inner_def goto_def set_thread_def Let_def
      split: if_splits option.splits payload.splits sum.splits list.splits TrackedCounterState.splits
        ClearWeakBackRefResult.splits prod.splits)

lemma continue_notify:
  "continue 0 x w = Next w' \<Longrightarrow> 0 < length (threads w) \<Longrightarrow> pc (threads w' ! 0) = DropNotify p \<Longrightarrow> heap w' p \<noteq> None"
  by (cases x) (auto simp: user_op_defs world_ops modify_counter_Next split: if_splits option.splits payload.splits)

lemma alone_notify: "alone w w' \<Longrightarrow> notify_alive w'"
  unfolding alone_iff alone_step_def notify_alive_def
  using collector_thread0 [of w w'] continue_notify [of "pc (threads w ! 0)" w w']
  by (force simp: user_step_def split: if_splits)

lemma alone_no_fault:
  assumes "reachable w" "notify_alive w"
  shows "alone_step w \<noteq> Fault f"
proof
  assume f: "alone_step w = Fault f"
  let ?e = "if pc (threads w ! 0) = Idle then Collector else User 0 Continue"
  from f have "uc_step ?e w = Fault f" by (simp add: alone_step_def split: if_splits)
  from uc_step_fault [OF sys.reach_inv [OF assms(1)] this]
  obtain p where p: "pc (threads w ! 0) = DropNotify p" by (auto split: if_splits)
  with assms(2) f show False
    by (auto simp: notify_alive_def alone_step_def user_step_def Sdarc_drop_notify_def split: if_splits)
qed

lemma alone_steps_no_fault:
  assumes "reachable w" "pc (threads w ! 0) = Idle" "alone\<^sup>*\<^sup>* w w'"
  shows "alone_step w' \<noteq> Fault f"
proof -
  have "notify_alive w'" using assms(3)
    by (cases rule: rtranclp.cases) (use assms(2) alone_notify in \<open>auto simp: notify_alive_def\<close>)
  then show ?thesis using alone_no_fault [OF alone_steps_reachable [OF assms(3,1)]] by blast
qed

text \<open>No user thread is in a reader critical section and the collector thread is between its own calls.\<close>

definition undisturbed :: "world \<Rightarrow> bool" where
  "undisturbed w \<longleftrightarrow> cpc (coll w) = Parked \<and> pc (threads w ! 0) = Idle
     \<and> (\<forall>th \<in> set (threads w). \<not> in_critical (pc th))"

lemma undisturbed_quiet: "reachable w \<Longrightarrow> undisturbed w \<Longrightarrow> quiet w"
  using invD(1,2,5) [OF reachable_inv, of w]
  by (auto simp: quiet_def undisturbed_def inv_shape_def inv_critical_def readers_in_def sum_list_eq_0_iff)

text \<open>
  A concrete state: thread 1 has created object 10 and a weak reference to it, the inner object 12, and
  has dropped both handles.
\<close>

definition garbage_run :: "event list" where
  "garbage_run = [User 1 (New 10 20 7), User 1 (Downgrade 10 12 22), User 1 Continue,
     User 1 (Drop 12), User 1 Continue, User 1 Continue, User 1 (Drop 10), User 1 Continue, User 1 Continue]"

definition garbage :: world where
  "garbage = \<lparr>shards = 1,
     heap = [10 \<mapsto> \<lparr>counters_ptr = 20, counters = [1], weak_inner_ref = Some 12, data = UserData 7\<rparr>,
       12 \<mapsto> \<lparr>counters_ptr = 22, counters = [3], weak_inner_ref = None, data = WeakSdarcInner (Some 10)\<rparr>],
     used_slots = {20, 22}, atomics = [], handles = (\<lambda>_. 0),
     threads = [\<lparr>shard_index = 0, pc = Idle, ret = NoRet\<rparr>, \<lparr>shard_index = 0, pc = Idle, ret = NoRet\<rparr>],
     critical = [0], pending_to_track = [[(10, 20), (12, 22)]], coll = init_collector\<rparr>"

lemma garbage_reachable: "reachable garbage"
proof (rule run_reachable)
  show "uc_run garbage_run (init_world 1 [0, 0] 0) = Next garbage"
    by (auto simp: garbage_run_def garbage_def exec_defs fun_eq_iff)
qed simp_all

lemma garbage_undisturbed: "undisturbed garbage"
  by (simp add: undisturbed_def garbage_def init_collector_def)

text \<open>
  C6: the step-by-step collector computes \<open>CollectorThreadState::update\<close>. From a reachable state in
  which no user thread is inside a reader critical section, the collector thread run alone never
  faults, ends its update after finitely many steps, and leaves the state that the sequential program
  computes: the shared state and \<open>tracked_counters\<close> are those of the result, and no counter is left to
  visit or to free.
\<close>

theorem collector_computes_update:
  assumes "reachable w" "undisturbed w"
  shows "\<exists>w' fp n. CollectorThreadState_update w = Inr w' \<and> alone\<^sup>*\<^sup>* w (parked fp n w') \<and> reachable (parked fp n w')"
proof -
  have e: "ends w (CollectorThreadState_update w)"
    using update_ends [OF undisturbed_quiet [OF assms] reachable_sorted [OF assms(1)]] assms(2) by (simp add: undisturbed_def)
  show ?thesis
  proof (cases "CollectorThreadState_update w")
    case (Inl f)
    with e obtain w1 where "alone\<^sup>*\<^sup>* w w1" "alone_step w1 = Fault f" by (auto simp: ends_def)
    then show ?thesis using alone_steps_no_fault [OF assms(1)] assms(2) by (auto simp: undisturbed_def)
  next
    case (Inr w')
    with e show ?thesis using alone_steps_reachable [OF _ assms(1)] by (auto simp: ends_def)
  qed
qed

theorem collector_computes_update_witness:
  "\<exists>w' fp n. CollectorThreadState_update garbage = Inr w' \<and> alone\<^sup>*\<^sup>* garbage (parked fp n w')
     \<and> reachable (parked fp n w')"
  by (rule collector_computes_update [OF garbage_reachable garbage_undisturbed])

end
