(* ===== verification/Sdarc_Liveness.thy ===== *)
theory Sdarc_Liveness
  imports Sdarc_Sequential
begin

text \<open>
  Garbage is collected. One undisturbed \<open>update\<close> of the collector frees every object that nothing
  refers to, weak references and their inner objects included, unless it gives up at its limit of
  inner iterations; the number of passes is at most three per tracked object, so the limit is not
  reached below a third of it. The argument follows the passes of the sequential program of
  \<open>Sdarc_Sequential\<close>: a counter that sums to zero is in the set to re-check, and each pass brings every
  counter of the set closer to being freed.
\<close>

section \<open>What a pass keeps\<close>

definition zero_sum :: "world \<Rightarrow> ptr \<Rightarrow> bool" where
  "zero_sum w p \<longleftrightarrow> (\<exists>ob. heap w p = Some ob \<and> ref_count_sum ob = 0)"

definition untagged :: "world \<Rightarrow> ptr \<Rightarrow> bool" where
  "untagged w p \<longleftrightarrow> (\<forall>ob. heap w p = Some ob \<longrightarrow> (\<forall>c \<in> set (counters ob). \<not> itc_tag c))"

text \<open>
  In the middle of a pass: a counter in the state \<open>RequiresReChecking\<close> sums to zero without a tag and
  is among those to visit, \<open>ks\<close>, or to re-check, \<open>rs\<close>; one in the default state that sums to zero is
  among those to visit or in \<open>ns\<close>; one that is ready to free is among \<open>fs\<close>.
\<close>

definition accounted :: "cptr set \<Rightarrow> cptr set \<Rightarrow> cptr set \<Rightarrow> cptr set \<Rightarrow> world \<Rightarrow> bool" where
  "accounted ks rs ns fs w \<longleftrightarrow> sorted_keys (tracked_counters (coll w))
   \<and> (\<forall>a tc. map_of (tracked_counters (coll w)) a = Some tc \<longrightarrow>
       (case tstate tc of
          DefaultState \<Rightarrow> zero_sum w (fat_ptr tc) \<longrightarrow> a \<in> ks \<union> ns
        | RequiresReChecking \<Rightarrow> zero_sum w (fat_ptr tc) \<and> untagged w (fat_ptr tc) \<and> a \<in> ks \<union> rs
        | ReadyToFree \<Rightarrow> a \<in> fs))"

text \<open>How far a tracked counter is from being freed.\<close>

definition visits_left :: "(ptr \<Rightarrow> SdarcInner option) \<Rightarrow> TrackedCounter \<Rightarrow> nat" where
  "visits_left h tc = (case tstate tc of DefaultState \<Rightarrow> 3
     | RequiresReChecking \<Rightarrow> if backref_live h (fat_ptr tc) then 2 else 1
     | ReadyToFree \<Rightarrow> 0)"

definition remaining :: "(ptr \<Rightarrow> SdarcInner option) \<Rightarrow> (cptr \<times> TrackedCounter) list \<Rightarrow> nat" where
  "remaining h m = sum_list (map (\<lambda>(a, tc). visits_left h tc) m)"

lemma remaining_bound: "remaining h m \<le> 3 * length m"
proof -
  have "visits_left h tc \<le> 3" for tc by (simp add: visits_left_def split: TrackedCounterState.split)
  then have "sum_list (map (\<lambda>(a, tc). visits_left h tc) m) \<le> sum_list (map (\<lambda>_. 3) m)"
    by (intro sum_list_mono) auto
  then show ?thesis by (simp add: remaining_def sum_list_triv mult.commute)
qed

lemma remaining_insert:
  "sorted_keys m \<Longrightarrow> map_of m a = Some tc \<Longrightarrow>
     remaining h (map_insert a tc' m) + visits_left h tc = remaining h m + visits_left h tc'"
proof (induction a tc' m rule: map_insert.induct)
  case (2 k v k' v' m)
  show ?case
  proof (cases "k = k'")
    case False
    with 2 have "map_of m k = Some tc" "k' < k"
      by (auto dest!: map_of_SomeD)
    with 2 False show ?thesis by (auto simp: remaining_def)
  qed (use 2 in \<open>simp add: remaining_def\<close>)
qed simp

lemma remaining_remove:
  "sorted_keys m \<Longrightarrow> map_of m a = Some tc \<Longrightarrow> remaining h (map_remove a m) + visits_left h tc = remaining h m"
  by (induction a m rule: map_remove.induct) (auto simp: remaining_def)

lemma visits_left_mono: "(\<And>p. backref_live h' p \<Longrightarrow> backref_live h p) \<Longrightarrow> visits_left h' tc \<le> visits_left h tc"
  by (simp add: visits_left_def split: TrackedCounterState.split)

lemma remaining_mono: "(\<And>p. backref_live h' p \<Longrightarrow> backref_live h p) \<Longrightarrow> remaining h' m \<le> remaining h m"
  unfolding remaining_def by (rule sum_list_mono) (auto intro: visits_left_mono)

section \<open>Visiting\<close>

lemma clear_tags_sum: "ref_count_sum (clear_tags ob) = ref_count_sum ob"
proof -
  have "itc_ref_count (itc_clear_tag c) = itc_ref_count c" for c by (simp add: itc_arith)
  then show ?thesis by (simp add: ref_count_sum_def clear_tags_def rc_sum_def comp_def)
qed

lemma clear_tags_untagged: "c \<in> set (counters (clear_tags ob)) \<Longrightarrow> \<not> itc_tag c"
  by (auto simp: clear_tags_def itc_arith)

lemma clear_backref_cases:
  assumes "clear_weak_backref_impl p w = Inr (r, w')"
  obtains (same) "r \<noteq> WeakBackRefCleared" "w' = w"
  | (cleared) ob q wk x where "r = WeakBackRefCleared" "heap w p = Some ob" "weak_inner_ref ob = Some q"
      "heap w q = Some wk" "data wk = WeakSdarcInner (Some x)" "w' = set_obj q (wk\<lparr>data := WeakSdarcInner None\<rparr>) w"
proof -
  from assms obtain ob where ob: "heap w p = Some ob"
    by (cases "heap w p") (simp_all add: clear_weak_backref_impl_def)
  show thesis
  proof (cases "weak_inner_ref ob")
    case None
    with assms ob same show ?thesis by (simp add: clear_weak_backref_impl_def)
  next
    case (Some q)
    with assms ob obtain wk where wk: "heap w q = Some wk"
      by (cases "heap w q") (simp_all add: clear_weak_backref_impl_def)
    show ?thesis
    proof (cases "\<exists>x. data wk = WeakSdarcInner (Some x)")
      case True
      with assms ob Some wk cleared show ?thesis by (auto simp: clear_weak_backref_impl_def)
    next
      case False
      with assms ob Some wk same show ?thesis
        by (simp add: clear_weak_backref_impl_def split: payload.splits option.splits)
    qed
  qed
qed

lemma backref_clear_mono:
  assumes "h q = Some wk" "backref_live (h(q \<mapsto> wk\<lparr>data := WeakSdarcInner None\<rparr>)) p"
  shows "backref_live h p"
proof -
  from assms(2) obtain a d q' b r x where m: "meta (h(q \<mapsto> wk\<lparr>data := WeakSdarcInner None\<rparr>)) p = Some (a, Some q', d)"
    and q': "meta (h(q \<mapsto> wk\<lparr>data := WeakSdarcInner None\<rparr>)) q' = Some (b, r, WeakSdarcInner (Some x))"
    unfolding backref_live_def by blast
  have "\<exists>d. meta h p = Some (a, Some q', d)"
    using m assms(1) by (cases "p = q") (auto simp: meta_def)
  moreover have "meta h q' = Some (b, r, WeakSdarcInner (Some x))"
    using q' by (cases "q' = q") simp_all
  ultimately show ?thesis unfolding backref_live_def by blast
qed

text \<open>\<open>update_state\<close> changes no reference count and sets no tag.\<close>

lemma update_state_keeps:
  assumes "update_state a tc w = Inr (st, w')"
  shows "zero_sum w' p = zero_sum w p" "untagged w p \<Longrightarrow> untagged w' p" "coll w' = coll w"
    "backref_live (heap w') p \<Longrightarrow> backref_live (heap w) p"
proof -
  have "zero_sum w' p = zero_sum w p \<and> (untagged w p \<longrightarrow> untagged w' p) \<and> coll w' = coll w
      \<and> (backref_live (heap w') p \<longrightarrow> backref_live (heap w) p)"
    using assms
  proof (cases rule: update_state_cases)
    case (cleared ob)
    have "meta (heap w') = meta (heap w)"
      using cleared by (simp add: set_obj_def clear_tags_def meta_upd_same del: meta_upd)
    then have "backref_live (heap w') = backref_live (heap w)" by (rule backref_live_cong)
    moreover have "zero_sum w' p = zero_sum w p" "untagged w p \<longrightarrow> untagged w' p" "coll w' = coll w"
      using cleared clear_tags_untagged [of _ ob]
      by (auto simp: zero_sum_def untagged_def set_obj_def clear_tags_sum)
    ultimately show ?thesis by simp
  next
    case (zero ob r)
    from zero(6) show ?thesis
    proof (cases rule: clear_backref_cases)
      case (cleared ob' q wk x)
      then have "backref_live (heap w') p \<longrightarrow> backref_live (heap w) p"
        using backref_clear_mono [of "heap w" q wk p] by (simp add: set_obj_def)
      with cleared show ?thesis by (simp add: zero_sum_def untagged_def set_obj_def ref_count_sum_def)
    qed simp
  qed simp_all
  then show "zero_sum w' p = zero_sum w p" "untagged w p \<Longrightarrow> untagged w' p" "coll w' = coll w"
    "backref_live (heap w') p \<Longrightarrow> backref_live (heap w) p" by blast+
qed

lemma insort_insert_length: "length (insort_insert a xs) \<le> Suc (length xs)"
  by (simp add: insort_insert_key_def)

lemma zero_case_visits_left:
  assumes "clear_weak_backref_impl p w = Inr (r, w')" "fat_ptr tc = p" "tstate tc = RequiresReChecking"
    and "tc' = \<lparr>fat_ptr = p, tstate = (if r = WeakBackRefCleared then RequiresReChecking else ReadyToFree)\<rparr>"
  shows "visits_left (heap w') tc' < visits_left (heap w) tc"
  using assms(1)
proof (cases rule: clear_backref_cases)
  case same
  then show ?thesis using assms(2-) by (simp add: visits_left_def)
next
  case (cleared ob q wk x)
  have "backref_live (heap w) p"
    using cleared unfolding backref_live_def meta_def by auto
  moreover have "\<not> backref_live (heap w') p"
    using cleared by (cases "p = q") (auto simp: backref_live_def set_obj_def meta_SomeI)
  ultimately show ?thesis using assms(2-) cleared(1) by (simp add: visits_left_def)
qed

lemma zero_sum_coll [simp]: "zero_sum (set_coll f w) = zero_sum w" "untagged (set_coll f w) = untagged w"
  by (auto simp: zero_sum_def untagged_def)

lemma update_state_progress:
  assumes st: "update_state a tc w = Inr (st, w')"
    and own: "tstate tc = RequiresReChecking \<Longrightarrow> zero_sum w (fat_ptr tc) \<and> untagged w (fat_ptr tc)"
  shows "(st = DefaultState \<and> \<not> zero_sum w' (fat_ptr tc) \<and> tstate tc = DefaultState)
     \<or> (st \<noteq> DefaultState \<and> visits_left (heap w') \<lparr>fat_ptr = fat_ptr tc, tstate = st\<rparr> < visits_left (heap w) tc
        \<and> zero_sum w' (fat_ptr tc) \<and> untagged w' (fat_ptr tc))"
  using st
proof (cases rule: update_state_cases)
  case (nonzero ob)
  then show ?thesis by (simp add: zero_sum_def)
next
  case (cleared ob)
  then have "zero_sum w' (fat_ptr tc)" "untagged w' (fat_ptr tc)"
    using clear_tags_untagged [of _ ob] by (auto simp: zero_sum_def untagged_def set_obj_def clear_tags_sum)
  with cleared(3,5) show ?thesis by (simp add: visits_left_def)
next
  case (tagged ob)
  with own show ?thesis by (auto simp: untagged_def)
next
  case (positive ob)
  with own show ?thesis by (auto simp: zero_sum_def)
next
  case (zero ob r)
  from zero_case_visits_left [OF zero(6) refl zero(3), of "\<lparr>fat_ptr = fat_ptr tc, tstate = st\<rparr>"] zero(7)
  show ?thesis using own [OF zero(3)] update_state_keeps(1,2) [OF st] by simp
qed

text \<open>
  Visiting one counter: it leaves the list to visit, and if it goes into one of the two lists it has
  made progress.
\<close>

definition pass_weight :: "world \<Rightarrow> nat" where
  "pass_weight w = remaining (heap w) (tracked_counters (coll w))
     + length (to_recheck (coll w)) + length (to_free (coll w))"

lemma visit_weight:
  assumes so: "sorted_keys (tracked_counters (coll w))" and tc: "map_of (tracked_counters (coll w)) a = Some tc"
    and st: "update_state a tc w = Inr (st, w1)"
    and new: "(st = DefaultState \<and> \<not> zero_sum w1 (fat_ptr tc) \<and> tstate tc = DefaultState)
       \<or> (st \<noteq> DefaultState \<and> visits_left (heap w1) \<lparr>fat_ptr = fat_ptr tc, tstate = st\<rparr> < visits_left (heap w) tc
          \<and> zero_sum w1 (fat_ptr tc) \<and> untagged w1 (fat_ptr tc))"
  shows "pass_weight (set_coll (finish_visit a (fat_ptr tc) st) w1) \<le> pass_weight w"
proof -
  let ?m = "tracked_counters (coll w)" and ?tc = "\<lparr>fat_ptr = fat_ptr tc, tstate = st\<rparr>"
  have "remaining (heap w1) (map_remove a ?m) \<le> remaining (heap w) (map_remove a ?m)"
    using remaining_mono update_state_keeps(4) [OF st] by simp
  then have "remaining (heap w1) (map_insert a ?tc ?m) + visits_left (heap w) tc
      \<le> remaining (heap w) ?m + visits_left (heap w1) ?tc"
    using remaining_insert [OF so tc, of "heap w1" ?tc] remaining_remove [OF so tc, of "heap w"]
      remaining_remove [OF so tc, of "heap w1"] by linarith
  moreover have "visits_left (heap w1) ?tc \<le> visits_left (heap w) tc"
    using new by (elim disjE conjE) (simp add: visits_left_def, simp)
  ultimately show ?thesis
    using new insort_insert_length [of a "to_recheck (coll w)"] update_state_keeps(3) [OF st]
    by (cases st) (auto simp: pass_weight_def finish_visit_def)
qed

lemma visit_accounted:
  assumes acc: "accounted (insert a ks) (set (to_recheck (coll w))) {} (set (to_free (coll w))) w"
    and st: "update_tracked a w = Inr w'"
  shows "accounted ks (set (to_recheck (coll w'))) {} (set (to_free (coll w'))) w' \<and> pass_weight w' \<le> pass_weight w"
  using st
proof (cases rule: update_tracked_cases)
  case untracked
  with acc show ?thesis by (fastforce simp: accounted_def split: TrackedCounterState.splits)
next
  case (updated tc st w1)
  note keep = update_state_keeps [OF updated(2)]
  let ?m = "tracked_counters (coll w)" and ?tc = "\<lparr>fat_ptr = fat_ptr tc, tstate = st\<rparr>"
  have so: "sorted_keys ?m"
    and all: "\<And>b tb. map_of ?m b = Some tb \<Longrightarrow> (case tstate tb of
          DefaultState \<Rightarrow> zero_sum w (fat_ptr tb) \<longrightarrow> b \<in> insert a ks
        | RequiresReChecking \<Rightarrow> zero_sum w (fat_ptr tb) \<and> untagged w (fat_ptr tb)
            \<and> b \<in> insert a ks \<union> set (to_recheck (coll w))
        | ReadyToFree \<Rightarrow> b \<in> set (to_free (coll w)))"
    using acc unfolding accounted_def Un_empty_right by blast+
  have w': "tracked_counters (coll w') = map_insert a ?tc ?m"
    "to_recheck (coll w') = (if st = RequiresReChecking then insort_insert a (to_recheck (coll w)) else to_recheck (coll w))"
    "to_free (coll w') = (if st = ReadyToFree then to_free (coll w) @ [a] else to_free (coll w))"
    "heap w' = heap w1" "zero_sum w' = zero_sum w" "\<And>p. untagged w p \<Longrightarrow> untagged w' p"
    using updated(3) keep by (auto simp: finish_visit_def)
  have new: "(st = DefaultState \<and> \<not> zero_sum w' (fat_ptr tc) \<and> tstate tc = DefaultState)
     \<or> (st \<noteq> DefaultState \<and> visits_left (heap w') ?tc < visits_left (heap w) tc
        \<and> zero_sum w' (fat_ptr tc) \<and> untagged w' (fat_ptr tc))"
  proof -
    have "tstate tc = RequiresReChecking \<Longrightarrow> zero_sum w (fat_ptr tc) \<and> untagged w (fat_ptr tc)"
      using all [OF updated(1)] by simp
    from update_state_progress [OF updated(2) this] show ?thesis unfolding updated(3) by simp
  qed
  have "accounted ks (set (to_recheck (coll w'))) {} (set (to_free (coll w'))) w'"
    unfolding accounted_def w'(1) map_of_map_insert [OF so]
  proof (intro conjI allI impI)
    fix b tb assume b: "((map_of ?m)(a \<mapsto> ?tc)) b = Some tb"
    show "case tstate tb of DefaultState \<Rightarrow> zero_sum w' (fat_ptr tb) \<longrightarrow> b \<in> ks \<union> {}
        | RequiresReChecking \<Rightarrow> zero_sum w' (fat_ptr tb) \<and> untagged w' (fat_ptr tb) \<and> b \<in> ks \<union> set (to_recheck (coll w'))
        | ReadyToFree \<Rightarrow> b \<in> set (to_free (coll w'))"
    proof (cases "b = a")
      case True
      with b new show ?thesis by (auto simp: w'(2,3) set_insort_insert split: TrackedCounterState.split)
    next
      case False
      with b all [of b tb] show ?thesis
        by (auto simp: w'(2,3,5) set_insort_insert intro: w'(6) split: TrackedCounterState.splits)
    qed
  qed (rule sorted_map_insert [OF so])
  moreover have "pass_weight w' \<le> pass_weight w"
    unfolding updated(3) by (rule visit_weight [OF so updated(1,2)]) (use new updated(3) in simp)
  ultimately show ?thesis ..
qed

lemma visits_accounted:
  assumes "accounted (set ks) (set (to_recheck (coll w))) {} (set (to_free (coll w))) w"
    and "for_r ks update_tracked w = Inr w'"
  shows "accounted {} (set (to_recheck (coll w'))) {} (set (to_free (coll w'))) w' \<and> pass_weight w' \<le> pass_weight w"
  using assms
proof (induction ks arbitrary: w)
  case (Cons a ks)
  from Cons.prems(2) obtain w1 where w1: "update_tracked a w = Inr w1" "for_r ks update_tracked w1 = Inr w'"
    by (auto simp: res_bind_eq_Inr)
  from visit_accounted [OF _ w1(1), of "set ks"] Cons.prems(1) Cons.IH [OF _ w1(2)] show ?case by auto
qed simp

section \<open>Freeing\<close>

lemma removed_simps [simp]:
  "heap (removed a p w) = (heap w)(p := None)"
  "tracked_counters (coll (removed a p w)) = map_remove a (tracked_counters (coll w))"
  "counters_to_recheck (coll (removed a p w)) = counters_to_recheck (coll w)"
  "to_recheck (coll (removed a p w)) = to_recheck (coll w)"
  "pending_to_track (removed a p w) = pending_to_track w"
  "threads (removed a p w) = threads w" "handles (removed a p w) = handles w" "atomics (removed a p w) = atomics w"
  by (simp_all add: removed_def)

lemma weak_dropped_simps [simp]:
  "heap (weak_dropped q wk w) = (heap w)(q \<mapsto>
     wk\<lparr>counters := (counters wk)[shard_of 0 w := itc_decrement (counters wk ! shard_of 0 w)]\<rparr>)"
  "tracked_counters (coll (weak_dropped q wk w)) = tracked_counters (coll w)"
  "counters_to_recheck (coll (weak_dropped q wk w)) = insort_insert (counters_ptr wk) (counters_to_recheck (coll w))"
  "to_recheck (coll (weak_dropped q wk w)) = to_recheck (coll w)"
  "pending_to_track (weak_dropped q wk w) = pending_to_track w"
  "handles (weak_dropped q wk w) = handles w" "atomics (weak_dropped q wk w) = atomics w"
  "threads (weak_dropped q wk w) = (threads w)[0 := (threads w ! 0)\<lparr>pc := Idle, ret := NoRet\<rparr>]"
  by (simp_all add: weak_dropped_def world_ops)

lemma backref_weaken:
  assumes "\<And>p a r d. meta h' p = Some (a, r, d) \<Longrightarrow> meta h p = Some (a, r, d)" "backref_live h' p"
  shows "backref_live h p"
  using assms unfolding backref_live_def by blast

text \<open>
  Freeing one object: it leaves the map, and the only counter that can now sum to zero is that of its
  weak reference, which is noted for a re-check.
\<close>

lemma free_pointer_effect:
  assumes i: "inv (free_stage fp n fs w)" and st: "free_pointer a w = Inr w'"
  obtains tc where "map_of (tracked_counters (coll w)) a = Some tc" "tstate tc = ReadyToFree"
    "tracked_counters (coll w') = map_remove a (tracked_counters (coll w))"
    "to_recheck (coll w') = to_recheck (coll w)"
    "set (counters_to_recheck (coll w)) \<subseteq> set (counters_to_recheck (coll w'))"
    "\<And>p m. meta (heap w') p = Some m \<Longrightarrow> meta (heap w) p = Some m"
    "\<And>p. p \<noteq> fat_ptr tc \<Longrightarrow> zero_sum w p \<Longrightarrow> zero_sum w' p \<and> (untagged w p \<longrightarrow> untagged w' p)"
    "\<And>p b r d. p \<noteq> fat_ptr tc \<Longrightarrow> zero_sum w' p \<Longrightarrow> \<not> zero_sum w p \<Longrightarrow> meta (heap w) p = Some (b, r, d) \<Longrightarrow>
       b \<in> set (counters_to_recheck (coll w'))"
  using st
proof (cases rule: free_pointer_cases)
  case (plain tc ob)
  show thesis
    by (rule that [OF plain(1,2)]) (use plain in \<open>auto simp: zero_sum_def untagged_def split: if_splits\<close>)
next
  case (weak tc ob q wk)
  have "owned (heap w) q" by (rule owned_weak_ref [where h = "heap w", OF weak(3,5)])
  then have "0 < strong (free_stage fp n fs w) q" by (simp add: strong_def free_stage_def)
  then have nz: "\<not> zero_sum w q"
    using invD(3) [OF i] weak(7) by (auto simp: inv_count_def free_stage_def zero_sum_def ref_count_sum_def)
  show thesis
    by (rule that [OF weak(1,2)])
      (use weak nz in \<open>auto simp: zero_sum_def untagged_def set_insort_insert meta_def split: if_splits\<close>)
qed

text \<open>
  Freeing one object: it leaves the map, and the only counter that can now sum to zero is that of its
  weak reference, which is noted for a re-check.
\<close>

lemma free_accounted:
  assumes i: "inv (free_stage fp n (a # fs) w)"
    and acc: "accounted {} (set (to_recheck (coll w))) (set (counters_to_recheck (coll w))) (set (a # fs)) w"
    and st: "free_pointer a w = Inr w'"
  shows "accounted {} (set (to_recheck (coll w'))) (set (counters_to_recheck (coll w'))) (set fs) w'
     \<and> to_recheck (coll w') = to_recheck (coll w)
     \<and> remaining (heap w') (tracked_counters (coll w')) \<le> remaining (heap w) (tracked_counters (coll w))"
proof -
  let ?m = "tracked_counters (coll w)"
  have tr: "inv_track (heap w) (pending_to_track w) ?m" using invD(8) [OF i] by (simp add: free_stage_def)
  obtain tc where tc: "map_of ?m a = Some tc" "tstate tc = ReadyToFree"
    and m: "tracked_counters (coll w') = map_remove a ?m" "to_recheck (coll w') = to_recheck (coll w)"
      "set (counters_to_recheck (coll w)) \<subseteq> set (counters_to_recheck (coll w'))"
    and me: "\<And>p m. meta (heap w') p = Some m \<Longrightarrow> meta (heap w) p = Some m"
    and keep: "\<And>p. p \<noteq> fat_ptr tc \<Longrightarrow> zero_sum w p \<Longrightarrow> zero_sum w' p \<and> (untagged w p \<longrightarrow> untagged w' p)"
    and new: "\<And>p b r d. p \<noteq> fat_ptr tc \<Longrightarrow> zero_sum w' p \<Longrightarrow> \<not> zero_sum w p \<Longrightarrow> meta (heap w) p = Some (b, r, d) \<Longrightarrow>
       b \<in> set (counters_to_recheck (coll w'))"
    using free_pointer_effect [OF i st] by blast
  have so: "sorted_keys ?m" using acc by (simp add: accounted_def)
  have "accounted {} (set (to_recheck (coll w'))) (set (counters_to_recheck (coll w'))) (set fs) w'"
    unfolding accounted_def m(1) map_of_map_remove [OF so]
  proof (intro conjI allI impI)
    fix b tb assume b: "((map_of ?m)(a := None)) b = Some tb"
    then have b: "b \<noteq> a" "map_of ?m b = Some tb" by (auto split: if_splits)
    note ne = tracked_distinct [OF tr b(2) tc(1) b(1)]
    have "case tstate tb of DefaultState \<Rightarrow> zero_sum w (fat_ptr tb) \<longrightarrow> b \<in> set (counters_to_recheck (coll w))
        | RequiresReChecking \<Rightarrow> zero_sum w (fat_ptr tb) \<and> untagged w (fat_ptr tb) \<and> b \<in> set (to_recheck (coll w))
        | ReadyToFree \<Rightarrow> b \<in> set (a # fs)"
      using acc b(2) unfolding accounted_def Un_empty_left by blast
    then show "case tstate tb of DefaultState \<Rightarrow> zero_sum w' (fat_ptr tb) \<longrightarrow> b \<in> {} \<union> set (counters_to_recheck (coll w'))
        | RequiresReChecking \<Rightarrow> zero_sum w' (fat_ptr tb) \<and> untagged w' (fat_ptr tb) \<and> b \<in> {} \<union> set (to_recheck (coll w'))
        | ReadyToFree \<Rightarrow> b \<in> set fs"
      using keep [OF ne] new [OF ne] inv_trackD(2) [OF tr b(2)] m(2,3) b(1)
      by (fastforce split: TrackedCounterState.splits)
  qed (rule sorted_map_remove [OF so])
  moreover have "remaining (heap w') (map_remove a ?m) \<le> remaining (heap w) ?m"
  proof -
    have "remaining (heap w') (map_remove a ?m) \<le> remaining (heap w) (map_remove a ?m)"
      using remaining_mono backref_weaken me by metis
    then show ?thesis using remaining_remove [OF so tc(1), of "heap w"] by linarith
  qed
  ultimately show ?thesis using m(1,2) by simp
qed

lemma frees_accounted:
  assumes "reachable (free_stage fp n fs w)" "quiet w"
    and "accounted {} (set (to_recheck (coll w))) (set (counters_to_recheck (coll w))) (set fs) w"
    and "for_r fs free_pointer w = Inr w'"
  shows "accounted {} (set (to_recheck (coll w'))) (set (counters_to_recheck (coll w'))) {} w'
     \<and> to_recheck (coll w') = to_recheck (coll w) \<and> (fs = [] \<longrightarrow> w' = w)
     \<and> remaining (heap w') (tracked_counters (coll w')) \<le> remaining (heap w) (tracked_counters (coll w))"
  using assms
proof (induction fs arbitrary: w)
  case (Cons a fs)
  from Cons.prems(4) obtain w1 where w1: "free_pointer a w = Inr w1" "for_r fs free_pointer w1 = Inr w'"
    by (auto simp: res_bind_eq_Inr)
  note acc = free_accounted [OF reachable_inv [OF Cons.prems(1)] Cons.prems(3) w1(1)]
  have "alone\<^sup>*\<^sup>* (free_stage fp n (a # fs) w) (free_stage fp n fs w1)"
    using free_pointer_runs [OF Cons.prems(2), of fp n fs a] w1(1) by simp
  then have "reachable (free_stage fp n fs w1)" by (rule alone_steps_reachable [OF _ Cons.prems(1)])
  from Cons.IH [OF this free_pointer_quiet [OF Cons.prems(2) w1(1)] _ w1(2)] acc show ?case by auto
qed simp

section \<open>A pass\<close>

definition resting :: "cptr list \<Rightarrow> world \<Rightarrow> bool" where
  "resting ks w \<longleftrightarrow> accounted (set ks) {} {} {} w \<and> counters_to_recheck (coll w) = []"

abbreviation to_go :: "world \<Rightarrow> nat" where
  "to_go w \<equiv> remaining (heap w) (tracked_counters (coll w))"

lemma accounted_coll [simp]:
  "(\<And>c. tracked_counters (f c) = tracked_counters c) \<Longrightarrow>
     accounted ks rs ns fs (set_coll f w) = accounted ks rs ns fs w"
  unfolding accounted_def zero_sum_coll by simp

lemma set_fold_insort_insert: "set (fold insort_insert xs ys) = set xs \<union> set ys"
  by (induction xs arbitrary: ys) (auto simp: set_insort_insert)

lemma visits_recheck:
  assumes "for_r ks update_tracked w = Inr w'"
  shows "counters_to_recheck (coll w') = counters_to_recheck (coll w)"
proof (rule for_r_invariant [OF assms, where I = "\<lambda>x. counters_to_recheck (coll x) = counters_to_recheck (coll w)"])
  fix a x x' assume "update_tracked a x = Inr x'" and x: "counters_to_recheck (coll x) = counters_to_recheck (coll w)"
  from this(1) show "counters_to_recheck (coll x') = counters_to_recheck (coll w)"
    by (cases rule: update_tracked_cases) (auto simp: finish_visit_def update_state_keeps(3) x)
qed simp

lemma pass_steps:
  assumes "quiet w" "n' = (if fp then 0 else Suc n)" "n' + k = max_inner_iterations"
    and "update_counters ks w = Inr (ks', w')"
  shows "alone\<^sup>*\<^sup>* (stage fp n (SpinScan 0) ks (begin_pass w)) (after_pass fp n' k ks' w')"
proof -
  from assms(4) obtain w2 where w2: "res_bind (for_r ks update_tracked (begin_pass w)) free_all = Inr w2"
    and t: "take_to_recheck w2 = (ks', w')"
    by (auto simp: update_counters_def res_bind_eq_Inr)
  have "quiet (begin_pass w)" using assms(1) by (simp add: begin_pass_def)
  with w2 have q: "quiet w2" using visits_run free_all_runs unfolding res_bind_eq_Inr by metis
  have "alone\<^sup>*\<^sup>* (stage fp n (SpinScan 0) ks (begin_pass w)) (free_stage fp n [] w2)"
    using update_counters_runs [OF assms(1), of fp n ks] w2 by simp
  then show ?thesis
    by (rule rtranclp.rtrancl_into_rtrancl) (rule end_pass_step [OF q assms(2,3) t])
qed

lemma pass_progress:
  assumes re: "reachable (stage fp n (SpinScan 0) ks (begin_pass w))" and q: "quiet w" and rest: "resting ks w"
    and u: "update_counters ks w = Inr (ks', w')"
  shows "resting ks' w' \<and> (ks' \<noteq> [] \<longrightarrow> to_go w' < to_go w)"
proof -
  from u obtain w1 w2 where w1: "for_r ks update_tracked (begin_pass w) = Inr w1" and w2: "free_all w1 = Inr w2"
    and t: "take_to_recheck w2 = (ks', w')"
    by (auto simp: update_counters_def res_bind_eq_Inr)
  let ?fs = "to_free (coll w1)" and ?w1 = "set_coll (\<lambda>c. c\<lparr>to_free := []\<rparr>) w1"
  have q0: "quiet (begin_pass w)" using q by (simp add: begin_pass_def)
  have cr: "counters_to_recheck (coll w1) = []"
    using visits_recheck [OF w1] rest by (simp add: resting_def begin_pass_def)
  have a0: "accounted (set ks) (set (to_recheck (coll (begin_pass w)))) {} (set (to_free (coll (begin_pass w)))) (begin_pass w)"
    using rest by (simp add: resting_def begin_pass_def)
  note v = visits_accounted [OF a0 w1]
  have "alone\<^sup>*\<^sup>* (stage fp n (SpinScan 0) ks (begin_pass w)) (free_stage fp n ?fs ?w1)"
    using spin_steps [OF q0, of 0 fp n ks] visits_run [OF q0, of fp n ks] freeing_start [of w1 fp n] w1 by auto
  then have "reachable (free_stage fp n ?fs ?w1)" by (rule alone_steps_reachable [OF _ re])
  moreover have "quiet ?w1" using visits_run [OF q0] w1 by simp
  moreover have "accounted {} (set (to_recheck (coll ?w1))) (set (counters_to_recheck (coll ?w1))) (set ?fs) ?w1"
    using v cr by simp
  ultimately have f: "accounted {} (set (to_recheck (coll w2))) (set (counters_to_recheck (coll w2))) {} w2
     \<and> to_recheck (coll w2) = to_recheck (coll w1) \<and> (?fs = [] \<longrightarrow> w2 = ?w1) \<and> to_go w2 \<le> to_go w1"
    using frees_accounted [of fp n ?fs ?w1 w2] w2 by (auto simp: free_all_def)
  have ks': "set ks' = set (counters_to_recheck (coll w2)) \<union> set (to_recheck (coll w1))"
    and w': "w' = set_coll (\<lambda>c. c\<lparr>counters_to_recheck := []\<rparr>) w2"
    using t f by (auto simp: take_to_recheck_def set_fold_insort_insert)
  have "resting ks' w'"
    using f unfolding resting_def accounted_def ks' w'
    by (fastforce split: TrackedCounterState.splits)
  moreover have "to_go w' < to_go w" if "ks' \<noteq> []"
  proof -
    have "to_recheck (coll w1) \<noteq> [] \<or> ?fs \<noteq> []" using that ks' f cr by fastforce
    moreover have "pass_weight (begin_pass w) = to_go w" by (simp add: pass_weight_def begin_pass_def)
    ultimately have "to_go w1 < to_go w" using v by (auto simp: pass_weight_def simp flip: length_greater_0_conv)
    with f show ?thesis by (simp add: w')
  qed
  ultimately show ?thesis by blast
qed

lemma re_check_complete:
  assumes "reachable (after_pass fp n k ks w)" "n + k = max_inner_iterations" "quiet w" "resting ks w"
    and "ks = [] \<or> to_go w < k" "re_check_loop k ks w = Inr w'"
  shows "resting [] w'"
  using assms
proof (induction k arbitrary: fp n ks w)
  case 0
  then show ?case by simp
next
  case (Suc k)
  show ?case
  proof (cases "ks = []")
    case True
    with Suc.prems show ?thesis by simp
  next
    case False
    with Suc.prems obtain ks1 w1 where u: "update_counters ks w = Inr (ks1, w1)" "re_check_loop k ks1 w1 = Inr w'"
      by (auto simp: res_bind_eq_Inr)
    have re: "reachable (stage False n (SpinScan 0) ks (begin_pass w))"
      using Suc.prems(1) False by (simp add: after_pass_def)
    note p = pass_progress [OF re Suc.prems(3,4) u(1)]
    have "reachable (after_pass False (Suc n) k ks1 w1)"
      using alone_steps_reachable [OF pass_steps [OF Suc.prems(3) _ _ u(1)] re] Suc.prems(2) by simp
    moreover have "quiet w1" using update_counters_runs [OF Suc.prems(3)] u(1) by blast
    moreover have "ks1 = [] \<or> to_go w1 < k" using p Suc.prems(5) False by auto
    ultimately show ?thesis using Suc.IH [of False "Suc n" ks1 w1] Suc.prems(2) p u(2) by simp
  qed
qed

section \<open>What the collector leaves alone\<close>

text \<open>Handles, cells, pending lists and operations in progress stay; objects only disappear.\<close>

definition shrinks :: "world \<Rightarrow> world \<Rightarrow> bool" where
  "shrinks w w' \<longleftrightarrow> handles w' = handles w \<and> atomics w' = atomics w \<and> pending_to_track w' = pending_to_track w
     \<and> map pc (threads w') = map pc (threads w)
     \<and> (\<forall>p ob'. heap w' p = Some ob' \<longrightarrow> (\<exists>ob. heap w p = Some ob \<and> weak_inner_ref ob' = weak_inner_ref ob))"

lemma shrinks_refl [simp]: "shrinks w w"
  by (simp add: shrinks_def)

lemma shrinks_trans: "shrinks w w1 \<Longrightarrow> shrinks w1 w2 \<Longrightarrow> shrinks w w2"
  unfolding shrinks_def by metis

lemma shrinks_coll [simp]: "shrinks w (set_coll f w') = shrinks w w'" "shrinks (set_coll f w) w' = shrinks w w'"
  by (simp_all add: shrinks_def)

lemma shrinks_strong:
  assumes "shrinks w w'"
  shows "strong w' p \<le> strong w p"
proof -
  have "owned (heap w') p \<longrightarrow> owned (heap w) p"
    using assms unfolding shrinks_def owned_def by (force simp: meta_def)
  moreover have "map pc (threads w') = map pc (threads w)" using assms by (simp add: shrinks_def)
  from arg_cong [OF this, of "map (\<lambda>x. held x p)"]
  have "map (\<lambda>th. held (pc th) p) (threads w') = map (\<lambda>th. held (pc th) p) (threads w)" by (simp add: comp_def)
  ultimately show ?thesis using assms by (simp add: strong_def shrinks_def)
qed

lemma update_tracked_shrinks: "update_tracked a w = Inr w' \<Longrightarrow> shrinks w w'"
proof (cases rule: update_tracked_cases, assumption)
  fix tc st w1 assume u: "update_state a tc w = Inr (st, w1)" "w' = set_coll (finish_visit a (fat_ptr tc) st) w1"
  from u(1) have "shrinks w w1"
  proof (cases rule: update_state_cases)
    case (zero ob r)
    from zero(6) show ?thesis
      by (cases rule: clear_backref_cases) (auto simp: shrinks_def set_obj_def)
  qed (auto simp: shrinks_def set_obj_def clear_tags_def)
  then show "shrinks w w'" by (simp add: u(2))
qed simp

lemma free_pointer_shrinks:
  assumes "quiet w" "free_pointer a w = Inr w'"
  shows "shrinks w w'"
proof -
  have "map pc ((threads w)[0 := (threads w ! 0)\<lparr>pc := Idle, ret := NoRet\<rparr>]) = map pc (threads w)"
    using assms(1) by (simp add: quiet_def map_update) (metis length_greater_0_conv list_update_id nth_map)
  with assms(2) show ?thesis
    by (cases rule: free_pointer_cases) (auto simp: shrinks_def)
qed

lemma update_counters_shrinks:
  assumes "quiet w" "update_counters ks w = Inr (ks', w')"
  shows "shrinks w w'"
proof -
  from assms(2) obtain w1 w2 where w1: "for_r ks update_tracked (begin_pass w) = Inr w1"
    and w2: "for_r (to_free (coll w1)) free_pointer (set_coll (\<lambda>c. c\<lparr>to_free := []\<rparr>) w1) = Inr w2"
    and w': "shrinks w2 w'"
    by (auto simp: update_counters_def res_bind_eq_Inr free_all_def take_to_recheck_def)
  have q: "quiet (begin_pass w)" using assms(1) by (simp add: begin_pass_def)
  have s1: "shrinks w w1"
    by (rule for_r_invariant [OF w1, where I = "shrinks w"])
      (auto simp: begin_pass_def intro: shrinks_trans update_tracked_shrinks)
  have "quiet w1" using visits_run [OF q] w1 by blast
  then have "shrinks w w2 \<and> quiet w2"
    by (intro for_r_invariant [OF w2, where I = "\<lambda>x. shrinks w x \<and> quiet x"])
      (auto simp: s1 intro: shrinks_trans free_pointer_shrinks free_pointer_quiet)
  then show ?thesis using w' shrinks_trans by blast
qed

lemma re_check_shrinks: "quiet w \<Longrightarrow> re_check_loop k ks w = Inr w' \<Longrightarrow> shrinks w w'"
proof (induction k ks w rule: re_check_loop.induct)
  case (2 k ks w)
  show ?case
  proof (cases "ks = []")
    case False
    with 2 obtain ks1 w1 where u: "update_counters ks w = Inr (ks1, w1)" "re_check_loop k ks1 w1 = Inr w'"
      by (auto simp: res_bind_eq_Inr)
    have "quiet w1" using update_counters_runs [OF 2(2)] u(1) by blast
    with 2(1) [OF False] u(2) have "shrinks w1 w'" by blast
    then show ?thesis using update_counters_shrinks [OF 2(2) u(1)] shrinks_trans by blast
  qed (use 2 in simp)
qed simp

section \<open>Between two updates\<close>

text \<open>
  When the collector is parked and its last update did not give up, no tracked counter is left in the
  state \<open>RequiresReChecking\<close>: during a pass such a counter is among those to visit or to re-check.
\<close>

definition awaiting :: "(cptr \<times> TrackedCounter) list \<Rightarrow> cptr set" where
  "awaiting m = {a. \<exists>tc. map_of m a = Some tc \<and> tstate tc = RequiresReChecking}"

definition inv_rest :: "collector \<Rightarrow> bool" where
  "inv_rest c \<longleftrightarrow> sorted_keys (tracked_counters c)
   \<and> (case cpc c of
        Parked \<Rightarrow> counters_to_recheck c = [] \<and> (loop_counter c = max_inner_iterations \<or> awaiting (tracked_counters c) = {})
      | TakeNew i \<Rightarrow> counters_to_recheck c = [] \<and> (loop_counter c = max_inner_iterations \<or> awaiting (tracked_counters c) = {})
      | Freeing \<Rightarrow> todo c = [] \<and> awaiting (tracked_counters c) \<subseteq> set (to_recheck c)
      | UserDrop \<Rightarrow> todo c = [] \<and> awaiting (tracked_counters c) \<subseteq> set (to_recheck c)
      | q \<Rightarrow> counters_to_recheck c = []
          \<and> awaiting (tracked_counters c) \<subseteq> set (todo c) \<union> set (to_recheck c) \<union> fst ` set_option (visiting q))"

lemma user_rest: "inv_rest (coll w) \<Longrightarrow> user_step t act w = Next w' \<Longrightarrow> inv_rest (coll w')"
proof (cases "cpc (coll w) = UserDrop")
  case True
  assume "inv_rest (coll w)" "user_step t act w = Next w'"
  then show ?thesis using user_coll(1) True by (fastforce simp: inv_rest_def)
qed (use user_coll(2) in auto)

lemma awaiting_insert:
  "sorted_keys m \<Longrightarrow> awaiting (map_insert a tc m) =
     (if tstate tc = RequiresReChecking then insert a (awaiting m) else awaiting m - {a})"
  by (auto simp: awaiting_def map_of_map_insert)

lemma awaiting_remove: "sorted_keys m \<Longrightarrow> awaiting (map_remove a m) = awaiting m - {a}"
  by (auto simp: awaiting_def map_of_map_remove)

lemma awaiting_keys: "awaiting m \<subseteq> fst ` set m"
  unfolding awaiting_def by (force dest: map_of_SomeD)

lemma awaiting_iff:
  "map_of m a = None \<Longrightarrow> a \<notin> awaiting m"
  "map_of m a = Some tc \<Longrightarrow> a \<in> awaiting m \<longleftrightarrow> tstate tc = RequiresReChecking"
  by (auto simp: awaiting_def)

lemma track_new_awaiting:
  "track_new xs m = Inr m' \<Longrightarrow> sorted_keys m \<Longrightarrow> sorted_keys m' \<and> awaiting m' = awaiting m"
proof (induction xs m rule: track_new.induct)
  case (2 p a xs m)
  then have "map_of m a = None" by (auto split: if_splits)
  then have "a \<notin> awaiting m" by (simp add: awaiting_def)
  with 2 show ?case by (auto simp: awaiting_insert sorted_map_insert split: if_splits)
qed simp

lemma finish_rest:
  assumes "inv_rest c" "visiting (cpc c) = Some (a, p)"
  shows "inv_rest (finish_visit a p st c)"
  using assms by (cases "cpc c") (auto simp: inv_rest_def finish_visit_def sorted_map_insert awaiting_insert set_insort_insert)

lemma visiting_rest:
  assumes "inv_rest c" "visiting (cpc c) = Some (a, p)" "visiting q = Some (a, p)"
  shows "inv_rest (c\<lparr>cpc := q\<rparr>)"
  using assms by (cases "cpc c"; cases q) (auto simp: inv_rest_def)

lemma visit_rest:
  assumes "inv_rest (coll w)" "cpc (coll w) = Visit" "visit w = Next w'"
  shows "inv_rest (coll w')"
proof (cases "todo (coll w)")
  case Nil
  with assms show ?thesis by (auto simp: inv_rest_def visit_def cgoto_def)
next
  case (Cons a ks)
  with assms awaiting_iff [of "tracked_counters (coll w)" a] show ?thesis
    by (fastforce simp: inv_rest_def visit_def split: option.splits TrackedCounterState.splits)
qed

lemma end_pass_rest:
  assumes "inv_rest c" "cpc c = Freeing"
  shows "inv_rest (end_pass c)"
  using assms set_fold_insort_insert [of "counters_to_recheck c" "to_recheck c"]
  by (auto simp: inv_rest_def end_pass_def start_pass_def Let_def)

lemma free_rest:
  assumes "inv_rest (coll w)" "cpc (coll w) = Freeing" "free_pointers w = Next w'"
  shows "inv_rest (coll w')"
proof (cases "to_free (coll w)")
  case Nil
  with assms end_pass_rest show ?thesis by (auto simp: free_pointers_def)
next
  case (Cons a fs)
  with assms have "coll w' = (coll w)\<lparr>to_free := fs,
      tracked_counters := map_remove a (tracked_counters (coll w)), cpc := UserDrop\<rparr>"
    by (auto simp: free_pointers_def drop_sdarc_inner_def Let_def cgoto_def goto_def set_thread_def
        split: option.splits if_splits payload.splits)
  with assms(1,2) show ?thesis by (auto simp: inv_rest_def awaiting_remove sorted_map_remove)
qed

lemma clear_backref_coll: "clear_weak_backref_impl p w = Inr (r, w') \<Longrightarrow> coll w' = coll w"
  by (erule clear_backref_cases) (simp_all add: set_obj_def)

lemma scan_coll:
  assumes "visiting q = Some (a, p)" "collector_at q w = Next w'"
  shows "(visiting (cpc (coll w')) = Some (a, p) \<and> coll w' = (coll w)\<lparr>cpc := cpc (coll w')\<rparr>)
     \<or> (\<exists>st. coll w' = finish_visit a p st (coll w))"
proof (cases q)
  case (PreRead a' p' i acc)
  with assms show ?thesis
    by (auto simp: read_ref_count_sum_relaxed_def at_slot_def cgoto_def
        split: if_splits option.splits)
next
  case (ClearRead a' p' i acc)
  with assms show ?thesis
    by (auto simp: clear_tags_and_read_ref_count_sum_relaxed_def at_slot_def cgoto_def set_obj_def
        split: if_splits option.splits)
next
  case (ReCheck a' p' i acc)
  with assms show ?thesis
    by (auto simp: read_ref_count_sum_if_all_tags_unset_acquire_def at_slot_def cgoto_def
        split: if_splits option.splits)
next
  case (ClearWeak a' p')
  with assms show ?thesis
    by (intro disjI2) (auto simp: clear_weak_back_ref_def clear_backref_coll
        split: sum.splits ClearWeakBackRefResult.splits, blast+)
qed (use assms in simp_all)

lemma collector_rest:
  assumes r: "inv_rest (coll w)" and st: "collector_at q w = Next w'" and q: "cpc (coll w) = q"
  shows "inv_rest (coll w')"
proof (cases "visiting q")
  case (Some x)
  then obtain a p where v: "visiting q = Some (a, p)" by (cases x) auto
  from scan_coll [OF v st] finish_rest [OF r] visiting_rest [OF r] q v show ?thesis by metis
next
  case None
  then show ?thesis
  proof (cases q)
    case (TakeNew i)
    with r st q show ?thesis
      by (auto simp: take_new_counters_to_track_def inv_rest_def start_pass_def
          split: if_splits sum.splits dest: track_new_awaiting dest!: subsetD [OF awaiting_keys])
  next
    case (SpinScan i)
    with r st q show ?thesis by (auto simp: cgoto_def spin_scan_def inv_rest_def split: if_splits)
  next
    case SpinWait
    with r st q show ?thesis by (auto simp: cgoto_def spin_wait_def inv_rest_def split: if_splits list.splits)
  next
    case Visit
    with visit_rest [OF r] st q show ?thesis by simp
  next
    case Freeing
    with free_rest [OF r] st q show ?thesis by simp
  qed (use r st q in \<open>auto simp: cgoto_def inv_rest_def\<close>)
qed

lemma uc_step_rest:
  assumes "inv_rest (coll w)" "uc_step e w = Next w'"
  shows "inv_rest (coll w')"
proof (rule uc_step_keeps [OF assms(2), where P = "\<lambda>w. inv_rest (coll w)", OF assms(1)])
  show "inv_rest (coll w')" if "collector_step w = Next w'"
    using that collector_rest [OF assms(1)] by (simp add: collector_step_def split: if_splits)
qed (rule user_rest)

lemma init_rest: "initial w \<Longrightarrow> inv_rest (coll w)"
  by (auto simp: initial_def inv_rest_def init_collector_def awaiting_def)

interpretation rest: invariant_system initial sys_step "\<lambda>w. inv_rest (coll w)"
  by unfold_locales (blast intro: init_rest, blast elim!: sys_stepE intro: uc_step_rest)

lemma parked_default:
  assumes "reachable w" "cpc (coll w) = Parked" "loop_counter (coll w) \<noteq> max_inner_iterations"
    and "map_of (tracked_counters (coll w)) a = Some tc"
  shows "tstate tc = DefaultState" "counters_to_recheck (coll w) = []"
proof -
  note r = rest.reach_inv [OF assms(1)]
  show "counters_to_recheck (coll w) = []" using r assms(2) by (simp add: inv_rest_def)
  have "to_free (coll w) = [] \<and> (tstate tc = ReadyToFree \<longleftrightarrow> a \<in> set (to_free (coll w)))"
    using invD(9) [OF reachable_inv [OF assms(1)]] assms(2,4) unfolding inv_pass_def by blast
  moreover have "tstate tc \<noteq> RequiresReChecking"
    using r assms(2-) by (auto simp: inv_rest_def awaiting_def)
  ultimately show "tstate tc = DefaultState" by (cases "tstate tc") auto
qed

section \<open>A whole update\<close>

definition all_default :: "(cptr \<times> TrackedCounter) list \<Rightarrow> bool" where
  "all_default m \<longleftrightarrow> sorted_keys m \<and> (\<forall>a tc. map_of m a = Some tc \<longrightarrow> tstate tc = DefaultState)"

lemma track_new_default: "track_new xs m = Inr m' \<Longrightarrow> all_default m \<Longrightarrow> all_default m'"
proof (induction xs m rule: track_new.induct)
  case (2 p a xs m)
  have "all_default (map_insert a \<lparr>fat_ptr = p, tstate = DefaultState\<rparr> m)"
    using 2(3) by (simp add: all_default_def sorted_map_insert map_of_map_insert)
  with 2 show ?case by (simp split: if_splits)
qed simp

text \<open>Taking the new counters empties the pending lists and changes nothing else but the map.\<close>

definition taken :: "nat \<Rightarrow> world \<Rightarrow> world \<Rightarrow> bool" where
  "taken i w w' \<longleftrightarrow> heap w' = heap w \<and> handles w' = handles w \<and> atomics w' = atomics w \<and> threads w' = threads w
     \<and> counters_to_recheck (coll w') = counters_to_recheck (coll w) \<and> all_default (tracked_counters (coll w'))
     \<and> length (pending_to_track w') = length (pending_to_track w) \<and> (\<forall>j < i. pending_to_track w' ! j = [])"

lemma take_new_taken:
  assumes "i \<le> m" "taken i w x" "length (pending_to_track w) = m" "for_r [i..<m] take_new_of x = Inr w'"
  shows "taken m w w'"
  using assms
proof (induction i arbitrary: x rule: inc_induct)
  case (step i)
  have u: "[i..<m] = i # [Suc i..<m]" using step.hyps by (simp add: upt_conv_Cons)
  from step.prems(3) obtain x1 where x1: "take_new_of i x = Inr x1" "for_r [Suc i..<m] take_new_of x1 = Inr w'"
    unfolding u for_r.simps res_bind_eq_Inr by blast
  from x1(1) obtain mm where mm: "track_new (pending_to_track x ! i) (tracked_counters (coll x)) = Inr mm"
    "x1 = set_coll (\<lambda>c. c\<lparr>tracked_counters := mm\<rparr>) (x\<lparr>pending_to_track := (pending_to_track x)[i := []]\<rparr>)"
    by (auto simp: take_new_of_def split: sum.splits)
  have "taken (Suc i) w x1"
    using step.prems(1,2) step.hyps track_new_default [OF mm(1)]
    by (auto simp: taken_def mm(2) nth_list_update less_Suc_eq)
  then show ?case using step.IH [OF _ step.prems(2) x1(2)] by blast
qed simp

lemma tracked_length:
  assumes "inv_track h pend m"
  shows "length m \<le> card (dom h)"
proof -
  let ?p = "\<lambda>(a, tc). fat_ptr tc"
  note so = inv_trackD(1) [OF assms]
  have mem: "map_of m a = Some tc" if "(a, tc) \<in> set m" for a tc
    using that sorted_keys_distinct [OF so] by (simp add: map_of_eq_Some_iff)
  have "inj_on ?p (set m)"
  proof (rule inj_onI, clarify)
    fix a tc b tb assume t: "(a, tc) \<in> set m" "(b, tb) \<in> set m" "fat_ptr tc = fat_ptr tb"
    then have "a = b" using tracked_distinct [OF assms mem [OF t(1)] mem [OF t(2)]] by blast
    then show "a = b \<and> tc = tb" using mem [OF t(1)] mem [OF t(2)] by simp
  qed
  moreover have "?p ` set m \<subseteq> dom h"
  proof clarify
    fix a tc assume "(a, tc) \<in> set m"
    from inv_trackD(2) [OF assms mem [OF this]] show "\<exists>y. h (fat_ptr tc) = Some y" by (auto simp: meta_def)
  qed
  moreover have "dom h \<subseteq> fst ` set (concat pend) \<union> ?p ` set m"
  proof
    fix p assume "p \<in> dom h"
    then obtain a r d where "meta h p = Some (a, r, d)" by (auto simp: meta_def)
    from inv_trackD(6) [OF assms this] show "p \<in> fst ` set (concat pend) \<union> ?p ` set m"
    proof
      assume "(p, a) \<in> set (concat pend)"
      from image_eqI [OF _ this, of p fst] show ?thesis by (intro UnI1) simp
    next
      assume "\<exists>tc. map_of m a = Some tc \<and> fat_ptr tc = p"
      then obtain tc where "(a, tc) \<in> set m" "fat_ptr tc = p" by (auto dest: map_of_SomeD)
      from image_eqI [OF _ this(1), of p ?p] this(2) show ?thesis by (intro UnI2) simp
    qed
  qed
  then have "finite (dom h)" by (rule finite_subset) simp
  ultimately have "card (set m) \<le> card (dom h)" by (meson card_inj_on_le)
  then show ?thesis
    using distinct_card [of m] sorted_keys_distinct [OF so] by (simp add: distinct_map)
qed

text \<open>The world in which the first pass of an update begins.\<close>

lemma first_pass_begins:
  assumes re: "reachable w" and un: "undisturbed w" and lc: "loop_counter (coll w) \<noteq> max_inner_iterations"
    and w1: "for_r [0..<shards w] take_new_of w = Inr w1"
  shows "taken (shards w) w w1" "quiet w1" "resting (map fst (tracked_counters (coll w1))) w1"
    "concat (pending_to_track w1) = []" "to_go w1 \<le> 3 * card (dom (heap w))"
    "reachable (stage True 0 (SpinScan 0) (map fst (tracked_counters (coll w1))) (begin_pass w1))"
proof -
  have q: "quiet w" by (rule undisturbed_quiet [OF re un])
  note r = take_new_runs [OF le0 q refl]
  have d: "all_default (tracked_counters (coll w))" "counters_to_recheck (coll w) = []"
    using parked_default(1) [OF re _ lc] rest.reach_inv [OF re] un
    by (auto simp: all_default_def undisturbed_def inv_rest_def)
  have len: "length (pending_to_track w) = shards w"
    using invD(1) [OF reachable_inv [OF re]] by (simp add: inv_shape_def)
  have "taken 0 w w" using d by (simp add: taken_def)
  from take_new_taken [OF le0 this len w1] show t: "taken (shards w) w w1" .
  show q1: "quiet w1" using r w1 by blast
  have sh: "shards w1 = shards w" using r w1 by blast
  show "resting (map fst (tracked_counters (coll w1))) w1"
    using t d(2)
    by (auto simp: resting_def accounted_def taken_def all_default_def dom_map_of_conv_image_fst [symmetric])
  show "concat (pending_to_track w1) = []" using t len by (auto simp: taken_def in_set_conv_nth)
  have "alone\<^sup>*\<^sup>* w (cgoto (TakeNew 0) w)"
    using un q by (intro r_into_rtranclp) (simp add: alone_iff alone_step_def collector_step_def undisturbed_def)
  moreover have "alone\<^sup>*\<^sup>* (cgoto (TakeNew 0) w) (cgoto (TakeNew (shards w1)) w1)"
    using r w1 sh by simp
  ultimately have re1: "reachable (cgoto (TakeNew (shards w1)) w1)"
    using alone_steps_reachable [OF _ re] by (meson rtranclp_trans)
  then show "reachable (stage True 0 (SpinScan 0) (map fst (tracked_counters (coll w1))) (begin_pass w1))"
    using alone_reachable first_pass_step [OF q1] by blast
  have "length (tracked_counters (coll w1)) \<le> card (dom (heap w))"
    using tracked_length invD(8) [OF reachable_inv [OF re1]] t by (simp add: cgoto_def taken_def)
  then show "to_go w1 \<le> 3 * card (dom (heap w))"
    using remaining_bound [of "heap w1" "tracked_counters (coll w1)"] by linarith
qed

lemma update_complete:
  assumes re: "reachable w" and un: "undisturbed w" and lc: "loop_counter (coll w) \<noteq> max_inner_iterations"
    and small: "3 * card (dom (heap w)) \<le> max_inner_iterations"
    and u: "CollectorThreadState_update w = Inr w'"
  shows "resting [] w'" "concat (pending_to_track w') = []" "handles w' = handles w" "atomics w' = atomics w"
    "map pc (threads w') = map pc (threads w)" "strong w' p \<le> strong w p"
proof -
  from u obtain w1 ks w2 where w1: "for_r [0..<shards w] take_new_of w = Inr w1"
    and w2: "update_counters (map fst (tracked_counters (coll w1))) w1 = Inr (ks, w2)"
    and w3: "re_check_loop max_inner_iterations ks w2 = Inr w'"
    using take_new_sorted [OF _ reachable_sorted [OF re]]
    by (auto simp: CollectorThreadState_update_def do_collection_inner_iterations_def res_bind_eq_Inr update_all_eq)
  note b = first_pass_begins [OF re un lc w1]
  note p = pass_progress [OF b(6,2,3) w2]
  have go: "ks = [] \<or> to_go w2 < max_inner_iterations" using p b(5) small by linarith
  have re2: "reachable (after_pass True 0 max_inner_iterations ks w2)"
    using alone_steps_reachable [OF pass_steps [OF b(2) _ _ w2] b(6)] by simp
  have q2: "quiet w2" using update_counters_runs [OF b(2)] w2 by blast
  show "resting [] w'" using re_check_complete [OF re2 _ q2 _ go w3] p by simp
  have s: "shrinks w1 w'"
    using update_counters_shrinks [OF b(2) w2] re_check_shrinks [OF q2 w3] shrinks_trans by blast
  then show "concat (pending_to_track w') = []" "handles w' = handles w" "atomics w' = atomics w"
    "map pc (threads w') = map pc (threads w)"
    using b(1,4) by (simp_all add: shrinks_def taken_def)
  have "strong w1 = strong w" using b(1) by (intro strong_cong) (simp_all add: taken_def)
  then show "strong w' p \<le> strong w p" using shrinks_strong [OF s, of p] by simp
qed

lemma parked_simps [simp]:
  "heap (parked fp n w) = heap w" "handles (parked fp n w) = handles w" "atomics (parked fp n w) = atomics w"
  "threads (parked fp n w) = threads w" "pending_to_track (parked fp n w) = pending_to_track w"
  "tracked_counters (coll (parked fp n w)) = tracked_counters (coll w)" "cpc (coll (parked fp n w)) = Parked"
  "strong (parked fp n w) = strong w"
  by (simp_all add: parked_def stage_def)

lemma resting_referenced:
  assumes "reachable (parked fp n w)" "resting [] w" "concat (pending_to_track w) = []" "heap w p = Some ob"
  shows "0 < strong w p"
proof -
  note i = reachable_inv [OF assms(1)]
  obtain tc where tc: "map_of (tracked_counters (coll w)) (counters_ptr ob) = Some tc" "fat_ptr tc = p"
    using inv_trackD(6) [OF invD(8) [OF i], of p "counters_ptr ob"] meta_SomeI [of "heap w" p ob] assms(3,4) by auto
  then have "\<not> zero_sum w p"
    using assms(2) unfolding resting_def accounted_def
    by (cases "tstate tc") (metis TrackedCounterState.case Un_empty_left empty_iff empty_set)+
  then show ?thesis
    using invD(3) [OF i] assms(4) by (auto simp: inv_count_def zero_sum_def ref_count_sum_def)
qed

text \<open>
  C5: garbage is collected. Take any reachable state in which the collector is parked, its last update
  did not stop at the limit of inner iterations, no user thread is inside a reader critical section,
  and at most a third as many objects exist as inner iterations are allowed (33333). The collector
  thread, run alone, ends its next update with exactly the referenced objects allocated: every object
  that nothing referred to is gone, and so is every weak inner object that only a freed object
  referred to. Handles and cells are untouched.
\<close>

theorem garbage_collected:
  assumes "reachable w" "undisturbed w" "loop_counter (coll w) \<noteq> max_inner_iterations"
    and "3 * card (dom (heap w)) \<le> max_inner_iterations"
  shows "\<exists>w'. alone\<^sup>*\<^sup>* w w' \<and> reachable w' \<and> undisturbed w' \<and> handles w' = handles w \<and> atomics w' = atomics w
     \<and> (\<forall>p. heap w' p \<noteq> None \<longleftrightarrow> 0 < strong w' p) \<and> (\<forall>p. strong w p = 0 \<longrightarrow> heap w' p = None)"
proof -
  have "ends w (CollectorThreadState_update w)"
    using update_ends [OF undisturbed_quiet [OF assms(1,2)] reachable_sorted [OF assms(1)]] assms(2) by (simp add: undisturbed_def)
  then obtain w' fp n where u: "CollectorThreadState_update w = Inr w'" and s: "alone\<^sup>*\<^sup>* w (parked fp n w')"
    using alone_steps_no_fault [OF assms(1)] assms(2) by (auto simp: ends_def undisturbed_def split: sum.splits)
  note c = update_complete [OF assms u] and re = alone_steps_reachable [OF s assms(1)]
  have "undisturbed (parked fp n w')"
  proof -
    have "pc ` set (threads w') = pc ` set (threads w)" "pc (threads w' ! 0) = pc (threads w ! 0)"
      using c(5) invD(1) [OF reachable_inv [OF assms(1)]]
      by (metis set_map, metis inv_shape_def length_greater_0_conv length_map nth_map)
    then show ?thesis using assms(2) by (force simp: undisturbed_def)
  qed
  moreover have "0 < strong w' p" if "heap w' p \<noteq> None" for p
    using resting_referenced [OF re c(1,2)] that by auto
  moreover have "heap w' p \<noteq> None" if "0 < strong w' p" for p
    using invD(4) [OF reachable_inv [OF re]] that by (simp add: inv_alive_def)
  ultimately show ?thesis
    using s re c(3,4) c(6) by (intro exI [of _ "parked fp n w'"]) (auto, metis less_nat_zero_code le_zero_eq option.exhaust)
qed

theorem garbage_collected_witness:
  "strong garbage 10 = 0 \<and> (\<exists>w'. alone\<^sup>*\<^sup>* garbage w' \<and> reachable w' \<and> heap w' 10 = None
     \<and> (\<forall>p. heap w' p \<noteq> None \<longleftrightarrow> 0 < strong w' p))"
proof -
  have "strong garbage 10 = 0"
    by (auto simp: strong_def garbage_def owned_def meta_def split: if_splits)
  moreover have "dom (heap garbage) = {12, 10}" "loop_counter (coll garbage) = 0"
    by (auto simp: garbage_def init_collector_def split: if_splits)
  ultimately show ?thesis
    using garbage_collected [OF garbage_reachable garbage_undisturbed] by (auto simp: max_inner_iterations_def)
qed

end
