(* ===== verification/Collector_Progress.thy ===== *)
theory Collector_Progress
  imports Sdarc_Unreferenced Sdarc_Liveness
begin

text \<open>
  What one iteration of the collector does to an object that nothing refers to, whatever the user
  threads do in the meantime: the collector takes it from the pending lists, finds its sum zero, clears
  its tags, re-checks it, clears its back reference and frees it. \<open>due\<close> says where in this sequence the
  object stands at each point of the iteration. The second half shows that an iteration ends if no
  reader stays in its critical section.
\<close>

section \<open>One iteration, seen from such an object\<close>

text \<open>
  Between visits: the object is tracked; in its default state it is among the counters to visit, or among
  those the collector thread itself has dropped a handle of, which it will visit next; after its tags have
  been cleared it is among those to visit or to re-check, and then among those to free.
\<close>

definition queued :: "world \<Rightarrow> ptr \<Rightarrow> cptr \<Rightarrow> bool" where
  "queued w p a \<longleftrightarrow> (\<exists>tc. map_of (tracked_counters (coll w)) a = Some tc \<and> fat_ptr tc = p
     \<and> (case tstate tc of
          DefaultState \<Rightarrow> a \<in> set (todo (coll w)) \<union> set (counters_to_recheck (coll w))
        | RequiresReChecking \<Rightarrow> untagged w p
            \<and> a \<in> set (todo (coll w)) \<union> set (to_recheck (coll w))
        | ReadyToFree \<Rightarrow> a \<in> set (to_free (coll w))))"

text \<open>In the middle of its own visit, the sum is that of the shards read so far.\<close>

definition partial_sum :: "nat \<Rightarrow> SdarcInner \<Rightarrow> int" where
  "partial_sum i ob = rc_sum itc_ref_count (take i (counters ob))"

fun due_at :: "cpc \<Rightarrow> world \<Rightarrow> ptr \<Rightarrow> SdarcInner \<Rightarrow> bool" where
  "due_at Parked w p ob = False"
| "due_at (TakeNew i) w p ob =
     ((\<exists>j < length (pending_to_track w). i \<le> j \<and> (p, counters_ptr ob) \<in> set (pending_to_track w ! j))
      \<or> (\<exists>tc. map_of (tracked_counters (coll w)) (counters_ptr ob) = Some tc \<and> fat_ptr tc = p
           \<and> tstate tc = DefaultState))"
| "due_at (PreRead a y i acc) w p ob =
     (if y = p then i \<le> shards w \<and> acc = partial_sum i ob else queued w p (counters_ptr ob))"
| "due_at (ClearRead a y i acc) w p ob =
     (if y = p then i \<le> shards w \<and> acc = partial_sum i ob \<and> (\<forall>c \<in> set (take i (counters ob)). \<not> itc_tag c)
      else queued w p (counters_ptr ob))"
| "due_at (ReCheck a y i acc) w p ob =
     (if y = p then i \<le> shards w \<and> acc = partial_sum i ob \<and> untagged w p else queued w p (counters_ptr ob))"
| "due_at (ClearWeak a y) w p ob = (if y = p then untagged w p else queued w p (counters_ptr ob))"
| "due_at _ w p ob = queued w p (counters_ptr ob)"

definition due :: "world \<Rightarrow> ptr \<Rightarrow> bool" where
  "due w p \<longleftrightarrow> (\<exists>ob. heap w p = Some ob \<and> due_at (cpc (coll w)) w p ob)"

text \<open>User threads do not touch it.\<close>

lemma grow_at: "set (xs ! j) \<subseteq> set (xs[i := xs ! i @ ys] ! j)"
  by (cases "i < length xs"; cases "i = j") (auto simp: not_less list_update_beyond)

definition coll_kept :: "world \<Rightarrow> world \<Rightarrow> bool" where
  "coll_kept w w' \<longleftrightarrow> shards w' = shards w \<and> length (pending_to_track w') = length (pending_to_track w)
     \<and> (\<forall>j. set (pending_to_track w ! j) \<subseteq> set (pending_to_track w' ! j))
     \<and> (\<exists>xs. set (counters_to_recheck (coll w)) \<subseteq> set xs \<and> coll w' = (coll w)\<lparr>counters_to_recheck := xs\<rparr>)"

lemma coll_kept_trans:
  assumes "coll_kept w w1" "coll_kept w1 w2"
  shows "coll_kept w w2"
proof -
  from assms obtain xs ys where xs: "set (counters_to_recheck (coll w)) \<subseteq> set xs" "coll w1 = (coll w)\<lparr>counters_to_recheck := xs\<rparr>"
    and ys: "set xs \<subseteq> set ys" "coll w2 = (coll w1)\<lparr>counters_to_recheck := ys\<rparr>" by (auto simp: coll_kept_def)
  then have "set (counters_to_recheck (coll w)) \<subseteq> set ys \<and> coll w2 = (coll w)\<lparr>counters_to_recheck := ys\<rparr>" by auto
  with assms show ?thesis unfolding coll_kept_def by (metis subset_trans)
qed

lemma user_recheck:
  assumes "user_step t act w = Next w'"
  shows "set (counters_to_recheck (coll w)) \<subseteq> set (counters_to_recheck (coll w'))"
proof -
  have "coll w' = coll w" if "begin_op t act w = Next w'"
    using that by (cases act) (auto simp: user_op_defs world_ops modify_counter_Next
        split: if_splits option.splits payload.splits)
  moreover have "set (counters_to_recheck (coll w)) \<subseteq> set (counters_to_recheck (coll w'))" if "continue t x w = Next w'" for x
    using that by (cases x) (auto simp: user_op_defs world_ops modify_counter_Next set_insort_insert
        split: if_splits option.splits payload.splits)
  ultimately show ?thesis using assms unfolding user_step_def by (metis outcome.distinct(3) order_refl)
qed

lemma user_coll_kept:
  assumes "user_step t act w = Next w'"
  shows "coll_kept w w'"
proof -
  let ?P = "shards w' = shards w \<and> length (pending_to_track w') = length (pending_to_track w)
     \<and> (\<forall>j. set (pending_to_track w ! j) \<subseteq> set (pending_to_track w' ! j))"
  have t: "t < length (threads w)" using assms by (simp add: user_step_def split: if_splits)
  have "?P" if "begin_op t act w = Next w'"
    using that t by (cases act) (auto intro: subsetD [OF grow_at] simp: user_op_defs world_ops modify_counter_Next split: if_splits option.splits payload.splits)
  moreover have "pending_to_track w' = pending_to_track w \<and> shards w' = shards w" if "continue t x w = Next w'" for x
    using that by (cases x) (auto simp: user_op_defs world_ops modify_counter_Next split: if_splits option.splits payload.splits)
  ultimately have "?P" using assms unfolding user_step_def by (metis outcome.distinct(3) order_refl)
  moreover obtain xs where "coll w' = (coll w)\<lparr>counters_to_recheck := xs\<rparr>" using user_coll(1) [OF assms] by blast
  ultimately show ?thesis using user_recheck [OF assms] by (auto simp: coll_kept_def)
qed

lemma uc_user_coll_kept:
  assumes "uc_step (User t act) w = Next w'"
  shows "coll_kept w w'"
proof (cases rule: uc_step_cases [of "User t act" w])
  case plain
  with assms show ?thesis using user_coll_kept by simp
next
  case (cas t' c m q)
  with assms obtain w1 where "user_step t (CompareAndSet c m (Some q)) w = Next w1" "w' = w1 \<or> user_step t Continue w1 = Next w'"
    by (auto split: outcome.splits if_splits)
  then show ?thesis using user_coll_kept coll_kept_trans by blast
qed

lemma queued_mono:
  assumes "queued w p a" "map_of (tracked_counters (coll w')) a = map_of (tracked_counters (coll w)) a"
    and "untagged w p \<Longrightarrow> untagged w' p"
    and "a \<in> set (todo (coll w)) \<Longrightarrow> a \<in> set (todo (coll w'))"
    and "a \<in> set (to_recheck (coll w)) \<Longrightarrow> a \<in> set (to_recheck (coll w'))"
    and "a \<in> set (to_free (coll w)) \<Longrightarrow> a \<in> set (to_free (coll w'))"
    and "a \<in> set (counters_to_recheck (coll w)) \<Longrightarrow> a \<in> set (counters_to_recheck (coll w'))"
  shows "queued w' p a"
  using assms unfolding queued_def by (auto split: TrackedCounterState.splits)

lemma due_kept:
  assumes d: "due w p" and k: "coll_kept w w'" "heap w' p = heap w p"
  shows "due w' p"
proof -
  from d obtain ob where ob: "heap w p = Some ob" "due_at (cpc (coll w)) w p ob" by (auto simp: due_def)
  from k(1) obtain xs where xs: "set (counters_to_recheck (coll w)) \<subseteq> set xs"
    and c: "coll w' = (coll w)\<lparr>counters_to_recheck := xs\<rparr>" by (auto simp: coll_kept_def)
  have u: "untagged w' p = untagged w p" using k(2) by (simp add: untagged_def)
  have q: "queued w p (counters_ptr ob) \<Longrightarrow> queued w' p (counters_ptr ob)"
    by (erule queued_mono) (use xs in \<open>auto simp: c u\<close>)
  have "due_at (cpc (coll w)) w' p ob"
    using ob(2) k(1) by (cases "cpc (coll w)") (auto simp: u c coll_kept_def dest: q split: if_splits)
  with ob(1) k(2) c show ?thesis by (auto simp: due_def)
qed

text \<open>Nor does the collector, before it frees it.\<close>

lemma partial_sum_Suc:
  "i < length (counters ob) \<Longrightarrow> partial_sum (Suc i) ob = partial_sum i ob + itc_ref_count (counters ob ! i)"
  by (simp add: partial_sum_def take_Suc_conv_app_nth rc_sum_def)

lemma partial_sum_0 [simp]: "partial_sum 0 ob = 0"
  by (simp add: partial_sum_def rc_sum_def)

lemma partial_sum_all:
  assumes "inv w" "strong w p = 0" "heap w p = Some ob"
  shows "partial_sum (shards w) ob = 0"
  using invD(2,3) [OF assms(1)] assms(2,3)
  by (simp add: inv_len_def inv_count_def partial_sum_def)

lemma due_take_new:
  assumes i: "inv w" and p: "heap w p = Some ob" and c: "cpc (coll w) = TakeNew n" and d: "due_at (TakeNew n) w p ob"
    and st: "take_new_counters_to_track n w = Next w'"
  shows "due w' p"
proof (cases "n < shards w")
  case True
  have n: "n < length (pending_to_track w)" using True invD(1) [OF i] by (simp add: inv_shape_def)
  obtain m where m: "track_new (pending_to_track w ! n) (tracked_counters (coll w)) = Inr m"
    and lk: "\<And>b tc. map_of m b = Some tc \<longleftrightarrow> map_of (tracked_counters (coll w)) b = Some tc
       \<or> (\<exists>p. (p, b) \<in> set (pending_to_track w ! n) \<and> tc = \<lparr>fat_ptr = p, tstate = DefaultState\<rparr>)"
    by (rule track_new_lookup [OF invD(8) [OF i] n]) (rule that)
  have w': "w' = set_coll (\<lambda>c. c\<lparr>tracked_counters := m, cpc := TakeNew (Suc n)\<rparr>)
      (w\<lparr>pending_to_track := (pending_to_track w)[n := []]\<rparr>)"
    using st True m by (simp add: take_new_counters_to_track_def)
  have "due_at (TakeNew (Suc n)) w' p ob"
  proof (cases "\<exists>j < length (pending_to_track w). Suc n \<le> j \<and> (p, counters_ptr ob) \<in> set (pending_to_track w ! j)")
    case True
    then show ?thesis by (auto simp: w' intro!: exI)
  next
    case False
    then have "(p, counters_ptr ob) \<in> set (pending_to_track w ! n) \<or> (\<exists>tc. map_of (tracked_counters (coll w)) (counters_ptr ob) = Some tc
        \<and> fat_ptr tc = p \<and> tstate tc = DefaultState)" using d by (auto simp: Suc_le_eq le_less)
    then show ?thesis using lk [of "counters_ptr ob"] by (auto simp: w')
  qed
  then show ?thesis using p by (simp add: due_def w')
next
  case False
  then obtain tc where tc: "map_of (tracked_counters (coll w)) (counters_ptr ob) = Some tc" "fat_ptr tc = p" "tstate tc = DefaultState"
    using d invD(1) [OF i] by (auto simp: inv_shape_def)
  then have "counters_ptr ob \<in> fst ` set (tracked_counters (coll w))" by (force dest: map_of_SomeD)
  moreover have "w' = set_coll (\<lambda>c. start_pass True (map fst (tracked_counters c)) (c\<lparr>loop_counter := 0\<rparr>)) w"
    using st False by (simp add: take_new_counters_to_track_def)
  ultimately show ?thesis using tc p by (simp add: due_def queued_def start_pass_def)
qed

lemma due_visit:
  assumes i: "inv w" and p: "heap w p = Some ob" and q: "queued w p (counters_ptr ob)"
    and st: "visit w = Next w'" "cpc (coll w) = Visit"
  shows "due w' p"
proof (cases "todo (coll w)")
  case Nil
  then have "queued w' p (counters_ptr ob)" using st by (intro queued_mono [OF q]) (auto simp: visit_def cgoto_def)
  then show ?thesis using p st Nil by (auto simp: due_def visit_def cgoto_def)
next
  case (Cons a ks)
  have h: "heap w' = heap w" using st by (auto simp: visit_def cgoto_def split: list.splits option.splits TrackedCounterState.splits)
  from q obtain tc where tc: "map_of (tracked_counters (coll w)) (counters_ptr ob) = Some tc" "fat_ptr tc = p"
    by (auto simp: queued_def)
  show ?thesis
  proof (cases "a = counters_ptr ob")
    case True
    then show ?thesis using st Cons tc p q
      by (auto simp: visit_def due_def queued_def split: TrackedCounterState.splits)
  next
    case False
    have q': "queued w' p (counters_ptr ob)"
      using st Cons False by (intro queued_mono [OF q]) (auto simp: visit_def split: option.splits TrackedCounterState.splits)
    have "fat_ptr tc' \<noteq> p" if "map_of (tracked_counters (coll w)) a = Some tc'" for tc'
      using tracked_distinct [OF invD(8) [OF i] that tc(1) False] tc(2) by simp
    then show ?thesis using st Cons q' p h
      by (auto simp: visit_def due_def split: option.splits TrackedCounterState.splits)
  qed
qed

text \<open>The end of the visit of another counter.\<close>

lemma due_other:
  assumes i: "inv w" and p: "heap w p = Some ob" "heap w' p = Some ob'" and q: "queued w p (counters_ptr ob)"
    and ob': "counters_ptr ob' = counters_ptr ob" "untagged w p \<Longrightarrow> untagged w' p"
    and v: "visiting x = Some (a, y)" "cpc (coll w) = x" "y \<noteq> p" "collector_at x w = Next w'"
  shows "due w' p"
proof -
  obtain tc where tc: "map_of (tracked_counters (coll w)) a = Some tc" "fat_ptr tc = y"
    by (rule visiting_facts [OF i, of a y]) (use v in auto)
  have a: "a \<noteq> counters_ptr ob" using q tc v(3) by (auto simp: queued_def)
  have s: "sorted_keys (tracked_counters (coll w))" using inv_trackD(1) [OF invD(8) [OF i]] .
  from scan_coll [OF v(1,4)] show ?thesis
  proof
    assume "visiting (cpc (coll w')) = Some (a, y) \<and> coll w' = (coll w)\<lparr>cpc := cpc (coll w')\<rparr>"
    then obtain z where c: "visiting z = Some (a, y)" "coll w' = (coll w)\<lparr>cpc := z\<rparr>" by blast
    then have "queued w' p (counters_ptr ob)" by (intro queued_mono [OF q]) (auto simp: ob')
    with c show ?thesis using p ob' v(3) by (cases z) (auto simp: due_def)
  next
    assume "\<exists>st. coll w' = finish_visit a y st (coll w)"
    then obtain st where c: "coll w' = finish_visit a y st (coll w)" by blast
    then have "queued w' p (counters_ptr ob)"
      using a s by (intro queued_mono [OF q]) (auto simp: ob' finish_visit_def map_of_map_insert set_insort_insert)
    with c show ?thesis using p ob' by (auto simp: due_def finish_visit_def)
  qed
qed

text \<open>Its own visit.\<close>

lemma clear_at:
  assumes "i < length (counters ob)"
  defines "ob' \<equiv> ob\<lparr>counters := (counters ob)[i := itc_clear_tag (counters ob ! i)]\<rparr>"
  shows "partial_sum (Suc i) ob' = partial_sum i ob + itc_ref_count (counters ob ! i)"
    "\<forall>c \<in> set (take i (counters ob)). \<not> itc_tag c \<Longrightarrow> \<forall>c \<in> set (take (Suc i) (counters ob')). \<not> itc_tag c"
  using assms(1) by (auto simp: ob'_def partial_sum_def rc_sum_def take_Suc_conv_app_nth)

lemma due_pre_read:
  assumes i: "inv w" and p: "heap w p = Some ob" "strong w p = 0"
    and c: "cpc (coll w) = PreRead a p n acc" and d: "n \<le> shards w" "acc = partial_sum n ob"
    and st: "read_ref_count_sum_relaxed a p n acc w = Next w'"
  shows "due w' p"
proof -
  have l: "length (counters ob) = shards w" using invD(2) [OF i] p by (simp add: inv_len_def)
  show ?thesis
  proof (cases "n < shards w")
    case True
    then show ?thesis using st p d l
      by (auto simp: read_ref_count_sum_relaxed_def at_slot_def cgoto_def due_def partial_sum_Suc split: if_splits)
  next
    case False
    then show ?thesis using st p d partial_sum_all [OF i p(2,1)]
      by (auto simp: read_ref_count_sum_relaxed_def cgoto_def due_def)
  qed
qed

lemma due_clear_read:
  assumes i: "inv w" and p: "heap w p = Some ob" "strong w p = 0"
    and c: "cpc (coll w) = ClearRead a p n acc"
    and d: "n \<le> shards w" "acc = partial_sum n ob" "\<forall>c \<in> set (take n (counters ob)). \<not> itc_tag c"
    and st: "clear_tags_and_read_ref_count_sum_relaxed a p n acc w = Next w'"
  shows "due w' p"
proof -
  have l: "length (counters ob) = shards w" using invD(2) [OF i] p by (simp add: inv_len_def)
  show ?thesis
  proof (cases "n < shards w")
    case True
    let ?ob = "ob\<lparr>counters := (counters ob)[n := itc_clear_tag (counters ob ! n)]\<rparr>"
    have "w' = cgoto (ClearRead a p (Suc n) (acc + itc_ref_count (counters ob ! n))) (set_obj p ?ob w)"
      using st True p by (simp add: clear_tags_and_read_ref_count_sum_relaxed_def at_slot_def split: if_splits)
    then have w': "cpc (coll w') = ClearRead a p (Suc n) (acc + itc_ref_count (counters ob ! n))"
      "heap w' p = Some ?ob" "shards w' = shards w" by (simp_all add: cgoto_def set_obj_def)
    note cl = clear_at [of n ob, unfolded l, OF True]
    have "due_at (cpc (coll w')) w' p ?ob" using w'(3) True cl(1) cl(2) [OF d(3)] d(2) unfolding w'(1) due_at.simps by simp
    then show ?thesis using w'(2) unfolding due_def by blast
  next
    case False
    have a: "counters_ptr ob = a" by (rule visiting_facts [OF i, of a p]) (use c p in auto)
    have u: "untagged w p" using False d l p by (simp add: untagged_def)
    have s: "sorted_keys (tracked_counters (coll w))" using inv_trackD(1) [OF invD(8) [OF i]] .
    have "w' = set_coll (finish_visit a p RequiresReChecking) w"
      using st False d partial_sum_all [OF i p(2,1)] by (simp add: clear_tags_and_read_ref_count_sum_relaxed_def)
    then have "coll w' = finish_visit a p RequiresReChecking (coll w)" "heap w' p = Some ob" "untagged w' p"
      using p u by simp_all
    then show ?thesis using a s by (simp add: due_def finish_visit_def queued_def map_of_map_insert set_insort_insert)
  qed
qed

lemma due_recheck:
  assumes i: "inv w" and p: "heap w p = Some ob" "strong w p = 0"
    and c: "cpc (coll w) = ReCheck a p n acc" and d: "n \<le> shards w" "acc = partial_sum n ob" "untagged w p"
    and st: "read_ref_count_sum_if_all_tags_unset_acquire a p n acc w = Next w'"
  shows "due w' p"
proof -
  have l: "length (counters ob) = shards w" using invD(2) [OF i] p by (simp add: inv_len_def)
  show ?thesis
  proof (cases "n < shards w")
    case True
    then have "\<not> itc_tag (counters ob ! n)" using d(3) p l by (simp add: untagged_def)
    then show ?thesis using st p d l True
      by (auto simp: read_ref_count_sum_if_all_tags_unset_acquire_def at_slot_def cgoto_def due_def partial_sum_Suc split: if_splits)
  next
    case False
    then show ?thesis using st p d partial_sum_all [OF i p(2,1)]
      by (auto simp: read_ref_count_sum_if_all_tags_unset_acquire_def cgoto_def due_def)
  qed
qed

lemma due_clear_weak:
  assumes i: "inv w" and p: "heap w p = Some ob" and c: "cpc (coll w) = ClearWeak a p" and d: "untagged w p"
    and st: "clear_weak_back_ref a p w = Next w'"
  shows "due w' p"
proof -
  have a: "counters_ptr ob = a" by (rule visiting_facts [OF i, of a p]) (use c p in auto)
  have s: "sorted_keys (tracked_counters (coll w))" using inv_trackD(1) [OF invD(8) [OF i]] .
  show ?thesis using st p a s d
    by (auto simp: clear_weak_back_ref_def clear_weak_backref_impl_def set_obj_def due_def finish_visit_def queued_def
        map_of_map_insert set_insort_insert untagged_def
        split: option.splits payload.splits sum.splits ClearWeakBackRefResult.splits prod.splits if_splits)
qed

lemma due_free:
  assumes i: "inv w" and r: "inv_rest (coll w)" and p: "heap w p = Some ob" "heap w' p \<noteq> None"
    and q: "queued w p (counters_ptr ob)" and c: "cpc (coll w) = Freeing" "loop_counter (coll w') \<noteq> max_inner_iterations"
    and st: "free_pointers w = Next w'"
  shows "due w' p"
proof (cases "to_free (coll w)")
  case Nil
  have td: "todo (coll w) = []" using r c by (simp add: inv_rest_def)
  from q obtain tc where tc: "map_of (tracked_counters (coll w)) (counters_ptr ob) = Some tc" "fat_ptr tc = p"
    and t: "case tstate tc of
        DefaultState \<Rightarrow> counters_ptr ob \<in> set (todo (coll w)) \<union> set (counters_to_recheck (coll w))
      | RequiresReChecking \<Rightarrow> untagged w p \<and> counters_ptr ob \<in> set (todo (coll w)) \<union> set (to_recheck (coll w))
      | ReadyToFree \<Rightarrow> counters_ptr ob \<in> set (to_free (coll w))" unfolding queued_def by blast
  let ?n = "fold insort_insert (counters_to_recheck (coll w)) (to_recheck (coll w))"
  have n: "counters_ptr ob \<in> set ?n" and rf: "tstate tc \<noteq> ReadyToFree" and u: "tstate tc = RequiresReChecking \<Longrightarrow> untagged w p"
    using t Nil td by (cases "tstate tc"; simp add: set_fold_insort_insert)+
  from n have ne: "?n \<noteq> []" by auto
  have w': "w' = set_coll end_pass w" using st Nil by (simp add: free_pointers_def)
  then have c': "coll w' = start_pass False ?n ((coll w)\<lparr>counters_to_recheck := [],
      loop_counter := (if first_pass (coll w) then 0 else Suc (loop_counter (coll w)))\<rparr>)" and h: "heap w' = heap w"
    using c(2) ne by (auto simp: end_pass_def Let_def)
  have "queued w' p (counters_ptr ob)" unfolding queued_def
    using tc n rf u by (cases "tstate tc") (auto simp: c' start_pass_def untagged_def h)
  then show ?thesis using p by (simp add: due_def h c' start_pass_def)
next
  case (Cons a fs)
  have s: "sorted_keys (tracked_counters (coll w))" using inv_trackD(1) [OF invD(8) [OF i]] .
  from q obtain tc where tc: "map_of (tracked_counters (coll w)) (counters_ptr ob) = Some tc" "fat_ptr tc = p"
    by (auto simp: queued_def)
  have w': "coll w' = (coll w)\<lparr>to_free := fs, tracked_counters := map_remove a (tracked_counters (coll w)), cpc := UserDrop\<rparr>"
    "heap w' = (heap w)(fat_ptr (the (map_of (tracked_counters (coll w)) a)) := None)"
    using st Cons by (auto simp: free_pointers_def drop_sdarc_inner_def Let_def cgoto_def goto_def set_thread_def
        split: option.splits if_splits payload.splits)
  then have a: "a \<noteq> counters_ptr ob" and h: "heap w' p = heap w p" using p tc by (auto split: if_splits)
  have "queued w' p (counters_ptr ob)"
    by (rule queued_mono [OF q]) (use a h Cons s in \<open>auto simp: w'(1) map_of_map_remove untagged_def\<close>)
  then show ?thesis using p h by (simp add: due_def w'(1))
qed

lemma collector_due:
  assumes w: "reachable w" and p: "heap w p = Some ob" "strong w p = 0" "due w p"
    and st: "collector_step w = Next w'" and p': "heap w' p \<noteq> None" and n: "loop_counter (coll w') \<noteq> max_inner_iterations"
  shows "due w' p"
proof -
  have i: "inv w" and s: "safe w" using reachable_inv [OF w] sys.reach_inv [OF w] by simp_all
  have c: "collector_at (cpc (coll w)) w = Next w'" using st by (simp add: collector_step_def split: if_splits)
  have d: "due_at (cpc (coll w)) w p ob" using p by (auto simp: due_def)
  show ?thesis
  proof (cases "visiting (cpc (coll w))")
    case (Some v)
    obtain a y where v: "visiting (cpc (coll w)) = Some (a, y)" using Some by (cases v) auto
    show ?thesis
    proof (cases "y = p")
      case True
      then show ?thesis using d c v due_pre_read [OF i p(1,2)] due_clear_read [OF i p(1,2)] due_recheck [OF i p(1,2)]
          due_clear_weak [OF i p(1)]
        by (cases "cpc (coll w)") auto
    next
      case False
      have "counters (the (heap w' p)) = counters ob \<and> counters_ptr (the (heap w' p)) = counters_ptr ob"
        using c v p(1) False by (cases "cpc (coll w)") (auto simp: collector_defs set_obj_def
          split: if_splits option.splits payload.splits sum.splits ClearWeakBackRefResult.splits prod.splits)
      moreover obtain ob' where "heap w' p = Some ob'" using p' by auto
      moreover have "queued w p (counters_ptr ob)" using d v False by (cases "cpc (coll w)") auto
      ultimately show ?thesis
        using due_other [OF i p(1) _ _ _ _ v refl False c] p(1) by (simp add: untagged_def)
    qed
  next
    case None
    show ?thesis
    proof (cases "cpc (coll w)")
      case (TakeNew k)
      then show ?thesis using due_take_new [OF i p(1)] d c by simp
    next
      case Visit
      then show ?thesis using due_visit [OF i p(1)] d c by simp
    next
      case Freeing
      then show ?thesis using due_free [OF i rest.reach_inv [OF w] p(1) p'] d c n by simp
    qed (use None d c p in \<open>auto simp: spin_scan_def spin_wait_def cgoto_def due_def split: if_splits list.splits
          intro!: queued_mono [where w = w]\<close>)
  qed
qed

section \<open>An iteration ends\<close>

text \<open>The limit of inner iterations is reached only by parking.\<close>

definition inv_loop :: "collector \<Rightarrow> bool" where
  "inv_loop c \<longleftrightarrow> cpc c = Parked \<or> (\<exists>i. cpc c = TakeNew i) \<or> loop_counter c < max_inner_iterations"

lemma collector_loop:
  assumes "inv_loop (coll w)" "collector_at (cpc (coll w)) w = Next w'"
  shows "inv_loop (coll w')"
proof (cases "visiting (cpc (coll w))")
  case (Some v)
  obtain a y where "visiting (cpc (coll w)) = Some (a, y)" using Some by (cases v) auto
  from scan_coll [OF this assms(2)] this have "loop_counter (coll w') = loop_counter (coll w) \<and> cpc (coll w) \<noteq> Parked \<and> (\<forall>i. cpc (coll w) \<noteq> TakeNew i)"
    by (auto simp: finish_visit_def) (metis collector.select_convs(5) collector.surjective collector.update_convs(3))
  then show ?thesis using assms(1) by (auto simp: inv_loop_def)
next
  case None
  then show ?thesis using assms
    by (cases "cpc (coll w)") (auto simp: inv_loop_def take_new_counters_to_track_def spin_scan_def spin_wait_def visit_def
        cgoto_def free_pointers_def drop_sdarc_inner_def start_pass_def end_pass_def goto_def set_thread_def Let_def max_inner_iterations_def
        split: if_splits option.splits payload.splits sum.splits list.splits TrackedCounterState.splits)
qed

lemma user_loop: "inv_loop (coll w) \<Longrightarrow> user_step t act w = Next w' \<Longrightarrow> inv_loop (coll w')"
  using user_coll(1) by (fastforce simp: inv_loop_def)

interpretation loop: invariant_system initial sys_step "\<lambda>w. inv_loop (coll w)"
proof unfold_locales
  show "inv_loop (coll w)" if "initial w" for w using that by (auto simp: initial_def inv_loop_def init_collector_def)
  show "inv_loop (coll w')" if "inv_loop (coll w)" "sys_step w w'" for w w'
    using that(2)
  proof cases
    case (1 e)
    show ?thesis
      by (rule uc_step_keeps [OF 1, where P = "\<lambda>w. inv_loop (coll w)", OF that(1) user_loop])
        (use collector_loop [OF that(1)] in \<open>auto simp: collector_step_def split: if_splits\<close>)
  qed
qed

text \<open>Passes still to come, the stage of the pass, the counters left in it, the accesses left in a visit and in a drop.\<close>

definition passes_left :: "collector \<Rightarrow> nat" where
  "passes_left c = (case cpc c of Parked \<Rightarrow> 0 | TakeNew i \<Rightarrow> max_inner_iterations + 2
     | _ \<Rightarrow> if first_pass c then max_inner_iterations + 1 else max_inner_iterations - loop_counter c)"

definition pass_stage :: "collector \<Rightarrow> nat" where
  "pass_stage c = (case cpc c of SpinScan i \<Rightarrow> 3 | SpinWait \<Rightarrow> 2 | Freeing \<Rightarrow> 0 | UserDrop \<Rightarrow> 0 | _ \<Rightarrow> 1)"

definition counters_left :: "nat \<Rightarrow> collector \<Rightarrow> nat" where
  "counters_left n c = (case cpc c of TakeNew i \<Rightarrow> n - i | SpinScan i \<Rightarrow> n - i | SpinWait \<Rightarrow> length (shards_to_spin c)
     | Visit \<Rightarrow> 2 * length (todo c) | Freeing \<Rightarrow> 2 * length (to_free c) | UserDrop \<Rightarrow> 2 * length (to_free c) + 1
     | _ \<Rightarrow> 2 * length (todo c) + 1)"

definition accesses_left :: "nat \<Rightarrow> collector \<Rightarrow> nat" where
  "accesses_left n c = (case cpc c of PreRead a p i acc \<Rightarrow> n - i + (n + 1) | ClearRead a p i acc \<Rightarrow> n - i
     | ReCheck a p i acc \<Rightarrow> n - i + 1 | _ \<Rightarrow> 0)"

definition drop_left :: "pc \<Rightarrow> nat" where
  "drop_left x = (case x of DropDec p \<Rightarrow> 2 | DropNotify p \<Rightarrow> 1 | _ \<Rightarrow> 0)"

definition iteration_ranks :: "(world \<Rightarrow> nat) list" where
  "iteration_ranks = [\<lambda>w. passes_left (coll w), \<lambda>w. pass_stage (coll w), \<lambda>w. counters_left (shards w) (coll w),
     \<lambda>w. accesses_left (shards w) (coll w), \<lambda>w. drop_left (pc (threads w ! 0))]"

lemmas rank_defs = passes_left_def pass_stage_def counters_left_def accesses_left_def drop_left_def

lemma collector_shards: "collector_at x w = Next w' \<Longrightarrow> shards w' = shards w \<and> critical w' = critical w"
  by (cases x) (auto simp: collector_defs set_obj_def free_pointers_def drop_sdarc_inner_def goto_def set_thread_def Let_def
      split: if_splits option.splits payload.splits sum.splits list.splits TrackedCounterState.splits
        ClearWeakBackRefResult.splits prod.splits)

text \<open>Each step of the collector makes the ranks smaller: first the accesses of a visit.\<close>

lemma scan_ranks:
  assumes st: "collector_at (cpc (coll w)) w = Next w'" and v: "visiting (cpc (coll w)) \<noteq> None"
  shows "(w', w) \<in> measures iteration_ranks"
proof -
  have sh: "shards w' = shards w" using collector_shards [OF st] by simp
  show ?thesis
  proof (cases "cpc (coll w)")
    case (ClearWeak a y)
    then have "cpc (coll w') = Visit"
      using st by (auto simp: clear_weak_back_ref_def finish_visit_def split: sum.splits ClearWeakBackRefResult.splits prod.splits)
    with scan_coll [of "ClearWeak a y" a y w w'] ClearWeak st obtain r where "coll w' = finish_visit a y r (coll w)" by auto
    then show ?thesis using sh ClearWeak by (simp add: iteration_ranks_def rank_defs finish_visit_def)
  next
    case (PreRead a y k acc)
    then have "(\<exists>v. k < shards w \<and> coll w' = (coll w)\<lparr>cpc := PreRead a y (Suc k) v\<rparr>)
        \<or> coll w' = (coll w)\<lparr>cpc := ClearRead a y 0 0\<rparr> \<or> coll w' = finish_visit a y DefaultState (coll w)"
      using st by (auto simp: read_ref_count_sum_relaxed_def at_slot_def cgoto_def split: if_splits option.splits)
    then show ?thesis using PreRead by (elim disjE exE conjE) (auto simp: iteration_ranks_def rank_defs finish_visit_def sh)
  next
    case (ClearRead a y k acc)
    then have "(\<exists>v. k < shards w \<and> coll w' = (coll w)\<lparr>cpc := ClearRead a y (Suc k) v\<rparr>)
        \<or> (\<exists>r. coll w' = finish_visit a y r (coll w))"
      using st by (auto simp: clear_tags_and_read_ref_count_sum_relaxed_def at_slot_def cgoto_def set_obj_def
          split: if_splits option.splits)
    then show ?thesis using ClearRead by (elim disjE exE conjE) (auto simp: iteration_ranks_def rank_defs finish_visit_def sh)
  next
    case (ReCheck a y k acc)
    then have "(\<exists>v. k < shards w \<and> coll w' = (coll w)\<lparr>cpc := ReCheck a y (Suc k) v\<rparr>)
        \<or> coll w' = (coll w)\<lparr>cpc := ClearWeak a y\<rparr> \<or> coll w' = finish_visit a y DefaultState (coll w)"
      using st by (auto simp: read_ref_count_sum_if_all_tags_unset_acquire_def at_slot_def cgoto_def
          split: if_splits option.splits)
    then show ?thesis using ReCheck by (elim disjE exE conjE) (auto simp: iteration_ranks_def rank_defs finish_visit_def sh)
  qed (use v in simp_all)
qed

lemma free_ranks:
  assumes i: "inv_loop (coll w)" and st: "free_pointers w = Next w'" and Freeing: "cpc (coll w) = Freeing"
  shows "(w', w) \<in> measures iteration_ranks"
proof (cases "to_free (coll w)")
  case Nil
  with Freeing st have c: "coll w' = end_pass (coll w)" by (auto simp: free_pointers_def)
  have "passes_left (coll w') < passes_left (coll w)"
    using Freeing i unfolding c by (auto simp: passes_left_def end_pass_def start_pass_def Let_def inv_loop_def)
  then show ?thesis by (simp add: iteration_ranks_def)
next
  case (Cons a fs)
  with Freeing st have "coll w' = (coll w)\<lparr>to_free := fs,
      tracked_counters := map_remove a (tracked_counters (coll w)), cpc := UserDrop\<rparr>"
    by (auto simp: free_pointers_def drop_sdarc_inner_def Let_def cgoto_def goto_def set_thread_def
        split: option.splits if_splits payload.splits)
  then show ?thesis using Freeing Cons by (simp add: iteration_ranks_def rank_defs)
qed

lemma collector_ranks:
  assumes i: "inv_loop (coll w)" "inv_pass (shards w) (coll w)" and st: "collector_at (cpc (coll w)) w = Next w'"
    and g: "cpc (coll w) \<noteq> Parked" and cr: "\<forall>s < shards w. critical w ! s = 0"
  shows "(w', w) \<in> measures iteration_ranks"
proof (cases "visiting (cpc (coll w))")
  case None
  then show ?thesis
  proof (cases "cpc (coll w)")
    case SpinWait
    have "set (shards_to_spin (coll w)) \<subseteq> {..<shards w}" using i(2) by (simp add: inv_pass_def)
    with SpinWait st cr show ?thesis
      by (cases "shards_to_spin (coll w)") (auto simp: iteration_ranks_def rank_defs spin_wait_def cgoto_def)
  next
    case Freeing
    then show ?thesis using free_ranks [OF i(1)] st by simp
  next
    case (TakeNew k)
    then show ?thesis using st
      by (auto simp: iteration_ranks_def rank_defs take_new_counters_to_track_def start_pass_def split: if_splits sum.splits)
  next
    case (SpinScan k)
    then show ?thesis using st
      by (auto simp: iteration_ranks_def rank_defs spin_scan_def cgoto_def split: if_splits)
  next
    case Visit
    then show ?thesis using st
      by (auto simp: iteration_ranks_def rank_defs visit_def cgoto_def split: option.splits list.splits TrackedCounterState.splits)
  next
    case UserDrop
    then show ?thesis using st by (auto simp: iteration_ranks_def rank_defs cgoto_def)
  qed (use g in simp_all)
qed (use scan_ranks [OF st] in simp)

text \<open>No reader is inside, and the collector thread runs no code but its own.\<close>

definition own_code :: "world \<Rightarrow> bool" where
  "own_code w \<longleftrightarrow> pc (threads w ! 0) = Idle
     \<or> (cpc (coll w) = UserDrop \<and> (\<exists>q. pc (threads w ! 0) = DropDec q \<or> pc (threads w ! 0) = DropNotify q))"

definition unhindered :: "world \<Rightarrow> bool" where
  "unhindered w \<longleftrightarrow> reachable w \<and> notify_alive w \<and> (\<forall>s < shards w. critical w ! s = 0) \<and> own_code w"

definition at_rest :: "world \<Rightarrow> bool" where
  "at_rest w \<longleftrightarrow> cpc (coll w) = Parked \<and> pc (threads w ! 0) = Idle"

lemma collector_own_code:
  assumes "collector_step w = Next w'"
  shows "own_code w'"
proof -
  have c: "collector_at (cpc (coll w)) w = Next w'" and idle: "pc (threads w ! 0) = Idle"
    using assms by (auto simp: collector_step_def split: if_splits)
  have "cpc (coll w') = UserDrop" if "pc (threads w' ! 0) \<noteq> Idle"
    using c idle that by (cases "cpc (coll w)") (auto simp: collector_defs set_obj_def free_pointers_def drop_sdarc_inner_def
      goto_def set_thread_def Let_def
      split: if_splits option.splits payload.splits sum.splits list.splits TrackedCounterState.splits
        ClearWeakBackRefResult.splits prod.splits)
  then show ?thesis using collector_thread0 [OF assms] by (auto simp: own_code_def)
qed

lemma drop_advances:
  assumes "cpc (coll w) = UserDrop" "pc (threads w ! 0) = DropDec q \<or> pc (threads w ! 0) = DropNotify q" "0 < length (threads w)"
    and "alone_step w = Next w'"
  shows "own_code w' \<and> critical w' = critical w \<and> shards w' = shards w \<and> (w', w) \<in> measures iteration_ranks"
proof -
  have "\<exists>xs. coll w' = (coll w)\<lparr>counters_to_recheck := xs\<rparr>"
    using user_coll(1) [of 0 Continue w w'] assms(2,4) by (auto simp: alone_step_def)
  then obtain xs where c: "coll w' = (coll w)\<lparr>counters_to_recheck := xs\<rparr>" by blast
  have "critical w' = critical w \<and> shards w' = shards w \<and> ((\<exists>q. pc (threads w ! 0) = DropDec q) \<and> pc (threads w' ! 0) = DropNotify q
      \<or> (\<exists>q. pc (threads w ! 0) = DropNotify q) \<and> pc (threads w' ! 0) = Idle)"
    using assms by (auto simp: alone_step_def user_step_def Sdarc_drop_decrement_def Sdarc_drop_notify_def modify_counter_Next
        world_ops split: option.splits)
  then show ?thesis using assms(1) by (auto simp: own_code_def iteration_ranks_def rank_defs c)
qed

lemma alone_advances:
  assumes u: "unhindered w" and g: "\<not> at_rest w"
  shows "\<exists>w'. alone w w' \<and> unhindered w' \<and> (w', w) \<in> measures iteration_ranks"
proof -
  have r: "reachable w" and na: "notify_alive w" and cr: "\<forall>s < shards w. critical w ! s = 0" and o: "own_code w"
    using u by (simp_all add: unhindered_def)
  have ne: "0 < length (threads w)" using invD(1) [OF reachable_inv [OF r]] by (simp add: inv_shape_def)
  have "\<exists>w'. alone_step w = Next w'"
  proof (cases "pc (threads w ! 0) = Idle")
    case True
    then show ?thesis using collector_step_ok [OF sys.reach_inv [OF r]] by (auto simp: alone_step_def)
  next
    case False
    then have "alone_step w \<noteq> Disabled" using o ne
      by (auto simp: own_code_def alone_step_def user_step_def Sdarc_drop_decrement_def Sdarc_drop_notify_def
          modify_counter_def split: option.splits)
    then show ?thesis using alone_no_fault [OF r na] by (cases "alone_step w") auto
  qed
  then obtain w' where w': "alone_step w = Next w'" by blast
  then have a: "alone w w'" by (rule aloneI)
  have "own_code w' \<and> critical w' = critical w \<and> shards w' = shards w \<and> (w', w) \<in> measures iteration_ranks"
  proof (cases "pc (threads w ! 0) = Idle")
    case True
    with w' have c: "collector_step w = Next w'" "collector_at (cpc (coll w)) w = Next w'"
      by (simp_all add: alone_step_def collector_step_def)
    have "(w', w) \<in> measures iteration_ranks"
      using collector_ranks [OF loop.reach_inv [OF r] invD(9) [OF reachable_inv [OF r]] c(2) _ cr] g True by (simp add: at_rest_def)
    then show ?thesis using collector_own_code [OF c(1)] collector_shards [OF c(2)] by simp
  next
    case False
    then show ?thesis using o drop_advances [OF _ _ ne w'] by (auto simp: own_code_def)
  qed
  then show ?thesis using a alone_reachable [OF r a] alone_notify [OF a] cr by (auto simp: unhindered_def)
qed

inductive busy :: "world \<Rightarrow> world \<Rightarrow> bool" where
  "alone w w' \<Longrightarrow> \<not> at_rest w \<Longrightarrow> busy w w'"

interpretation iteration: ranked_system busy unhindered at_rest iteration_ranks
  by unfold_locales (meson alone_advances busy.intros)

text \<open>The start of an iteration.\<close>

lemma due_start:
  assumes w: "reachable w" "cpc (coll w) = Parked" "loop_counter (coll w) \<noteq> max_inner_iterations" and p: "heap w p = Some ob"
  shows "due (cgoto (TakeNew 0) w) p"
proof -
  note tr = invD(8) [OF reachable_inv [OF w(1)]]
  have "(p, counters_ptr ob) \<in> set (concat (pending_to_track w))
     \<or> (\<exists>tc. map_of (tracked_counters (coll w)) (counters_ptr ob) = Some tc \<and> fat_ptr tc = p)"
    using inv_trackD(6) [OF tr, of p "counters_ptr ob"] meta_SomeI [of "heap w" p ob, OF p] by blast
  then have "due_at (TakeNew 0) w p ob"
    using parked_default(1) [OF w] by (fastforce simp: in_set_conv_nth)
  then show ?thesis using p by (simp add: due_def cgoto_def)
qed

end
