(* ===== verification/Env_Params.thy ===== *)
theory Env_Params
  imports Sdarc_Prelude
begin

text \<open>
  The configuration of \<^verbatim>\<open>src/src/env_params.rs\<close>: the collector's interval and the shard count, read
  from environment variables. The environment is an argument, a function from names to the value
  \<open>env::var\<close> returns (\<open>None\<close> when it returns an error). Strings are byte lists. \<open>str::parse\<close> for
  unsigned integers is modelled from the standard library: an optional plus sign, at least one
  digit, the first offending position decides the error.
\<close>

section \<open>Parsing unsigned integers\<close>

type_synonym u64 = "64 word"
type_synonym usize = "64 word"

datatype IntErrorKind = EmptyStr | InvalidDigit | PosOverflow

definition to_digit :: "char \<Rightarrow> nat option" where
  "to_digit c = (let n = of_char c in if 48 \<le> n \<and> n \<le> 57 then Some (n - 48) else None)"

fun parse_digits :: "u64 \<Rightarrow> string \<Rightarrow> IntErrorKind + u64" where
  "parse_digits acc [] = Inr acc"
| "parse_digits acc (c # cs) =
     (case to_digit c of
        None \<Rightarrow> Inl InvalidDigit
      | Some d \<Rightarrow>
          (if 2 ^ 64 \<le> unat acc * 10 \<or> 2 ^ 64 \<le> unat acc * 10 + d then Inl PosOverflow
           else parse_digits (acc * 10 + of_nat d) cs))"

definition parse_u64 :: "string \<Rightarrow> IntErrorKind + u64" where
  "parse_u64 s =
     (if s = [] then Inl EmptyStr
      else if s = ''+'' \<or> s = ''-'' then Inl InvalidDigit
      else if hd s = CHR ''+'' then parse_digits 0 (tl s)
      else parse_digits 0 s)"

section \<open>Parameters\<close>

record Duration =
  secs :: u64
  nanos :: "32 word"

definition from_millis :: "u64 \<Rightarrow> Duration" where
  "from_millis ms = \<lparr>secs = ms div 1000, nanos = ucast (ms mod 1000) * 1000000\<rparr>"

record CollectorParams =
  interval :: Duration

definition ENV_COLLECTOR_INTERVAL_MS :: string where
  "ENV_COLLECTOR_INTERVAL_MS = ''RUST_SDARC_COLLECTOR_INTERVAL_MS''"

definition ENV_SHARD_COUNT :: string where
  "ENV_SHARD_COUNT = ''RUST_SDARC_SHARD_COUNT''"

definition DEFAULT_COLLECTOR_INTERVAL :: Duration where
  "DEFAULT_COLLECTOR_INTERVAL = from_millis 200"

definition CollectorParams_new_from_env_var :: "(string \<Rightarrow> string option) \<Rightarrow> CollectorParams result" where
  "CollectorParams_new_from_env_var env =
     (case env ENV_COLLECTOR_INTERVAL_MS of
        Some s \<Rightarrow> (case parse_u64 s of
                    Inr num \<Rightarrow> Inr \<lparr>interval = from_millis num\<rparr>
                  | Inl err \<Rightarrow> Inl EnvVarUnparsable)
      | None \<Rightarrow> Inr \<lparr>interval = DEFAULT_COLLECTOR_INTERVAL\<rparr>)"

datatype ShardCount = ShardCount "16 word"

definition MAX_SHARD_COUNT :: usize where
  "MAX_SHARD_COUNT = 256"

definition shard_count_from_env_var :: "(string \<Rightarrow> string option) \<Rightarrow> ShardCount option result" where
  "shard_count_from_env_var env =
     (case env ENV_SHARD_COUNT of
        Some s \<Rightarrow> (case parse_u64 s of
                    Inr num \<Rightarrow> (if MAX_SHARD_COUNT < num then Inl ShardCountTooLarge
                                else Inr (Some (ShardCount (ucast num))))
                  | Inl err \<Rightarrow> Inl EnvVarUnparsable)
      | None \<Rightarrow> Inr None)"

section \<open>Decimal notation\<close>

text \<open>The decimal digits of a number, most significant first: what a user writes into the variable.\<close>

fun decimal :: "nat \<Rightarrow> string" where
  "decimal n = (if n < 10 then [char_of (48 + n)] else decimal (n div 10) @ [char_of (48 + n mod 10)])"

declare decimal.simps [simp del]

lemma to_digit_char [simp]: "d < 10 \<Longrightarrow> to_digit (char_of (48 + d)) = Some d"
  by (simp add: to_digit_def Let_def of_char_of)

lemma parse_digits_snoc:
  "parse_digits acc (xs @ [c]) =
     (case parse_digits acc xs of Inl e \<Rightarrow> Inl e | Inr v \<Rightarrow> parse_digits v [c])"
  by (induction acc xs rule: parse_digits.induct) (auto split: option.split)

lemma parse_digits_decimal:
  "parse_digits 0 (decimal n) = (if n < 2 ^ 64 then Inr (of_nat n) else Inl PosOverflow)"
proof (induction n rule: decimal.induct)
  case (1 n)
  show ?case
  proof (cases "n < 10")
    case True
    then show ?thesis by (simp add: decimal.simps [of n])
  next
    case False
    have ih: "parse_digits 0 (decimal (n div 10)) =
        (if n div 10 < 2 ^ 64 then Inr (of_nat (n div 10)) else Inl PosOverflow)"
      by (rule "1.IH" [OF False])
    have dec: "decimal n = decimal (n div 10) @ [char_of (48 + n mod 10)]"
      using False by (simp add: decimal.simps [of n])
    have n: "n div 10 * 10 + n mod 10 = n" by simp
    have recomb: "of_nat (n div 10) * 10 + of_nat (n mod 10) = (of_nat n :: u64)"
      by (metis n of_nat_add of_nat_mult of_nat_numeral)
    show ?thesis
    proof (cases "n div 10 < 2 ^ 64")
      case True
      then have u: "unat (of_nat (n div 10) :: u64) = n div 10" by (simp add: unsigned_of_nat take_bit_nat_eq_self)
      show ?thesis
        unfolding dec parse_digits_snoc ih using True n recomb
        by (auto simp: u)
    next
      case False
      then have "\<not> n < 2 ^ 64" by auto
      with False show ?thesis unfolding dec parse_digits_snoc ih by simp
    qed
  qed
qed

lemma decimal_digits: "c \<in> set (decimal n) \<Longrightarrow> to_digit c \<noteq> None"
  by (induction n rule: decimal.induct) (subst (asm) decimal.simps, auto split: if_splits)

lemma decimal_nonempty: "decimal n \<noteq> []"
  by (subst decimal.simps) simp

lemma parse_decimal: "parse_u64 (decimal n) = (if n < 2 ^ 64 then Inr (of_nat n) else Inl PosOverflow)"
proof -
  have "hd (decimal n) \<noteq> CHR ''+''" "decimal n \<noteq> ''+''" "decimal n \<noteq> ''-''"
    using decimal_digits [of "hd (decimal n)" n] decimal_digits [of "CHR ''+''" n] decimal_digits [of "CHR ''-''" n]
      hd_in_set [OF decimal_nonempty [of n]]
    by (auto simp: to_digit_def)
  then show ?thesis using decimal_nonempty [of n] by (simp add: parse_u64_def parse_digits_decimal)
qed

section \<open>Properties\<close>

text \<open>
  C39: the shard count that a user asks for is taken exactly. With the environment variable set to
  the decimal notation of \<open>n\<close>: up to 256 the count is \<open>n\<close> (the cast to 16 bits loses nothing), above
  that the program panics with the message that the count is too large, or, when \<open>n\<close> does not fit
  64 bits, that it cannot be parsed. Without the variable there is no override.
\<close>

theorem shard_count_from_env_exact:
  "shard_count_from_env_var (\<lambda>v. if v = ENV_SHARD_COUNT then Some (decimal n) else None) =
     (if n \<le> 256 then Inr (Some (ShardCount (of_nat n)))
      else if n < 2 ^ 64 then Inl ShardCountTooLarge else Inl EnvVarUnparsable)
   \<and> shard_count_from_env_var (\<lambda>_. None) = Inr None"
proof -
  have "(MAX_SHARD_COUNT < of_nat n) \<longleftrightarrow> 256 < n" if "n < 2 ^ 64"
    using that by (simp add: MAX_SHARD_COUNT_def word_less_nat_alt unsigned_of_nat take_bit_nat_eq_self)
  moreover have "(ucast (of_nat n :: usize) :: 16 word) = of_nat n" if "n \<le> 256"
    using that by (simp add: word_eq_iff_unsigned unsigned_of_nat take_bit_nat_eq_self)
  ultimately show ?thesis by (auto simp: shard_count_from_env_var_def parse_decimal)
qed

end
