(* ===== verification/Collector_Status.thy ===== *)
theory Collector_Status
  imports Env_Params
begin

text \<open>
  The outer loop of the collector thread and the callers that wait for it, from
  \<^verbatim>\<open>src/src/collector.rs\<close>: \<open>CollectorState\<close> and its order, \<open>collector_thread_main\<close>,
  \<open>collector_update_now\<close> and \<open>collector_update_now_and_wait\<close>. What one iteration does to the objects
  is the subject of the theories on the collector; here it is one step.

  The status is protected by a mutex, so each critical section is one step. Waiting on the condition
  variable releases the mutex; a waiter may wake at any time and looks at the status again.
  Iteration counters have 64 bits. They start at 0 and grow by one per iteration; the loop is
  modelled up to \<open>2^62\<close> iterations, more than can happen, so that \<open>* 2 + 1\<close> does not wrap.
\<close>

section \<open>The state and its order\<close>

datatype CollectorState = Waiting u64 | Running u64

fun to_serial_number :: "CollectorState \<Rightarrow> u64" where
  "to_serial_number (Running k) = k * 2"
| "to_serial_number (Waiting k) = k * 2 + 1"

fun after_at_least_one_full_collection :: "CollectorState \<Rightarrow> CollectorState" where
  "after_at_least_one_full_collection (Waiting k) = Waiting (k + 1)"
| "after_at_least_one_full_collection (Running k) = Waiting (k + 1)"

text \<open>
  \<open>CollectorState::cmp\<close> compares serial numbers, and \<open><\<close> and \<open>\<le>\<close> are derived from it. Serial numbers of
  64 bits wrap, so the order is a total preorder and not antisymmetric on all states.
\<close>

datatype Ordering = Less | Equal | Greater

definition CollectorState_cmp :: "CollectorState \<Rightarrow> CollectorState \<Rightarrow> Ordering" where
  "CollectorState_cmp a b =
     (if to_serial_number a < to_serial_number b then Less
      else if to_serial_number a = to_serial_number b then Equal else Greater)"

instantiation CollectorState :: preorder
begin

definition less_eq_CollectorState :: "CollectorState \<Rightarrow> CollectorState \<Rightarrow> bool" where
  "less_eq_CollectorState a b \<longleftrightarrow> CollectorState_cmp a b \<noteq> Greater"

definition less_CollectorState :: "CollectorState \<Rightarrow> CollectorState \<Rightarrow> bool" where
  "less_CollectorState a b \<longleftrightarrow> CollectorState_cmp a b = Less"

instance
  by standard (auto simp: less_eq_CollectorState_def less_CollectorState_def CollectorState_cmp_def
      split: if_splits)

end

lemma CollectorState_less_iff [simp]:
  "a < b \<longleftrightarrow> to_serial_number a < to_serial_number b" for a b :: CollectorState
  by (simp add: less_CollectorState_def CollectorState_cmp_def)

section \<open>The loop and its waiters\<close>

datatype phase = LoopHead | Updating | Parking

text \<open>
  A caller of \<open>collector_update_now_and_wait\<close>: the state it waits for, and how many iterations had
  been started when it read the status (recorded for the statement, the code does not keep it).
\<close>

datatype waiter = Outside | Waits CollectorState nat | Returned nat

record status_world =
  status :: CollectorState
  outer_iteration_counter :: u64
  phase :: phase
  park_token :: bool
  waiters :: "waiter list"

text \<open>One step of \<open>collector_thread_main\<close>: start an iteration, finish it, return from \<open>park_timeout\<close>.\<close>

definition loop_step :: "status_world \<Rightarrow> status_world" where
  "loop_step w = (case phase w of
      LoopHead \<Rightarrow> w\<lparr>outer_iteration_counter := outer_iteration_counter w + 1,
                   status := Running (outer_iteration_counter w + 1), phase := Updating\<rparr>
    | Updating \<Rightarrow> w\<lparr>status := Waiting (outer_iteration_counter w), phase := Parking\<rparr>
    | Parking \<Rightarrow> w\<lparr>park_token := False, phase := LoopHead\<rparr>)"

definition collector_update_now :: "status_world \<Rightarrow> status_world" where
  "collector_update_now w = w\<lparr>park_token := True\<rparr>"

definition wait_begin :: "nat \<Rightarrow> status_world \<Rightarrow> status_world" where
  "wait_begin i w =
     (let w' = collector_update_now w
      in w'\<lparr>waiters := (waiters w')[i := Waits (after_at_least_one_full_collection (status w'))
              (unat (outer_iteration_counter w'))]\<rparr>)"

text \<open>The condition of \<open>wait_while\<close>, evaluated under the mutex: go on waiting, or return.\<close>

definition wait_check :: "nat \<Rightarrow> status_world \<Rightarrow> status_world" where
  "wait_check i w = (case waiters w ! i of
      Waits target n \<Rightarrow> if status w < target then w else w\<lparr>waiters := (waiters w)[i := Returned n]\<rparr>
    | _ \<Rightarrow> w)"

inductive status_step :: "status_world \<Rightarrow> status_world \<Rightarrow> bool" where
  loop: "unat (outer_iteration_counter w) < 2 ^ 62 \<Longrightarrow> status_step w (loop_step w)"
| unpark: "status_step w (collector_update_now w)"
| begin_wait: "i < length (waiters w) \<Longrightarrow> waiters w ! i = Outside \<Longrightarrow> status_step w (wait_begin i w)"
| check: "i < length (waiters w) \<Longrightarrow> status_step w (wait_check i w)"

definition status_init :: "nat \<Rightarrow> status_world \<Rightarrow> bool" where
  "status_init n w \<longleftrightarrow> w = \<lparr>status = Waiting 0, outer_iteration_counter = 0, phase = LoopHead,
     park_token = False, waiters = replicate n Outside\<rparr>"

text \<open>Iterations that have finished.\<close>

fun finished :: "CollectorState \<Rightarrow> nat" where
  "finished (Waiting k) = unat k"
| "finished (Running k) = unat k - 1"

section \<open>Invariant\<close>

definition status_ok :: "status_world \<Rightarrow> bool" where
  "status_ok w \<longleftrightarrow> unat (outer_iteration_counter w) \<le> 2 ^ 62
   \<and> (phase w = Updating \<longrightarrow> 0 < unat (outer_iteration_counter w))
   \<and> status w = (if phase w = Updating then Running (outer_iteration_counter w)
                else Waiting (outer_iteration_counter w))"

definition waiter_ok :: "status_world \<Rightarrow> waiter \<Rightarrow> bool" where
  "waiter_ok w x = (case x of
      Outside \<Rightarrow> True
    | Waits target n \<Rightarrow> target = Waiting (of_nat n + 1) \<and> n \<le> unat (outer_iteration_counter w)
    | Returned n \<Rightarrow> n < finished (status w))"

definition status_inv :: "status_world \<Rightarrow> bool" where
  "status_inv w \<longleftrightarrow> status_ok w \<and> (\<forall>x \<in> set (waiters w). waiter_ok w x)"

lemma unat_add_1: "unat (k :: u64) < 2 ^ 63 \<Longrightarrow> unat (k + 1) = unat k + 1"
  by (simp add: unat_word_ariths)

lemma unat_serial:
  "unat k \<le> 2 ^ 62 \<Longrightarrow> unat (k * 2 :: u64) = 2 * unat k"
  "unat k \<le> 2 ^ 62 \<Longrightarrow> unat (k * 2 + 1 :: u64) = 2 * unat k + 1"
  by (simp_all add: unat_word_ariths)

lemma reached_target:
  assumes "status_ok w" "n \<le> unat (outer_iteration_counter w)"
  shows "\<not> status w < Waiting (of_nat n + 1) \<longleftrightarrow> n < finished (status w)"
proof -
  let ?k = "outer_iteration_counter w"
  have k: "unat ?k \<le> 2 ^ 62" using assms(1) by (simp add: status_ok_def)
  then have "n \<le> 2 ^ 62" using assms(2) by simp
  then have n: "unat (of_nat n :: u64) = n" by (simp add: unsigned_of_nat take_bit_nat_eq_self)
  then have n1: "unat (of_nat n + 1 :: u64) = n + 1"
    using unat_add_1 [of "of_nat n"] \<open>n \<le> 2 ^ 62\<close> by simp
  have t: "unat ((of_nat n + 1) * 2 + 1 :: u64) = 2 * n + 3"
    using n \<open>n \<le> 2 ^ 62\<close> by (simp add: unat_word_ariths)
  show ?thesis
  proof (cases "phase w = Updating")
    case True
    then have s: "status w = Running ?k" "0 < unat ?k" using assms(1) by (simp_all add: status_ok_def)
    then show ?thesis
      using unat_serial(1) [OF k] t by (auto simp: word_less_nat_alt)
  next
    case False
    then have s: "status w = Waiting ?k" using assms(1) by (simp add: status_ok_def)
    then show ?thesis
      using unat_serial(2) [OF k] t by (auto simp: word_less_nat_alt)
  qed
qed

lemma finished_mono:
  "status_ok w \<Longrightarrow> unat (outer_iteration_counter w) < 2 ^ 62 \<Longrightarrow> finished (status w) \<le> finished (status (loop_step w))"
  by (auto simp: status_ok_def loop_step_def unat_add_1 split: phase.split)

lemma loop_ok:
  "status_ok w \<Longrightarrow> unat (outer_iteration_counter w) < 2 ^ 62 \<Longrightarrow> status_ok (loop_step w)"
  by (auto simp: status_ok_def loop_step_def unat_add_1 split: phase.split)

lemma loop_counter_mono:
  "unat (outer_iteration_counter w) < 2 ^ 62 \<Longrightarrow>
     unat (outer_iteration_counter w) \<le> unat (outer_iteration_counter (loop_step w))"
  by (auto simp: loop_step_def unat_add_1 split: phase.split)

lemma waiter_ok_cong:
  "outer_iteration_counter w' = outer_iteration_counter w \<Longrightarrow> status w' = status w \<Longrightarrow> waiter_ok w' = waiter_ok w"
  by (rule ext) (simp add: waiter_ok_def split: waiter.split)

lemma status_ok_cong:
  "outer_iteration_counter w' = outer_iteration_counter w \<Longrightarrow> status w' = status w \<Longrightarrow> phase w' = phase w \<Longrightarrow>
     status_ok w' = status_ok w"
  by (simp add: status_ok_def)

lemma status_step_inv:
  assumes "status_inv w" "status_step w w'"
  shows "status_inv w'"
  using assms(2)
proof cases
  case loop
  have ok: "status_ok w" and ws: "\<And>x. x \<in> set (waiters w) \<Longrightarrow> waiter_ok w x"
    using assms(1) by (auto simp: status_inv_def)
  have "waiter_ok w' x" if "waiter_ok w x" for x
    using that finished_mono [OF ok loop(2)] loop_counter_mono [OF loop(2)]
    unfolding waiter_ok_def loop(1) by (auto split: waiter.splits)
  moreover have "waiters w' = waiters w" by (simp add: loop(1) loop_step_def split: phase.split)
  ultimately show ?thesis using loop_ok [OF ok loop(2)] ws by (auto simp: status_inv_def loop(1))
next
  case unpark
  then show ?thesis using assms(1) waiter_ok_cong [of w' w] status_ok_cong [of w' w]
    by (simp add: status_inv_def collector_update_now_def)
next
  case (begin_wait i)
  let ?x = "Waits (after_at_least_one_full_collection (status w)) (unat (outer_iteration_counter w))"
  have "status w = Running (outer_iteration_counter w) \<or> status w = Waiting (outer_iteration_counter w)"
    using assms(1) by (auto simp: status_inv_def status_ok_def)
  then have "waiter_ok w ?x" by (auto simp: waiter_ok_def)
  then show ?thesis
    using assms(1) set_update_subset_insert [of "waiters w" i ?x]
      waiter_ok_cong [of w' w] status_ok_cong [of w' w]
    by (auto simp: status_inv_def begin_wait(1) wait_begin_def Let_def collector_update_now_def)
next
  case (check i)
  show ?thesis
  proof (cases "waiters w ! i")
    case (Waits target n)
    have ok: "status_ok w" and wok: "waiter_ok w (Waits target n)"
      using assms(1) nth_mem [OF check(2)] Waits by (auto simp: status_inv_def)
    then have "waiter_ok w (Returned n)" if "\<not> status w < target"
      using that reached_target [OF ok, of n] by (simp add: waiter_ok_def)
    then show ?thesis
      using assms(1) Waits set_update_subset_insert [of "waiters w" i "Returned n"]
        waiter_ok_cong [of w' w] status_ok_cong [of w' w]
      by (auto simp: status_inv_def check(1) wait_check_def)
  qed (use assms(1) in \<open>simp_all add: check(1) wait_check_def\<close>)
qed

interpretation status_sys: invariant_system "status_init n" status_step status_inv
proof unfold_locales
  show "status_inv w" if "status_init n w" for w
    using that by (auto simp: status_init_def status_inv_def status_ok_def waiter_ok_def)
qed (rule status_step_inv)

section \<open>Properties\<close>

text \<open>A caller that starts to wait in the middle of the first iteration, and returns after the second.\<close>

definition waited :: status_world where
  "waited = wait_check 0 ((loop_step ^^ 4) (wait_begin 0 (loop_step
     \<lparr>status = Waiting 0, outer_iteration_counter = 0, phase = LoopHead, park_token = False, waiters = [Outside]\<rparr>)))"

lemma funpow_4: "(f ^^ 4) x = f (f (f (f x)))"
  by (simp add: eval_nat_numeral)

lemma waited_value:
  "waited = \<lparr>status = Waiting 2, outer_iteration_counter = 2, phase = Parking, park_token = False,
     waiters = [Returned 1]\<rparr>"
  by (simp add: waited_def wait_check_def wait_begin_def loop_step_def collector_update_now_def Let_def
      funpow_4)

lemma loop_steps:
  assumes "reach (status_init n) status_step w" "unat (outer_iteration_counter w) + k < 2 ^ 62"
  shows "reach (status_init n) status_step ((loop_step ^^ k) w)
     \<and> unat (outer_iteration_counter ((loop_step ^^ k) w)) \<le> unat (outer_iteration_counter w) + k"
  using assms(2)
proof (induction k)
  case (Suc k)
  let ?v = "(loop_step ^^ k) w"
  have ih: "reach (status_init n) status_step ?v" "unat (outer_iteration_counter ?v) < 2 ^ 62"
    "unat (outer_iteration_counter ?v) \<le> unat (outer_iteration_counter w) + k" using Suc by auto
  have "reach (status_init n) status_step (loop_step ?v)"
    by (rule reach_step [OF ih(1) status_step.loop [OF ih(2)]])
  moreover have "unat (outer_iteration_counter (loop_step ?v)) \<le> unat (outer_iteration_counter ?v) + 1"
    using ih(2) by (simp add: loop_step_def unat_add_1 split: phase.split)
  ultimately show ?case using ih(3) by simp
qed (use assms(1) in simp)

lemma waited_reach: "reach (status_init 1) status_step waited"
proof -
  let ?w0 = "\<lparr>status = Waiting 0, outer_iteration_counter = 0, phase = LoopHead, park_token = False, waiters = [Outside]\<rparr>"
  let ?w1 = "wait_begin 0 (loop_step ?w0)"
  have "reach (status_init 1) status_step ?w0" by (rule reach_init) (simp add: status_init_def)
  from reach_step [OF this status_step.loop] have "reach (status_init 1) status_step (loop_step ?w0)" by simp
  from reach_step [OF this status_step.begin_wait, of 0] have "reach (status_init 1) status_step ?w1"
    by (simp add: loop_step_def)
  moreover have "unat (outer_iteration_counter ?w1) + 4 < 2 ^ 62"
    by (simp add: loop_step_def wait_begin_def collector_update_now_def Let_def)
  ultimately have "reach (status_init 1) status_step ((loop_step ^^ 4) ?w1)" using loop_steps by blast
  from reach_step [OF this status_step.check, of 0] show ?thesis unfolding waited_def
    by (simp add: funpow_4 loop_step_def wait_begin_def collector_update_now_def Let_def)
qed

text \<open>
  C17: \<open>collector_update_now_and_wait\<close> returns only after a full collection. If \<open>n\<close> iterations had
  been started when a caller read the status, then when it returns the iteration \<open>n + 1\<close>, which
  started after that, has finished: an object that became unreferenced before the call has been
  through a whole iteration. This holds in every interleaving of callers and collector, and also if
  a waiter wakes up spuriously.
\<close>

theorem wait_returns_after_full_collection:
  assumes "reach (status_init m) status_step w" "i < length (waiters w)" "waiters w ! i = Returned n"
  shows "n + 1 \<le> finished (status w)"
  using status_sys.reach_inv [OF assms(1)] nth_mem [OF assms(2)] assms(3)
  by (fastforce simp: status_inv_def waiter_ok_def)

theorem wait_returns_after_full_collection_witness:
  "waiters waited ! 0 = Returned 1 \<and> 1 + 1 \<le> finished (status waited)"
  using wait_returns_after_full_collection [OF waited_reach, of 0 1] by (simp add: waited_value)

text \<open>
  The wait ends. Whatever the collector is doing when a caller starts to wait, after at most
  four steps of the collector's loop (the rest of the current iteration, the return from parking,
  which the call to \<open>unpark\<close> makes immediate, and one more iteration) the condition the caller waits
  for is true, so its next look at the status returns.
\<close>

lemma wait_ends:
  assumes "reach (status_init m) status_step w" and "i < length (waiters w)" "waiters w ! i = Outside"
  shows "\<exists>k \<le> 4. \<exists>n. waiters (wait_check i ((loop_step ^^ k) (wait_begin i w))) ! i = Returned n"
proof -
  have ok: "status_ok w" using status_sys.reach_inv [OF assms(1)] by (simp add: status_inv_def)
  note defs = wait_check_def wait_begin_def loop_step_def collector_update_now_def Let_def
    status_ok_def
  show ?thesis
  proof (cases "phase w")
    case LoopHead
    then show ?thesis using ok assms(2) by (intro exI [of _ "Suc (Suc 0)"]) (simp add: defs)
  next
    case Updating
    then show ?thesis using ok assms(2)
      by (intro exI [of _ "Suc (Suc (Suc (Suc 0)))"]) (simp add: defs)
  next
    case Parking
    then show ?thesis using ok assms(2) by (intro exI [of _ "Suc (Suc (Suc 0))"]) (simp add: defs)
  qed
qed

end
