(* ===== verification/Collector_Thread.thy ===== *)
theory Collector_Thread
  imports Collector_Progress Collector_Status
begin

text \<open>
  The collector thread as a whole, beside the user threads and the callers that wait for it: the loop of
  \<open>collector_thread_main\<close> with its status, whose iterations are the step-by-step updates of the object
  model. A state is a pair of the loop with its waiters and of the world of objects.
\<close>

section \<open>The process\<close>

type_synonym process = "status_world \<times> world"

text \<open>
  One step of \<open>collector_thread_main\<close>: the loop head sets the status and enters \<open>state.update()\<close>, which
  takes steps of its own until it returns (\<open>at_rest\<close>); then the status is set again and the waiters are
  notified, and the thread parks. A thread that was unparked before it parks, or whose interval is over,
  goes on.
\<close>

definition collector_thread_main :: "process \<Rightarrow> process option" where
  "collector_thread_main x = (case x of (s, w) \<Rightarrow>
     (case phase s of
        LoopHead \<Rightarrow> (case collector_step w of Next w' \<Rightarrow> Some (loop_step s, w') | _ \<Rightarrow> None)
      | Updating \<Rightarrow>
          if at_rest w then Some (loop_step s, w)
          else (case collector_step w of Next w' \<Rightarrow> Some (s, w') | _ \<Rightarrow> None)
      | Parking \<Rightarrow> Some (loop_step s, w)))"

text \<open>The interleavings of the whole program.\<close>

datatype process_event =
    CollectorThread
  | UserThread nat uaction
  | UpdateNow
  | UpdateNowAndWait nat
  | WakeUp nat

fun process_step :: "process_event \<Rightarrow> process \<Rightarrow> process option" where
  "process_step CollectorThread x = collector_thread_main x"
| "process_step (UserThread t act) (s, w) = (case uc_step (User t act) w of Next w' \<Rightarrow> Some (s, w') | _ \<Rightarrow> None)"
| "process_step UpdateNow (s, w) = Some (collector_update_now s, w)"
| "process_step (UpdateNowAndWait i) (s, w) =
     (if i < length (waiters s) \<and> waiters s ! i = Outside then Some (wait_begin i s, w) else None)"
| "process_step (WakeUp i) (s, w) = (if i < length (waiters s) then Some (wait_check i s, w) else None)"

text \<open>As in the theory of the loop, up to \<open>2^62\<close> iterations are followed.\<close>

inductive process_moves :: "process \<Rightarrow> process \<Rightarrow> bool" where
  "process_step e x = Some y \<Longrightarrow> unat (outer_iteration_counter (fst x)) < 2 ^ 62 \<Longrightarrow> process_moves x y"

inductive_cases process_movesE: "process_moves x y"

definition process_init :: "nat \<Rightarrow> process \<Rightarrow> bool" where
  "process_init m x \<longleftrightarrow> status_init m (fst x) \<and> initial (snd x)"

text \<open>The parts of a reachable state are reachable, and outside an update the collector is parked.\<close>

definition process_inv :: "nat \<Rightarrow> process \<Rightarrow> bool" where
  "process_inv m x \<longleftrightarrow> reach (status_init m) status_step (fst x) \<and> reachable (snd x)
     \<and> (phase (fst x) \<noteq> Updating \<longrightarrow> cpc (coll (snd x)) = Parked)"

lemma process_cases:
  assumes "process_moves (s, w) (s', w')"
  obtains (start) "phase s = LoopHead" "s' = loop_step s" "collector_step w = Next w'"
  | (work) "phase s = Updating" "s' = s" "collector_step w = Next w'"
  | (finish) "phase s = Updating" "s' = loop_step s" "at_rest w" "w' = w"
  | (unpark) "phase s = Parking" "s' = loop_step s" "w' = w"
  | (user) t act where "s' = s" "uc_step (User t act) w = Next w'"
  | (now) "s' = collector_update_now s" "w' = w"
  | (wait) i where "i < length (waiters s)" "waiters s ! i = Outside" "s' = wait_begin i s" "w' = w"
  | (wake) i where "i < length (waiters s)" "s' = wait_check i s" "w' = w"
  using assms
proof (rule process_movesE)
  fix e
  assume "process_step e (s, w) = Some (s', w')"
  then show thesis
    by (cases e) (auto simp: collector_thread_main_def split: phase.splits outcome.splits if_splits intro: that)
qed

lemma loop_step_phase: "phase (loop_step s) = (case phase s of LoopHead \<Rightarrow> Updating | Updating \<Rightarrow> Parking | Parking \<Rightarrow> LoopHead)"
  by (simp add: loop_step_def split: phase.split)

lemma caller_phase [simp]:
  "phase (collector_update_now s) = phase s"
  "phase (wait_begin i s) = phase s"
  "phase (wait_check i s) = phase s"
  by (simp_all add: collector_update_now_def wait_begin_def wait_check_def Let_def split: waiter.split)

lemma process_moves_inv:
  assumes "process_inv m x" "process_moves x y"
  shows "process_inv m y"
proof -
  obtain s w s' w' where xy: "x = (s, w)" "y = (s', w')" by (cases x, cases y)
  have b: "unat (outer_iteration_counter s) < 2 ^ 62" using assms(2) xy by (auto elim: process_movesE)
  have r: "reach (status_init m) status_step s" "reachable w"
    and p: "phase s \<noteq> Updating \<Longrightarrow> cpc (coll w) = Parked" using assms(1) xy by (auto simp: process_inv_def)
  have ls: "reach (status_init m) status_step (loop_step s)" using r(1) status_step.loop [OF b] by (rule reach_step)
  have cs: "reachable w'" if "uc_step e w = Next w'" for e using r(2) sys_step.intros [OF that] by (rule reach_step)
  from assms(2) have "process_moves (s, w) (s', w')" by (simp add: xy)
  then have "process_inv m (s', w')"
  proof (cases rule: process_cases)
    case start
    then show ?thesis using ls cs [of Collector] by (simp add: process_inv_def loop_step_phase)
  next
    case work
    then show ?thesis using r cs [of Collector] by (simp add: process_inv_def)
  next
    case finish
    then show ?thesis using ls r by (simp add: process_inv_def loop_step_phase at_rest_def)
  next
    case unpark
    then show ?thesis using ls r p by (simp add: process_inv_def)
  next
    case (user t act)
    have "coll_kept w w'" by (rule uc_user_coll_kept [OF user(2)])
    then show ?thesis using user r p cs [OF user(2)] by (auto simp: process_inv_def coll_kept_def)
  next
    case now
    then show ?thesis using r p reach_step [OF r(1) status_step.unpark] by (simp add: process_inv_def)
  next
    case (wait i)
    then show ?thesis using r p reach_step [OF r(1) status_step.begin_wait [OF wait(1,2)]] by (simp add: process_inv_def)
  next
    case (wake i)
    then show ?thesis using r p reach_step [OF r(1) status_step.check [OF wake(1)]] by (simp add: process_inv_def)
  qed
  then show ?thesis by (simp add: xy)
qed

interpretation process: invariant_system "process_init m" process_moves "process_inv m"
proof unfold_locales
  show "process_inv m x" if "process_init m x" for x
    using that reach_init [of "status_init m"] reach_init [of initial]
    by (auto simp: process_init_def process_inv_def initial_def init_collector_def init_world_def)
qed (rule process_moves_inv)

section \<open>A call returns after the object is freed\<close>

text \<open>
  The runs from \<open>x\<close> in which the object at \<open>p\<close> stays allocated and no iteration stops at the limit of
  inner iterations.
\<close>

inductive uncollected :: "ptr \<Rightarrow> process \<Rightarrow> process \<Rightarrow> bool" for p x where
  call: "uncollected p x x"
| later: "uncollected p x y \<Longrightarrow> process_moves y z \<Longrightarrow> heap (snd z) p \<noteq> None \<Longrightarrow>
    loop_counter (coll (snd z)) \<noteq> max_inner_iterations \<Longrightarrow> uncollected p x z"

text \<open>
  What holds of a caller \<open>i\<close> that has read the status after \<open>n\<close> iterations had been started: at most one
  more has been started, and if so it has not ended, and the object is where the iteration will free it.
\<close>

definition pending_call :: "nat \<Rightarrow> nat \<Rightarrow> ptr \<Rightarrow> process \<Rightarrow> bool" where
  "pending_call i n p x \<longleftrightarrow> (case x of (s, w) \<Rightarrow>
     i < length (waiters s) \<and> waiters s ! i = Waits (Waiting (of_nat n + 1)) n
     \<and> heap w p \<noteq> None \<and> unreferenced w p \<and> loop_counter (coll w) \<noteq> max_inner_iterations
     \<and> (unat (outer_iteration_counter s) = n
        \<or> unat (outer_iteration_counter s) = n + 1 \<and> phase s = Updating \<and> due w p))"

lemma loop_fields:
  "waiters (loop_step s) = waiters s"
  "outer_iteration_counter (loop_step s) = (if phase s = LoopHead then outer_iteration_counter s + 1 else outer_iteration_counter s)"
  by (simp_all add: loop_step_def split: phase.split)

lemma pending_finished: "status_ok s \<Longrightarrow> unat (outer_iteration_counter s) = n \<or> unat (outer_iteration_counter s) = n + 1 \<and> phase s = Updating \<Longrightarrow> finished (status s) \<le> n"
  by (auto simp: status_ok_def split: if_splits)

lemma pending_wake:
  assumes "status_ok s" "waiters s ! i = Waits (Waiting (of_nat n + 1)) n" "n \<le> unat (outer_iteration_counter s)" "finished (status s) \<le> n"
  shows "waiters (wait_check j s) ! i = waiters s ! i"
proof (cases "j = i")
  case True
  then show ?thesis using assms reached_target [OF assms(1,3)] by (simp add: wait_check_def del: CollectorState_less_iff)
next
  case False
  then show ?thesis by (simp add: wait_check_def split: waiter.split)
qed

lemma wait_fields:
  "outer_iteration_counter (collector_update_now s) = outer_iteration_counter s" "waiters (collector_update_now s) = waiters s"
  "outer_iteration_counter (wait_begin j s) = outer_iteration_counter s"
  "j \<noteq> i \<Longrightarrow> waiters (wait_begin j s) ! i = waiters s ! i" "length (waiters (wait_begin j s)) = length (waiters s)"
  "outer_iteration_counter (wait_check j s) = outer_iteration_counter s" "length (waiters (wait_check j s)) = length (waiters s)"
  by (simp_all add: collector_update_now_def wait_begin_def wait_check_def Let_def split: waiter.split)

lemma pending_call_kept:
  assumes inv: "process_inv m (s, w)" and pc: "pending_call i n p (s, w)" and st: "process_moves (s, w) (s', w')"
    and p': "heap w' p \<noteq> None" and l: "loop_counter (coll w') \<noteq> max_inner_iterations"
  shows "pending_call i n p (s', w')"
proof -
  have r: "reachable w" and ok: "status_ok s" using inv status_sys.reach_inv by (auto simp: process_inv_def status_inv_def)
  have b: "unat (outer_iteration_counter s) < 2 ^ 62" using st by (auto elim: process_movesE)
  have safe: "safe w" by (rule sys.reach_inv [OF r])
  from pc obtain ob where ob: "heap w p = Some ob" and u: "unreferenced w p" and i: "i < length (waiters s)"
    and wt: "waiters s ! i = Waits (Waiting (of_nat n + 1)) n" and lw: "loop_counter (coll w) \<noteq> max_inner_iterations"
    and cnt: "unat (outer_iteration_counter s) = n \<or> unat (outer_iteration_counter s) = n + 1 \<and> phase s = Updating \<and> due w p"
    by (auto simp: pending_call_def)
  have fin: "finished (status s) \<le> n" and nle: "n \<le> unat (outer_iteration_counter s)" using pending_finished [OF ok] cnt by auto
  have cu: "unreferenced w' p" if "collector_step w = Next w'"
    using that collector_unreferenced [OF safe ob u, of "cpc (coll w)" w'] p' by (auto simp: collector_step_def split: if_splits)
  note ex = pending_call_def i wt l lw loop_fields wait_fields
  from st show ?thesis
  proof (cases rule: process_cases)
    case start
    then have n: "unat (outer_iteration_counter s) = n" and pk: "cpc (coll w) = Parked" using cnt inv by (auto simp: process_inv_def)
    then have "due w' p" using due_start [OF r pk lw ob] start by (simp add: collector_step_def split: if_splits)
    then show ?thesis using p' start n cu [OF start(3)] unat_add_1 [of "outer_iteration_counter s"] b by (simp add: ex loop_step_phase)
  next
    case work
    then show ?thesis using p' cnt cu [OF work(3)] collector_due [OF r ob unreferenced_strong [OF u] _ work(3) p' l] by (auto simp: ex)
  next
    case finish
    then have "\<not> due w p" by (auto simp: due_def at_rest_def)
    then show ?thesis using p' finish cnt u by (simp add: ex)
  next
    case unpark
    then show ?thesis using p' cnt u by (simp add: ex)
  next
    case (user t act)
    note k = uc_user_unreferenced [OF safe ob u user(2)]
    then show ?thesis using p' user cnt due_kept [OF _ uc_user_coll_kept [OF user(2)]] by (auto simp: ex)
  next
    case now
    then show ?thesis using p' cnt u by (simp add: ex)
  next
    case (wait j)
    then have "j \<noteq> i" using wt by auto
    then show ?thesis using p' wait cnt u by (simp add: ex)
  next
    case (wake j)
    then show ?thesis using p' cnt u pending_wake [OF ok wt nle fin, of j] by (simp add: ex)
  qed
qed

lemma uncollected_pending:
  assumes "uncollected p x y" "process_inv m x" "pending_call i n p x"
  shows "process_inv m y \<and> pending_call i n p y"
  using assms
proof (induction rule: uncollected.induct)
  case (later y z)
  then show ?case using pending_call_kept [of m "fst y" "snd y" i n p "fst z" "snd z"] process_moves_inv [of m y z] by simp
qed simp

text \<open>
  C8: \<open>collector_update_now_and_wait\<close> waits for the objects to be freed. Take an object that nothing
  refers to when a thread calls the function. In every interleaving of user threads, other callers and
  the collector thread, as long as the object has not been freed and no iteration has stopped at its
  limit of inner iterations, the call has not returned. It may start in the middle of an iteration that
  has already passed the object; the other threads may go on using everything else, clone, drop, load
  and store, and create new objects.
\<close>

theorem update_now_and_wait_collects:
  assumes "reach (process_init m) process_moves (s, w)" "process_step (UpdateNowAndWait i) (s, w) = Some x"
    and "unreferenced w p" "heap w p \<noteq> None" "loop_counter (coll w) \<noteq> max_inner_iterations"
    and "uncollected p x (s', w')"
  shows "waiters s' ! i \<noteq> Returned n"
proof -
  have i: "i < length (waiters s)" "waiters s ! i = Outside" and x: "x = (wait_begin i s, w)"
    using assms(2) by (auto split: if_splits)
  have inv: "process_inv m (s, w)" by (rule process.reach_inv [OF assms(1)])
  have r: "reach (status_init m) status_step s" using inv by (simp add: process_inv_def)
  have "process_inv m x"
    using inv i reach_step [OF r status_step.begin_wait [OF i]] by (simp add: process_inv_def x)
  moreover have "pending_call i (unat (outer_iteration_counter s)) p x"
  proof -
    have "status s = Running (outer_iteration_counter s) \<or> status s = Waiting (outer_iteration_counter s)"
      using status_sys.reach_inv [OF r] by (auto simp: status_inv_def status_ok_def)
    then show ?thesis using i assms(3-5)
      by (auto simp: x pending_call_def wait_begin_def Let_def collector_update_now_def)
  qed
  ultimately show ?thesis using uncollected_pending [OF assms(6)] by (force simp: pending_call_def)
qed

section \<open>A call returns\<close>

text \<open>The collector thread alone, with the drops it does itself; the other threads stay where they are.\<close>

inductive main_alone :: "process \<Rightarrow> process \<Rightarrow> bool" where
  main: "collector_thread_main x = Some y \<Longrightarrow> main_alone x y"
| drop: "user_step 0 Continue w = Next w' \<Longrightarrow> main_alone (s, w) (s, w')"

lemma busy_main: "busy w w' \<Longrightarrow> phase s = Updating \<Longrightarrow> main_alone (s, w) (s, w')"
  by (auto simp: busy.simps alone_iff alone_step_def collector_thread_main_def intro: main_alone.intros split: if_splits)

lemma busy_main_steps:
  assumes "busy\<^sup>*\<^sup>* w w'" "phase s = Updating"
  shows "main_alone\<^sup>*\<^sup>* (s, w) (s, w')"
  using assms(1)
proof (induction rule: rtranclp_induct)
  case (step y z)
  then show ?case using busy_main [OF _ assms(2)] by (meson rtranclp.rtrancl_into_rtrancl)
qed simp

lemma start_unhindered:
  assumes "unhindered w" "at_rest w"
  shows "\<exists>w'. collector_step w = Next w' \<and> unhindered w'"
proof -
  have r: "reachable w" and idle: "pc (threads w ! 0) = Idle" using assms by (simp_all add: unhindered_def at_rest_def)
  obtain w' where w': "collector_step w = Next w'" using collector_step_ok [OF sys.reach_inv [OF r] idle] by blast
  then have a: "alone w w'" and c: "collector_at (cpc (coll w)) w = Next w'"
    using idle by (auto intro: aloneI simp: alone_step_def collector_step_def)
  have "unhindered w'"
    using alone_reachable [OF r a] alone_notify [OF a] collector_shards [OF c] collector_own_code [OF w'] assms(1)
    by (simp add: unhindered_def)
  with w' show ?thesis by blast
qed

definition runnable :: "process \<Rightarrow> bool" where
  "runnable x \<longleftrightarrow> unhindered (snd x) \<and> (phase (fst x) \<noteq> Updating \<longrightarrow> at_rest (snd x))"

lemma one_loop_step:
  assumes "runnable (s, w)"
  shows "\<exists>w'. main_alone\<^sup>*\<^sup>* (s, w) (loop_step s, w') \<and> runnable (loop_step s, w')"
proof (cases "phase s")
  case LoopHead
  then obtain w' where "collector_step w = Next w'" "unhindered w'" using assms start_unhindered by (auto simp: runnable_def)
  then have "main_alone (s, w) (loop_step s, w')" "runnable (loop_step s, w')"
    using LoopHead by (auto intro: main_alone.main simp: collector_thread_main_def runnable_def loop_step_phase)
  then show ?thesis by blast
next
  case Updating
  obtain w' where w': "busy\<^sup>*\<^sup>* w w'" "unhindered w'" "at_rest w'"
    using iteration.reaches_goal [of w] assms by (auto simp: runnable_def)
  have "main_alone (s, w') (loop_step s, w')"
    using w'(3) Updating by (intro main_alone.main) (simp add: collector_thread_main_def)
  with busy_main_steps [OF w'(1) Updating] have "main_alone\<^sup>*\<^sup>* (s, w) (loop_step s, w')" by simp
  then show ?thesis using w' by (auto simp: runnable_def)
next
  case Parking
  then have "main_alone (s, w) (loop_step s, w)" by (intro main_alone.main) (simp add: collector_thread_main_def)
  then show ?thesis using assms Parking by (auto simp: runnable_def loop_step_phase)
qed

lemma loop_runs:
  assumes "runnable (s, w)"
  shows "\<exists>w'. main_alone\<^sup>*\<^sup>* (s, w) ((loop_step ^^ k) s, w') \<and> runnable ((loop_step ^^ k) s, w')"
proof (induction k)
  case (Suc k)
  then obtain w' where "main_alone\<^sup>*\<^sup>* (s, w) ((loop_step ^^ k) s, w')" "runnable ((loop_step ^^ k) s, w')" by blast
  then show ?case using one_loop_step [of "(loop_step ^^ k) s" w'] by (auto intro: rtranclp_trans)
qed (use assms in auto)

text \<open>
  C9: \<open>collector_update_now_and_wait\<close> returns. In every reachable state of the process in which no
  thread is inside a reader critical section and the collector thread is not inside the destructor of
  user data, wherever it stands in its loop and in an update, the collector thread alone gets in
  finitely many steps to a state in which the caller, when it wakes up, returns. Every iteration on the
  way ends: the passes are bounded by the limit of inner iterations, and each pass by the counters it
  visits and frees.
\<close>

theorem update_now_and_wait_returns:
  assumes "reach (process_init m) process_moves (s, w)" "process_step (UpdateNowAndWait i) (s, w) = Some x"
    and "pc (threads w ! 0) = Idle" "\<forall>th \<in> set (threads w). \<not> in_critical (pc th)"
  shows "\<exists>s' w' s'' n. main_alone\<^sup>*\<^sup>* x (s', w') \<and> process_step (WakeUp i) (s', w') = Some (s'', w') \<and> waiters s'' ! i = Returned n"
proof -
  have i: "i < length (waiters s)" "waiters s ! i = Outside" and x: "x = (wait_begin i s, w)"
    using assms(2) by (auto split: if_splits)
  have inv: "process_inv m (s, w)" by (rule process.reach_inv [OF assms(1)])
  then have r: "reach (status_init m) status_step s" and w: "reachable w" by (simp_all add: process_inv_def)
  have "runnable x"
    using inv assms(3,4) invD(5) [OF reachable_inv [OF w]]
    by (auto simp: x runnable_def unhindered_def at_rest_def process_inv_def notify_alive_def own_code_def
        inv_critical_def readers_in_def sum_list_eq_0_iff)
  moreover obtain k n where k: "waiters (wait_check i ((loop_step ^^ k) (wait_begin i s))) ! i = Returned n"
    using wait_ends [OF r i] by blast
  ultimately obtain w' where "main_alone\<^sup>*\<^sup>* x ((loop_step ^^ k) (wait_begin i s), w')" using loop_runs unfolding x by blast
  moreover have "length (waiters ((loop_step ^^ k) s0)) = length (waiters s0)" for s0 k
    by (induction k) (simp_all add: loop_fields)
  then have "process_step (WakeUp i) ((loop_step ^^ k) (wait_begin i s), w')
      = Some (wait_check i ((loop_step ^^ k) (wait_begin i s)), w')" using i(1) by (simp add: wait_fields)
  ultimately show ?thesis using k by blast
qed

section \<open>A concrete process\<close>

definition one_caller :: status_world where
  "one_caller = \<lparr>status = Waiting 0, outer_iteration_counter = 0, phase = LoopHead, park_token = False, waiters = [Outside]\<rparr>"

lemma process_users:
  assumes "uc_run es w = Next w'" "\<forall>e \<in> set es. e \<noteq> Collector" "unat (outer_iteration_counter s) < 2 ^ 62"
    and "reach (process_init m) process_moves (s, w)"
  shows "reach (process_init m) process_moves (s, w')"
  using assms
proof (induction es w rule: uc_run.induct)
  case (2 e es w)
  then obtain t act w1 where e: "e = User t act" "uc_step e w = Next w1" "uc_run es w1 = Next w'"
    by (cases e) (auto split: outcome.splits)
  then have "process_moves (s, w) (s, w1)"
    using 2(4) by (intro process_moves.intros [of "UserThread t act"]) simp_all
  with 2 e show ?case by (auto intro: reach_step)
qed simp

lemma garbage_process: "reach (process_init 1) process_moves (one_caller, garbage)"
proof (rule process_users)
  show "uc_run garbage_run (init_world 1 [0, 0] 0) = Next garbage"
    by (auto simp: garbage_run_def garbage_def exec_defs fun_eq_iff)
  show "reach (process_init 1) process_moves (one_caller, init_world 1 [0, 0] 0)"
    by (rule reach_init) (auto simp: process_init_def status_init_def one_caller_def initial_def intro!: exI [of _ "[0, 0]"])
qed (auto simp: garbage_run_def one_caller_def)

lemma garbage_unreferenced: "unreferenced garbage 10"
proof -
  have "untouchable garbage 10" "untouchable garbage 12" "\<not> owned (heap garbage) 10" "\<not> backref_live (heap garbage) 12"
    by (auto simp: untouchable_def garbage_def nth_Cons' owned_def backref_live_def meta_def split: if_splits)
  then show ?thesis by (auto simp: unreferenced_def garbage_def)
qed

theorem update_now_and_wait_collects_witness:
  "unreferenced garbage 10 \<and> (\<exists>s. uncollected 10 (wait_begin 0 one_caller, garbage) (s, cgoto (TakeNew 0) garbage)
     \<and> waiters s ! 0 \<noteq> Returned 0)"
proof -
  let ?s = "loop_step (wait_begin 0 one_caller)"
  have st: "process_step (UpdateNowAndWait 0) (one_caller, garbage) = Some (wait_begin 0 one_caller, garbage)"
    by (simp add: one_caller_def)
  have "process_moves (wait_begin 0 one_caller, garbage) (?s, cgoto (TakeNew 0) garbage)"
    by (rule process_moves.intros [of CollectorThread])
      (simp_all add: collector_thread_main_def one_caller_def wait_fields collector_step_def garbage_def init_collector_def)
  then have u: "uncollected 10 (wait_begin 0 one_caller, garbage) (?s, cgoto (TakeNew 0) garbage)"
    by (rule uncollected.later [OF uncollected.call]) (simp_all add: cgoto_def garbage_def init_collector_def max_inner_iterations_def)
  have "waiters ?s ! 0 \<noteq> Returned 0"
    by (rule update_now_and_wait_collects [OF garbage_process st garbage_unreferenced _ _ u])
      (simp_all add: garbage_def init_collector_def max_inner_iterations_def)
  with u garbage_unreferenced show ?thesis by blast
qed

theorem update_now_and_wait_returns_witness:
  "\<exists>s w s' n. main_alone\<^sup>*\<^sup>* (wait_begin 0 one_caller, garbage) (s, w)
     \<and> process_step (WakeUp 0) (s, w) = Some (s', w) \<and> waiters s' ! 0 = Returned n"
  by (rule update_now_and_wait_returns [OF garbage_process]) (simp_all add: one_caller_def garbage_def)
end
