(* ===== verification/Sdarc_Spec.thy ===== *)
theory Sdarc_Spec
  imports Sdarc_Safety
begin

text \<open>
  What \<^verbatim>\<open>sdarc.rs\<close> and \<^verbatim>\<open>collector.rs\<close> promise to a client, without shards, counters, tags, critical sections
  or passes of the collector: a reference-counted heap with the moves \<open>client_step\<close> of its client and
  \<open>gc_step\<close> of the collector, and the proof
  that the system of user threads and collector refines it. The abstraction \<open>spec_of\<close> forgets the counters
  and keeps the references that exist.
\<close>

section \<open>The specification\<close>

text \<open>The objects with their content, the number of references to each, and the atomic cells.\<close>

record spec =
  objs :: "ptr \<Rightarrow> payload option"
  refs :: "ptr \<Rightarrow> nat"
  cells :: "ptr option list"

definition referenced :: "spec \<Rightarrow> ptr \<Rightarrow> bool" where
  "referenced s p \<longleftrightarrow> 0 < refs s p \<or> Some p \<in> set (cells s)"

definition upgradable :: "spec \<Rightarrow> ptr \<Rightarrow> bool" where
  "upgradable s p \<longleftrightarrow> (\<exists>q. objs s q = Some (WeakSdarcInner (Some p)))"

definition add_ref :: "ptr \<Rightarrow> spec \<Rightarrow> spec" where
  "add_ref p s = s\<lparr>refs := (refs s)(p := Suc (refs s p))\<rparr>"

definition remove_ref :: "ptr \<Rightarrow> spec \<Rightarrow> spec" where
  "remove_ref p s = s\<lparr>refs := (refs s)(p := refs s p - 1)\<rparr>"

definition add_opt :: "ptr option \<Rightarrow> spec \<Rightarrow> spec" where
  "add_opt x s = (case x of None \<Rightarrow> s | Some p \<Rightarrow> add_ref p s)"

definition remove_opt :: "ptr option \<Rightarrow> spec \<Rightarrow> spec" where
  "remove_opt x s = (case x of None \<Rightarrow> s | Some p \<Rightarrow> remove_ref p s)"

text \<open>
  \<open>create\<close> is \<open>Sdarc::new\<close>. \<open>link\<close> is the first \<open>downgrade\<close> of an object: a new weak object, owned by it.
  \<open>share\<close> gives one more reference to something referenced: \<open>clone\<close>, the load of a cell, later downgrades.
  \<open>resurrect\<close> is \<open>upgrade\<close>, which may bring back an object without strong references. \<open>release\<close> is \<open>drop\<close>,
  \<open>exchange\<close> moves a reference into a cell and the old content out: \<open>swap\<close>, \<open>store\<close>, a successful
  \<open>compare_and_set\<close>. \<open>expire\<close> and \<open>collect\<close> are the collector: a weak reference stops being upgradable, and an
  object that nothing refers to and no weak reference can bring back goes.
\<close>

inductive client_step :: "spec \<Rightarrow> spec \<Rightarrow> bool" where
  create: "objs s p = None \<Longrightarrow> client_step s (add_ref p (s\<lparr>objs := (objs s)(p \<mapsto> UserData v)\<rparr>))"
| link: "objs s q = None \<Longrightarrow> referenced s p \<Longrightarrow> \<not> upgradable s p \<Longrightarrow>
    client_step s (add_ref q (s\<lparr>objs := (objs s)(q \<mapsto> WeakSdarcInner (Some p))\<rparr>))"
| share: "referenced s p \<Longrightarrow> client_step s (add_ref p s)"
| resurrect: "objs s q = Some (WeakSdarcInner (Some p)) \<Longrightarrow> referenced s q \<Longrightarrow> client_step s (add_ref p s)"
| release: "0 < refs s p \<Longrightarrow> client_step s (remove_ref p s)"
| new_cell: "client_step s (s\<lparr>cells := cells s @ [None]\<rparr>)"
| exchange: "c < length (cells s) \<Longrightarrow> (\<And>p. x = Some p \<Longrightarrow> 0 < refs s p) \<Longrightarrow>
    client_step s (add_opt (cells s ! c) ((remove_opt x s)\<lparr>cells := (cells s)[c := x]\<rparr>))"

inductive gc_step :: "spec \<Rightarrow> spec \<Rightarrow> bool" where
  expire: "objs s q = Some (WeakSdarcInner (Some p)) \<Longrightarrow> gc_step s (s\<lparr>objs := (objs s)(q \<mapsto> WeakSdarcInner None)\<rparr>)"
| collect: "\<not> referenced s p \<Longrightarrow> \<not> upgradable s p \<Longrightarrow> gc_step s (s\<lparr>objs := (objs s)(p := None)\<rparr>)"

abbreviation spec_step :: "spec \<Rightarrow> spec \<Rightarrow> bool" where
  "spec_step \<equiv> sup client_step gc_step"

definition spec_init :: "spec \<Rightarrow> bool" where
  "spec_init s \<longleftrightarrow> objs s = (\<lambda>_. None) \<and> refs s = (\<lambda>_. 0) \<and> set (cells s) \<subseteq> {None}"

text \<open>The specification is memory safe: what is referenced, or can be reached by an upgrade, exists.\<close>

definition spec_inv :: "spec \<Rightarrow> bool" where
  "spec_inv s \<longleftrightarrow> (\<forall>p. referenced s p \<or> upgradable s p \<longrightarrow> objs s p \<noteq> None)"

lemmas spec_ops = add_ref_def remove_ref_def add_opt_def remove_opt_def referenced_def upgradable_def

lemma client_step_inv: "client_step s s' \<Longrightarrow> spec_inv s \<Longrightarrow> spec_inv s'"
proof (induction rule: client_step.induct)
  case (exchange c s x)
  have "Some p \<in> set (cells s)" if "cells s ! c = Some p" for p using nth_mem [OF exchange(1)] that by simp
  moreover have "set ((cells s)[c := x]) \<subseteq> insert x (set (cells s))" by (rule set_update_subset_insert)
  ultimately show ?case using exchange by (fastforce simp: spec_inv_def spec_ops split: option.splits if_splits)
qed (auto simp: spec_inv_def spec_ops split: if_splits)

lemma gc_step_inv: "gc_step s s' \<Longrightarrow> spec_inv s \<Longrightarrow> spec_inv s'"
  by (induction rule: gc_step.induct) (auto simp: spec_inv_def spec_ops split: if_splits)

interpretation spec: invariant_system spec_init spec_step spec_inv
proof unfold_locales
  show "spec_inv s" if "spec_init s" for s using that by (auto simp: spec_init_def spec_inv_def spec_ops)
qed (auto intro: client_step_inv gc_step_inv)

section \<open>The abstraction\<close>

text \<open>
  A reference is a handle in user code, one held in the middle of an operation, the pointer that a reader
  has loaded and not counted yet, or the handle in another object's \<open>weak_inner_ref\<close>.
\<close>

definition refs_of :: "world \<Rightarrow> ptr \<Rightarrow> nat" where
  "refs_of w p = handles w p + sum_list (map (\<lambda>th. held (pc th) p + of_bool (loaded (pc th) = Some p)) (threads w))
     + of_bool (owned (heap w) p)"

definition spec_of :: "world \<Rightarrow> spec" where
  "spec_of w = \<lparr>objs = (\<lambda>p. map_option data (heap w p)), refs = refs_of w, cells = atomics w\<rparr>"

lemma spec_of_simps [simp]:
  "objs (spec_of w) p = map_option data (heap w p)" "refs (spec_of w) = refs_of w" "cells (spec_of w) = atomics w"
  by (simp_all add: spec_of_def)

lemma refs_of_int:
  "int (refs_of w p) = int (handles w p) + int (sum_list (map (\<lambda>th. held (pc th) p + of_bool (loaded (pc th) = Some p)) (threads w)))
     + of_bool (owned (heap w) p)"
  by (simp add: refs_of_def)

text \<open>Two worlds whose objects, references and cells relate as a step of the specification says.\<close>

lemma spec_eqI:
  assumes "\<And>p. map_option data (heap w p) = objs s p" "\<And>p. int (refs_of w p) = int (refs s p)" "atomics w = cells s"
  shows "spec_of w = s"
  using assms by (cases s) (auto simp: spec_of_def fun_eq_iff)

lemmas refs_calc = refs_of_int int_sum_list_update owned_upd_same of_nat_diff

lemma owned_fresh: "h p = None \<Longrightarrow> weak_inner_ref ob = None \<Longrightarrow> owned (h(p \<mapsto> ob)) = owned h"
  unfolding owned_def fun_eq_iff by (auto simp: meta_def) (metis option.distinct(1))

lemma refs_pred: "0 < handles w p \<Longrightarrow> int (refs_of w p - Suc 0) = int (refs_of w p) - 1"
  by (simp add: refs_of_def)

subsection \<open>Operations that begin\<close>

lemma new_spec:
  assumes "Sdarc_new t p a v w = Next w'" "t < length (threads w)" "pc (threads w ! t) = Idle"
  shows "objs (spec_of w) p = None" "spec_of w' = add_ref p ((spec_of w)\<lparr>objs := (objs (spec_of w))(p \<mapsto> UserData v)\<rparr>)"
proof -
  show n: "objs (spec_of w) p = None" using assms(1) by (simp add: Sdarc_new_def can_allocate_def split: if_splits)
  show "spec_of w' = add_ref p ((spec_of w)\<lparr>objs := (objs (spec_of w))(p \<mapsto> UserData v)\<rparr>)"
    by (rule spec_eqI) (use assms n in \<open>auto simp: Sdarc_new_def world_ops refs_calc add_ref_def owned_fresh split: if_splits\<close>)
qed

lemma clone_spec:
  assumes "Sdarc_clone t p w = Next w'" "t < length (threads w)" "pc (threads w ! t) = Idle"
  shows "referenced (spec_of w) p" "spec_of w' = add_ref p (spec_of w)"
proof -
  show "referenced (spec_of w) p" using assms(1) by (simp add: Sdarc_clone_def referenced_def refs_of_def split: if_splits)
  show "spec_of w' = add_ref p (spec_of w)"
    by (rule spec_eqI) (use assms in \<open>auto simp: Sdarc_clone_def modify_counter_Next world_ops refs_calc add_ref_def split: if_splits\<close>)
qed

lemma deref_spec:
  assumes "Sdarc_deref t p w = Next w'" "t < length (threads w)" "pc (threads w ! t) = Idle"
  shows "spec_of w' = spec_of w"
  by (rule spec_eqI) (use assms in \<open>auto simp: Sdarc_deref_def world_ops refs_calc split: if_splits option.splits\<close>)

lemma drop_spec:
  assumes "Sdarc_drop t p w = Next w'" "t < length (threads w)" "pc (threads w ! t) = Idle"
  shows "spec_of w' = spec_of w"
  by (rule spec_eqI) (use assms in \<open>auto simp: Sdarc_drop_def world_ops refs_calc split: if_splits\<close>)

lemma load_spec:
  assumes "AtomicNullableSdarc_load t c w = Next w'" "t < length (threads w)" "pc (threads w ! t) = Idle"
  shows "spec_of w' = spec_of w"
  by (rule spec_eqI) (use assms in \<open>auto simp: AtomicNullableSdarc_load_def world_ops refs_calc split: if_splits\<close>)

lemma owns_refs: "owns_opt w x \<Longrightarrow> x = Some p \<Longrightarrow> 0 < refs_of w p"
  by (auto simp: refs_of_def)

lemma swap_spec:
  assumes "AtomicNullableSdarc_swap t c x w = Next w'" "t < length (threads w)" "pc (threads w ! t) = Idle"
  shows "c < length (cells (spec_of w))" "x = Some p \<Longrightarrow> 0 < refs (spec_of w) p"
    "spec_of w' = add_opt (cells (spec_of w) ! c) ((remove_opt x (spec_of w))\<lparr>cells := (cells (spec_of w))[c := x]\<rparr>)"
proof -
  show "c < length (cells (spec_of w))" "x = Some p \<Longrightarrow> 0 < refs (spec_of w) p"
    using assms(1) owns_refs [of w x p] by (auto simp: AtomicNullableSdarc_swap_def split: if_splits)
  show "spec_of w' = add_opt (cells (spec_of w) ! c) ((remove_opt x (spec_of w))\<lparr>cells := (cells (spec_of w))[c := x]\<rparr>)"
    by (rule spec_eqI; cases x; cases "atomics w ! c")
      (use assms in \<open>auto simp: AtomicNullableSdarc_swap_def world_ops refs_pred refs_calc add_opt_def remove_opt_def add_ref_def remove_ref_def
        split: if_splits\<close>)
qed

lemma store_spec:
  assumes "AtomicNullableSdarc_store t c x w = Next w'" "t < length (threads w)" "pc (threads w ! t) = Idle"
  shows "c < length (cells (spec_of w))" "x = Some p \<Longrightarrow> 0 < refs (spec_of w) p"
    "spec_of w' = add_opt (cells (spec_of w) ! c) ((remove_opt x (spec_of w))\<lparr>cells := (cells (spec_of w))[c := x]\<rparr>)"
proof -
  show "c < length (cells (spec_of w))" "x = Some p \<Longrightarrow> 0 < refs (spec_of w) p"
    using assms(1) owns_refs [of w x p] by (auto simp: AtomicNullableSdarc_store_def split: if_splits)
  show "spec_of w' = add_opt (cells (spec_of w) ! c) ((remove_opt x (spec_of w))\<lparr>cells := (cells (spec_of w))[c := x]\<rparr>)"
    by (rule spec_eqI; cases x; cases "atomics w ! c")
      (use assms in \<open>auto simp: AtomicNullableSdarc_store_def world_ops refs_pred refs_calc add_opt_def remove_opt_def add_ref_def remove_ref_def
        split: if_splits\<close>)
qed

lemma cas_spec:
  assumes "raw_compare_and_set t c m None w = Next w'" "t < length (threads w)" "pc (threads w ! t) = Idle"
  shows "spec_of w' = spec_of w \<or> (c < length (cells (spec_of w))
     \<and> spec_of w' = add_opt (cells (spec_of w) ! c) ((remove_opt None (spec_of w))\<lparr>cells := (cells (spec_of w))[c := None]\<rparr>))"
proof (cases "atomics w ! c = m")
  case True
  have "spec_of w' = add_opt (cells (spec_of w) ! c) ((remove_opt None (spec_of w))\<lparr>cells := (cells (spec_of w))[c := None]\<rparr>)"
    by (rule spec_eqI; cases m)
      (use assms True in \<open>auto simp: raw_compare_and_set_def world_ops refs_pred refs_calc add_opt_def remove_opt_def add_ref_def
        split: if_splits\<close>)
  then show ?thesis using assms(1) by (auto simp: raw_compare_and_set_def split: if_splits)
next
  case False
  have "spec_of w' = spec_of w"
    by (rule spec_eqI) (use assms False in \<open>auto simp: raw_compare_and_set_def world_ops refs_calc split: if_splits\<close>)
  then show ?thesis by simp
qed

lemma owned_link:
  assumes "h p = Some ob" "weak_inner_ref ob = None" "h q = None" "weak_inner_ref wk = None"
  shows "owned (h(q \<mapsto> wk, p \<mapsto> ob\<lparr>weak_inner_ref := Some q\<rparr>)) r \<longleftrightarrow> owned h r \<or> r = q"
  using assms unfolding owned_def by (auto simp: meta_def) (metis option.distinct(1) option.inject)

lemma downgrade_spec:
  assumes i: "inv w" and st: "Sdarc_downgrade t p q a w = Next w'" and t: "t < length (threads w)" "pc (threads w ! t) = Idle"
  shows "spec_of w' = spec_of w \<or> (objs (spec_of w) q = None \<and> referenced (spec_of w) p \<and> \<not> upgradable (spec_of w) p
     \<and> spec_of w' = add_ref q ((spec_of w)\<lparr>objs := (objs (spec_of w))(q \<mapsto> WeakSdarcInner (Some p))\<rparr>))"
proof -
  obtain ob where ob: "heap w p = Some ob" "0 < handles w p" using st by (auto simp: Sdarc_downgrade_def split: if_splits option.splits)
  show ?thesis
  proof (cases "weak_inner_ref ob")
    case (Some q')
    have "spec_of w' = spec_of w"
      by (rule spec_eqI) (use st t ob Some in \<open>auto simp: Sdarc_downgrade_def world_ops refs_calc split: if_splits\<close>)
    then show ?thesis ..
  next
    case None
    have q: "heap w q = None" using st ob None by (auto simp: Sdarc_downgrade_def can_allocate_def split: if_splits)
    have nq: "\<not> owned (heap w) q" using q owned_alive [OF invD(4) [OF i], of q] by auto
    have "\<not> upgradable (spec_of w) p"
    proof
      assume "upgradable (spec_of w) p"
      then obtain x wk where "heap w x = Some wk" "data wk = WeakSdarcInner (Some p)" by (auto simp: upgradable_def)
      then have "\<exists>a d. meta (heap w) p = Some (a, Some x, d)"
        using invD(6) [OF i] meta_SomeI [of "heap w" x wk] unfolding inv_weak_def by metis
      then show False using ob None by (auto simp: meta_def)
    qed
    moreover have "spec_of w' = add_ref q ((spec_of w)\<lparr>objs := (objs (spec_of w))(q \<mapsto> WeakSdarcInner (Some p))\<rparr>)"
      by (rule spec_eqI) (use st t ob None q nq in \<open>auto simp: Sdarc_downgrade_def world_ops refs_calc owned_link add_ref_def split: if_splits\<close>)
    ultimately show ?thesis using q ob by (simp add: referenced_def refs_of_def)
  qed
qed

lemma upgrade_spec:
  assumes "WeakSdarc_upgrade t q w = Next w'" "t < length (threads w)" "pc (threads w ! t) = Idle"
  shows "spec_of w' = spec_of w"
  by (rule spec_eqI) (use assms in \<open>auto simp: WeakSdarc_upgrade_def world_ops refs_calc split: if_splits option.splits payload.splits\<close>)

lemma set_shard_spec:
  assumes "set_current_thread_shard_index t i w = Next w'" "t < length (threads w)" "pc (threads w ! t) = Idle"
  shows "spec_of w' = spec_of w"
  by (rule spec_eqI) (use assms in \<open>auto simp: set_current_thread_shard_index_def world_ops refs_calc split: if_splits\<close>)

lemma new_atomic_spec:
  assumes "AtomicNullableSdarc_new t w = Next w'" "t < length (threads w)" "pc (threads w ! t) = Idle"
  shows "spec_of w' = (spec_of w)\<lparr>cells := cells (spec_of w) @ [None]\<rparr>" "t < length (threads w')" "pc (threads w' ! t) = Idle"
proof -
  show "spec_of w' = (spec_of w)\<lparr>cells := cells (spec_of w) @ [None]\<rparr>"
    by (rule spec_eqI) (use assms in \<open>auto simp: AtomicNullableSdarc_new_def world_ops refs_calc\<close>)
qed (use assms in \<open>auto simp: AtomicNullableSdarc_new_def world_ops\<close>)

lemma return_spec: "t < length (threads w) \<Longrightarrow> pc (threads w ! t) = Idle \<Longrightarrow> spec_of (return t r w) = spec_of w"
  by (rule spec_eqI) (auto simp: world_ops refs_calc)

text \<open>Each of these operations is one move of the client, or none that it sees.\<close>

lemma new_refines:
  assumes "Sdarc_new t p a v w = Next w'" "t < length (threads w)" "pc (threads w ! t) = Idle"
  shows "client_step (spec_of w) (spec_of w')"
  unfolding new_spec(2) [OF assms] by (rule client_step.create [OF new_spec(1) [OF assms]])

lemma clone_refines:
  assumes "Sdarc_clone t p w = Next w'" "t < length (threads w)" "pc (threads w ! t) = Idle"
  shows "client_step (spec_of w) (spec_of w')"
  unfolding clone_spec(2) [OF assms] by (rule client_step.share [OF clone_spec(1) [OF assms]])

lemma swap_refines:
  assumes "AtomicNullableSdarc_swap t c x w = Next w'" "t < length (threads w)" "pc (threads w ! t) = Idle"
  shows "client_step (spec_of w) (spec_of w')"
  unfolding swap_spec(3) [OF assms] by (rule client_step.exchange [OF swap_spec(1) [OF assms]]) (rule swap_spec(2) [OF assms])

lemma store_refines:
  assumes "AtomicNullableSdarc_store t c x w = Next w'" "t < length (threads w)" "pc (threads w ! t) = Idle"
  shows "client_step (spec_of w) (spec_of w')"
  unfolding store_spec(3) [OF assms] by (rule client_step.exchange [OF store_spec(1) [OF assms]]) (rule store_spec(2) [OF assms])

lemma cas_refines:
  assumes "raw_compare_and_set t c m None w = Next w'" "t < length (threads w)" "pc (threads w ! t) = Idle"
  shows "client_step\<^sup>=\<^sup>= (spec_of w) (spec_of w')"
  using cas_spec [OF assms] client_step.exchange [of c "spec_of w" None] by auto

lemma downgrade_refines:
  assumes "inv w" "Sdarc_downgrade t p q a w = Next w'" "t < length (threads w)" "pc (threads w ! t) = Idle"
  shows "client_step\<^sup>=\<^sup>= (spec_of w) (spec_of w')"
  using downgrade_spec [OF assms] client_step.link [of "spec_of w" q p] by auto

lemma new_atomic_refines:
  assumes "AtomicNullableSdarc_new t w = Next w'" "t < length (threads w)" "pc (threads w ! t) = Idle"
  shows "client_step (spec_of w) (spec_of w')"
  unfolding new_atomic_spec(1) [OF assms] by (rule client_step.new_cell)

lemma new_with_value_refines:
  assumes st: "AtomicNullableSdarc_new_with_value t p a v w = Next w'" and t: "t < length (threads w)" "pc (threads w ! t) = Idle"
  shows "client_step\<^sup>*\<^sup>* (spec_of w) (spec_of w')"
proof -
  from st obtain w1 w2 w3 where w1: "AtomicNullableSdarc_new t w = Next w1" and w2: "Sdarc_new t p a v w1 = Next w2"
    and w3: "AtomicNullableSdarc_swap t (length (atomics w)) (Some p) w2 = Next w3" and w': "w' = return t (RetCell (length (atomics w))) w3"
    by (auto simp: AtomicNullableSdarc_new_with_value_def and_then_Next)
  note n1 = new_atomic_spec [OF w1 t]
  have t2: "t < length (threads w2)" "pc (threads w2 ! t) = Idle"
    using w2 n1(2,3) by (auto simp: Sdarc_new_def world_ops split: if_splits)
  have t3: "t < length (threads w3)" "pc (threads w3 ! t) = Idle"
    using w3 t2 by (cases "atomics w2 ! length (atomics w)"; auto simp: AtomicNullableSdarc_swap_def world_ops split: if_splits)+
  note s1 = new_atomic_refines [OF w1 t] and s2 = new_refines [OF w2 n1(2,3)] and s3 = swap_refines [OF w3 t2]
  show ?thesis unfolding w' return_spec [OF t3]
    by (rule converse_rtranclp_into_rtranclp [OF s1 converse_rtranclp_into_rtranclp [OF s2 r_into_rtranclp [of client_step, OF s3]]])
qed

lemma begin_refines:
  assumes i: "inv w" and st: "begin_op t act w = Next w'" and t: "t < length (threads w)" "pc (threads w ! t) = Idle" and c: "cas_free act"
  shows "client_step\<^sup>*\<^sup>* (spec_of w) (spec_of w')"
proof (cases act)
  case (CompareAndSet k m x)
  then have "raw_compare_and_set t k m None w = Next w'" using st c by (cases x) simp_all
  from cas_refines [OF this t] show ?thesis by auto
next
  case (Downgrade p q a)
  then have "Sdarc_downgrade t p q a w = Next w'" using st by simp
  from downgrade_refines [OF i this t] show ?thesis by auto
next
  case (DropAtomic k)
  then have "AtomicNullableSdarc_store t k None w = Next w'" using st by (simp add: AtomicNullableSdarc_drop_def)
  from store_refines [OF this t] show ?thesis by (rule r_into_rtranclp)
next
  case (NewAtomicWithValue p a v)
  then show ?thesis using new_with_value_refines [of t p a v w w', OF _ t] st by simp
next
  case NewAtomic
  then have "AtomicNullableSdarc_new t w = Next w'" using st by simp
  from new_atomic_refines [OF this t] show ?thesis by (rule r_into_rtranclp)
qed (use st new_refines [OF _ t] clone_refines [OF _ t] swap_refines [OF _ t] store_refines [OF _ t]
       deref_spec [OF _ t] drop_spec [OF _ t] load_spec [OF _ t] upgrade_spec [OF _ t] set_shard_spec [OF _ t] in
     \<open>auto intro: r_into_rtranclp\<close>)

subsection \<open>Operations that continue\<close>

lemma refs_member:
  "t < length (threads w) \<Longrightarrow> held (pc (threads w ! t)) p + of_bool (loaded (pc (threads w ! t)) = Some p) \<le> refs_of w p"
  using sum_list_member_nat [of "threads w ! t" "threads w" "\<lambda>th. held (pc th) p + of_bool (loaded (pc th) = Some p)"]
  by (simp add: refs_of_def)

lemma refs_pred_held: "t < length (threads w) \<Longrightarrow> 0 < held (pc (threads w ! t)) p \<Longrightarrow> int (refs_of w p - Suc 0) = int (refs_of w p) - 1"
  using refs_member [of t w p] by simp

lemma load_ptr_spec:
  assumes "AtomicNullableSdarc_load_ptr t c w = Next w'" "t < length (threads w)" "pc (threads w ! t) = LoadPtr c"
  shows "spec_of w' = spec_of w \<or> (\<exists>p. referenced (spec_of w) p \<and> spec_of w' = add_ref p (spec_of w))"
proof (cases "atomics w ! c")
  case None
  have "spec_of w' = spec_of w"
    by (rule spec_eqI) (use assms None in \<open>auto simp: AtomicNullableSdarc_load_ptr_def world_ops refs_calc split: if_splits\<close>)
  then show ?thesis ..
next
  case (Some p)
  have "spec_of w' = add_ref p (spec_of w)"
    by (rule spec_eqI) (use assms Some in \<open>auto simp: AtomicNullableSdarc_load_ptr_def world_ops refs_calc add_ref_def split: if_splits\<close>)
  moreover have "Some p \<in> set (atomics w)" using assms(1) Some
    by (auto simp: AtomicNullableSdarc_load_ptr_def in_set_conv_nth split: if_splits)
  ultimately show ?thesis by (auto simp: referenced_def)
qed

lemma upgrade_load_spec:
  assumes st: "WeakSdarc_upgrade_load t q w = Next w'" and t: "t < length (threads w)" and pc: "pc (threads w ! t) = UpgradeLoad q"
  shows "spec_of w' = spec_of w \<or> (\<exists>p. objs (spec_of w) q = Some (WeakSdarcInner (Some p)) \<and> referenced (spec_of w) q
     \<and> spec_of w' = add_ref p (spec_of w))"
proof -
  have r: "referenced (spec_of w) q" using refs_member [OF t, of q] pc by (simp add: referenced_def)
  obtain ob b where ob: "heap w q = Some ob" "data ob = WeakSdarcInner b"
    using st by (auto simp: WeakSdarc_upgrade_load_def split: option.splits payload.splits)
  show ?thesis
  proof (cases b)
    case None
    have "spec_of w' = spec_of w"
      by (rule spec_eqI) (use st t pc ob None in \<open>auto simp: WeakSdarc_upgrade_load_def world_ops refs_calc\<close>)
    then show ?thesis ..
  next
    case (Some p)
    have "spec_of w' = add_ref p (spec_of w)"
      by (rule spec_eqI) (use st t pc ob Some in \<open>auto simp: WeakSdarc_upgrade_load_def world_ops refs_calc add_ref_def\<close>)
    then show ?thesis using r ob Some by simp
  qed
qed

lemma count_spec:
  assumes t: "t < length (threads w)"
  shows "pc (threads w ! t) = LoadInc p \<Longrightarrow> AtomicNullableSdarc_load_inc t p w = Next w' \<Longrightarrow> spec_of w' = spec_of w"
    "pc (threads w ! t) = UpgradeInc q p \<Longrightarrow> WeakSdarc_upgrade_inc t q p w = Next w' \<Longrightarrow> spec_of w' = spec_of w"
    "pc (threads w ! t) = LoadExit r \<Longrightarrow> AtomicNullableSdarc_load_exit t r w = Next w' \<Longrightarrow> spec_of w' = spec_of w"
    "pc (threads w ! t) = UpgradeExit q r \<Longrightarrow> WeakSdarc_upgrade_exit t q r w = Next w' \<Longrightarrow> spec_of w' = spec_of w"
  using t by (intro spec_eqI; auto simp: user_op_defs modify_counter_Next world_ops refs_calc split: option.splits)+

lemma notify_spec:
  assumes "Sdarc_drop_notify t p w = Next w'" "t < length (threads w)" "pc (threads w ! t) = DropNotify p"
  shows "spec_of w' = spec_of w"
proof -
  obtain a where w': "w' = return t NoRet (on_sdarc_drop t a w)"
    using assms(1) by (auto simp: Sdarc_drop_notify_def split: option.splits)
  have c: "heap w' = heap w" "atomics w' = atomics w" "handles w' = handles w"
    "threads w' = (threads w)[t := (threads w ! t)\<lparr>pc := Idle, ret := NoRet\<rparr>]"
    by (simp_all add: w' world_ops)
  show ?thesis by (rule spec_eqI) (use assms(2,3) in \<open>simp_all add: c refs_calc\<close>)
qed

lemma drop_dec_spec:
  assumes st: "Sdarc_drop_decrement t p w = Next w'" and t: "t < length (threads w)" and pc: "pc (threads w ! t) = DropDec p"
  shows "0 < refs (spec_of w) p" "spec_of w' = remove_ref p (spec_of w)"
proof -
  show "0 < refs (spec_of w) p" using refs_member [OF t, of p] pc by simp
  show "spec_of w' = remove_ref p (spec_of w)"
    by (rule spec_eqI) (use st t pc refs_pred_held [OF t, of p] in
      \<open>auto simp: Sdarc_drop_decrement_def modify_counter_Next world_ops refs_calc remove_ref_def\<close>)
qed

lemma downgrade_clone_spec:
  assumes st: "Sdarc_downgrade_clone t p q w = Next w'" and t: "t < length (threads w)" and pc: "pc (threads w ! t) = DowngradeClone p q"
    and ok: "\<exists>a d. meta (heap w) p = Some (a, Some q, d)"
  shows "referenced (spec_of w) q" "spec_of w' = add_ref q (spec_of w)"
proof -
  have "owned (heap w) q" using ok unfolding owned_def by blast
  then show "referenced (spec_of w) q" by (simp add: referenced_def refs_of_def)
  show "spec_of w' = add_ref q (spec_of w)"
    by (rule spec_eqI) (use st t pc in \<open>auto simp: Sdarc_downgrade_clone_def modify_counter_Next world_ops refs_calc add_ref_def\<close>)
qed

lemma continue_refines:
  assumes st: "continue t (pc (threads w ! t)) w = Next w'" and t: "t < length (threads w)" and ok: "pc_ok (heap w) (pc (threads w ! t))"
  shows "client_step\<^sup>*\<^sup>* (spec_of w) (spec_of w')"
proof -
  have eq: "client_step\<^sup>*\<^sup>* (spec_of w) (spec_of w')" if "spec_of w' = spec_of w" using that by simp
  note one = r_into_rtranclp [of client_step]
  show ?thesis
  proof (cases "pc (threads w ! t)")
    case (LoadPtr c)
    then have "AtomicNullableSdarc_load_ptr t c w = Next w'" using st by simp
    from load_ptr_spec [OF this t LoadPtr] show ?thesis
      by (elim disjE exE conjE) (rule eq, assumption, simp only:, rule one [OF client_step.share])
  next
    case (UpgradeLoad q)
    then have "WeakSdarc_upgrade_load t q w = Next w'" using st by simp
    from upgrade_load_spec [OF this t UpgradeLoad] show ?thesis
      by (elim disjE exE conjE) (rule eq, assumption, simp only:, rule one [OF client_step.resurrect])
  next
    case (DropDec p)
    then have "Sdarc_drop_decrement t p w = Next w'" using st by simp
    note n = drop_dec_spec [OF this t DropDec]
    show ?thesis unfolding n(2) by (rule one [OF client_step.release [OF n(1)]])
  next
    case (DowngradeClone p q)
    then have "Sdarc_downgrade_clone t p q w = Next w'" "\<exists>a d. meta (heap w) p = Some (a, Some q, d)" using st ok by simp_all
    note n = downgrade_clone_spec [OF this(1) t DowngradeClone this(2)]
    show ?thesis unfolding n(2) by (rule one [OF client_step.share [OF n(1)]])
  qed (use st ok count_spec [OF t] notify_spec [OF _ t] in \<open>auto intro!: eq\<close>)
qed

subsection \<open>The uninterrupted \<open>compare_and_set\<close>\<close>

lemma cas_whole_refines:
  assumes t: "t < length (threads w)" "pc (threads w ! t) = Idle" and c: "c < length (atomics w)" "atomics w ! c = m" "0 < handles w q"
    and st: "raw_compare_and_set_inc t q m (goto t (CasInc q m) (lose q (set_atomic c (Some q) w))) = Next w'"
  shows "client_step\<^sup>*\<^sup>* (spec_of w) (spec_of w')"
proof -
  let ?s = "add_ref q (spec_of w)"
  have "client_step (spec_of w) ?s" by (rule client_step.share) (use c(3) in \<open>simp add: referenced_def refs_of_def\<close>)
  moreover have "client_step ?s (add_opt (cells ?s ! c) ((remove_opt (Some q) ?s)\<lparr>cells := (cells ?s)[c := Some q]\<rparr>))"
    by (rule client_step.exchange) (use c in \<open>simp_all add: add_ref_def\<close>)
  moreover have "spec_of w' = add_opt (cells ?s ! c) ((remove_opt (Some q) ?s)\<lparr>cells := (cells ?s)[c := Some q]\<rparr>)"
    by (rule spec_eqI; cases m) (use t c st in \<open>auto simp: raw_compare_and_set_inc_def modify_counter_Next world_ops refs_pred refs_calc
      add_opt_def remove_opt_def add_ref_def remove_ref_def\<close>)
  ultimately show ?thesis by (simp add: converse_rtranclp_into_rtranclp r_into_rtranclp)
qed

lemma user_refines:
  assumes s: "safe w" and st: "user_step t act w = Next w'" and c: "cas_free act"
  shows "client_step\<^sup>*\<^sup>* (spec_of w) (spec_of w')"
proof -
  have t: "t < length (threads w)" using st by (simp add: user_step_def split: if_splits)
  have i: "inv w" and ok: "pc_ok (heap w) (pc (threads w ! t))" using s t by (simp_all add: safe_def inv_pcs_def)
  show ?thesis
    using st t begin_refines [OF i _ t _ c] continue_refines [OF _ t ok] by (auto simp: user_step_def split: if_splits)
qed

lemma uc_user_refines:
  assumes s: "safe w" and st: "uc_step (User t act) w = Next w'"
  shows "client_step\<^sup>*\<^sup>* (spec_of w) (spec_of w')"
proof (cases rule: uc_step_cases [of "User t act" w])
  case plain
  then show ?thesis using user_refines [OF s, of t act w'] st by simp
next
  case (cas t' c m q)
  then have e: "t' = t" "act = CompareAndSet c m (Some q)" by simp_all
  from st e obtain w1 where w1: "user_step t (CompareAndSet c m (Some q)) w = Next w1"
    and w': "pc (threads w1 ! t) = Idle \<and> w' = w1 \<or> pc (threads w1 ! t) \<noteq> Idle \<and> user_step t Continue w1 = Next w'"
    by (auto split: outcome.splits if_splits)
  note b = cas_begin [OF w1]
  from b(3) show ?thesis
  proof (elim disjE conjE)
    assume "user_step t (CompareAndSet c m None) w = Next w1" "pc (threads w1 ! t) = Idle"
    then show ?thesis using user_refines [OF s, of t "CompareAndSet c m None" w1] w' by auto
  next
    assume a: "c < length (atomics w)" "atomics w ! c = m" "0 < handles w q"
      and w1: "w1 = goto t (CasInc q m) (lose q (set_atomic c (Some q) w))" "pc (threads w1 ! t) = CasInc q m"
        "user_step t Continue w1 = raw_compare_and_set_inc t q m w1"
    then have "raw_compare_and_set_inc t q m w1 = Next w'" using w' by simp
    then show ?thesis unfolding w1(1) by (rule cas_whole_refines [OF b(1,2) a])
  qed
qed

subsection \<open>The collector\<close>

lemma dead_spec:
  assumes i: "inv w" and d: "dead w p"
  shows "\<not> referenced (spec_of w) p" "\<not> upgradable (spec_of w) p"
proof -
  have z: "strong w p = 0" and nr: "\<And>s. \<not> pending_reader (threads w) s p" and nb: "\<not> backref_live (heap w) p"
    using d by (auto simp: dead_def)
  have "loaded (pc th) \<noteq> Some p" if "th \<in> set (threads w)" for th using nr that by (auto simp: pending_reader_def)
  then have "refs_of w p = 0" using z by (auto simp: refs_of_def strong_def sum_list_eq_0_iff)
  then show "\<not> referenced (spec_of w) p" using z by (auto simp: referenced_def strong_def count_list_0_iff)
  show "\<not> upgradable (spec_of w) p"
  proof
    assume "upgradable (spec_of w) p"
    then obtain q wk where q: "heap w q = Some wk" "data wk = WeakSdarcInner (Some p)" by (auto simp: upgradable_def)
    note m = meta_SomeI [of "heap w", OF q(1), unfolded q(2)]
    then have "\<exists>a d. meta (heap w) p = Some (a, Some q, d)" using invD(6) [OF i] unfolding inv_weak_def by blast
    with m nb show False unfolding backref_live_def by blast
  qed
qed

lemma owned_iff: "owned h p \<longleftrightarrow> (\<exists>q. map_option weak_inner_ref (h q) = Some (Some p))"
  by (auto simp: owned_def meta_def)

lemma spec_cong:
  assumes "\<And>x. map_option data (heap w' x) = map_option data (heap w x)"
    and "\<And>x. map_option weak_inner_ref (heap w' x) = map_option weak_inner_ref (heap w x)"
    and "handles w' = handles w" "atomics w' = atomics w" "threads w' = threads w"
  shows "spec_of w' = spec_of w"
proof -
  have "owned (heap w') = owned (heap w)" by (rule ext) (simp only: owned_iff assms(2))
  then show ?thesis using assms(1,3-) by (simp add: spec_of_def refs_of_def fun_eq_iff)
qed

lemma set_coll_spec [simp]: "spec_of (set_coll f w) = spec_of w"
  by (rule spec_cong) simp_all

lemma clear_weak_refines:
  assumes "clear_weak_back_ref a p w = Next w'"
  shows "gc_step\<^sup>=\<^sup>= (spec_of w) (spec_of w')"
proof -
  from assms obtain r w1 f where r: "clear_weak_backref_impl p w = Inr (r, w1)" and w': "w' = set_coll f w1"
    by (auto simp: clear_weak_back_ref_def split: sum.splits prod.splits ClearWeakBackRefResult.splits)
  have "w1 = w \<or> (\<exists>q wk x. heap w q = Some wk \<and> data wk = WeakSdarcInner (Some x) \<and> w1 = set_obj q (wk\<lparr>data := WeakSdarcInner None\<rparr>) w)"
    using r by (auto simp: clear_weak_backref_impl_def split: option.splits payload.splits)
  then show ?thesis
  proof (elim disjE exE conjE)
    fix q wk x
    assume q: "heap w q = Some wk" "data wk = WeakSdarcInner (Some x)" and w1: "w1 = set_obj q (wk\<lparr>data := WeakSdarcInner None\<rparr>) w"
    have wr: "map_option weak_inner_ref (heap w1 y) = map_option weak_inner_ref (heap w y)" for y by (simp add: w1 set_obj_def q)
    have o: "owned (heap w1) = owned (heap w)" by (rule ext) (simp only: owned_iff wr)
    have "spec_of w1 = (spec_of w)\<lparr>objs := (objs (spec_of w))(q \<mapsto> WeakSdarcInner None)\<rparr>"
      by (rule spec_eqI) (auto simp: w1 set_obj_def refs_of_def o [unfolded w1 set_obj_def, simplified])
    moreover have "gc_step (spec_of w) ((spec_of w)\<lparr>objs := (objs (spec_of w))(q \<mapsto> WeakSdarcInner None)\<rparr>)"
      by (rule gc_step.expire [where p = x]) (simp add: q)
    ultimately show ?thesis unfolding w' by simp
  qed (simp add: w')
qed

lemma free_refines:
  assumes s: "safe w" and idle: "pc (threads w ! 0) = Idle" and st: "free_pointers w = Next w'"
  shows "gc_step\<^sup>=\<^sup>= (spec_of w) (spec_of w')"
proof (cases "to_free (coll w)")
  case Nil
  then show ?thesis using st by (auto simp: free_pointers_def)
next
  case (Cons a fs)
  have i: "inv w" using s by (simp add: safe_def)
  obtain tc where tc: "map_of (tracked_counters (coll w)) a = Some tc" "tstate tc = ReadyToFree"
    using invD(9) [OF i] Cons unfolding inv_pass_def by fastforce
  let ?p = "fat_ptr tc"
  have dd: "dead w ?p" using invD(10) [OF i] tc by (auto simp: inv_ready_def)
  obtain ob where ob: "heap w ?p = Some ob" "counters_ptr ob = a"
    using inv_trackD(2) [OF invD(8) [OF i] tc(1)] by (auto dest: meta_SomeD)
  have w': "w' = Sdarc_Free_Steps.freed a ?p ob fs w"
    using st Cons tc ob drop_sdarc_inner_freed [OF ready_content [OF i dd ob(1)] ob(2)] by (simp add: free_pointers_def)
  have ne: "0 < length (threads w)" using invD(1) [OF i] by (simp add: inv_shape_def)
  have "spec_of w' = (spec_of w)\<lparr>objs := (objs (spec_of w))(?p := None)\<rparr>"
    by (rule spec_eqI) (use ne idle owned_free [OF invD(6) [OF i] ob(1)] owned_weak_ref [where h = "heap w", OF ob(1)] in
      \<open>auto simp: w' refs_calc take_weak_def split: option.splits\<close>)
  then show ?thesis using gc_step.collect [OF dead_spec [OF i dd]] by simp
qed

lemma collector_refines:
  assumes s: "safe w" and st: "collector_step w = Next w'"
  shows "gc_step\<^sup>=\<^sup>= (spec_of w) (spec_of w')"
proof -
  have c: "collector_at (cpc (coll w)) w = Next w'" and idle: "pc (threads w ! 0) = Idle"
    using st by (auto simp: collector_step_def split: if_splits)
  consider (weak) a p where "cpc (coll w) = ClearWeak a p" | (free) "cpc (coll w) = Freeing"
    | (other) "\<forall>a p. cpc (coll w) \<noteq> ClearWeak a p" "cpc (coll w) \<noteq> Freeing" by blast
  then show ?thesis
  proof cases
    case weak
    then show ?thesis using clear_weak_refines c by simp
  next
    case free
    then show ?thesis using free_refines [OF s idle] c by simp
  next
    case other
    have "spec_of w' = spec_of w"
      by (rule spec_cong; use c other in \<open>cases "cpc (coll w)"; auto simp: collector_defs set_obj_def
        split: if_splits option.splits sum.splits list.splits TrackedCounterState.splits\<close>)
    then show ?thesis by simp
  qed
qed

section \<open>Refinement\<close>

lemma collector_step_refines:
  "safe w \<Longrightarrow> uc_step Collector w = Next w' \<Longrightarrow> gc_step\<^sup>=\<^sup>= (spec_of w) (spec_of w')"
  using collector_refines by simp

lemma step_refines:
  assumes "safe w" "uc_step e w = Next w'"
  shows "spec_step\<^sup>*\<^sup>* (spec_of w) (spec_of w')"
proof (cases e)
  case (User t act)
  then show ?thesis using uc_user_refines assms rtranclp_mono [of client_step spec_step] by blast
next
  case Collector
  then have "gc_step\<^sup>=\<^sup>= (spec_of w) (spec_of w')" using collector_step_refines assms by simp
  then show ?thesis by auto
qed

interpretation client: refinement initial sys_step safe spec_init spec_step spec_of
proof unfold_locales
  show "spec_init (spec_of w)" if "initial w" for w
    using that by (auto simp: initial_def spec_init_def spec_of_def refs_of_def init_world_def owned_def meta_def comp_def fun_eq_iff)
  show "spec_step\<^sup>*\<^sup>* (spec_of w) (spec_of w')" if "safe w" "sys_step w w'" for w w'
    using that(2) by (rule sys_stepE) (rule step_refines [OF that(1)])
qed

end
