(* ===== verification/Sdarc_Deep.thy ===== *)
theory Sdarc_Deep
  imports Collector_Progress
begin

text \<open>
  Deep structures. The data of an object may own handles of other objects, which its destructor drops
  when the collector frees it; \<open>CollectorThreadLocal\<close> in \<^verbatim>\<open>src/src/collector.rs\<close> exists so that the whole
  structure goes in one update and not layer by layer. Here is an update in which the destructors, run in
  the collector thread, drop handles, and the other threads stand still. The invariant \<open>sweeping\<close> says
  that at each point every object without a reference is on its way to be freed.
\<close>

section \<open>Updates with destructors\<close>

text \<open>
  The steps of an update. Which handles a destructor drops, how many and in which order, is left open.
\<close>

inductive drops :: "world \<Rightarrow> world \<Rightarrow> bool" where
  collector: "collector_step w = Next w' \<Longrightarrow> cpc (coll w) \<noteq> Parked \<Longrightarrow> drops w w'"
| destructor: "user_step 0 act w = Next w' \<Longrightarrow> act = Continue \<or> (\<exists>p. act = Drop p) \<Longrightarrow> drops w w'"

section \<open>Reference counts during such an update\<close>

lemma collector_strong:
  assumes s: "safe w" and st: "collector_step w = Next w'"
  shows "strong w' = strong w"
proof -
  have i: "inv w" using s by (simp add: safe_def)
  have c: "collector_at (cpc (coll w)) w = Next w'" and idle: "pc (threads w ! 0) = Idle"
    using st by (auto simp: collector_step_def split: if_splits)
  show ?thesis
  proof (cases "cpc (coll w) = Freeing \<and> to_free (coll w) \<noteq> []")
    case True
    then obtain a fs where f: "cpc (coll w) = Freeing" "to_free (coll w) = a # fs" by (cases "to_free (coll w)") auto
    obtain tc where tc: "map_of (tracked_counters (coll w)) a = Some tc" "tstate tc = ReadyToFree"
      using invD(9) [OF i] f unfolding inv_pass_def by fastforce
    have dd: "dead w (fat_ptr tc)" using invD(10) [OF i] tc by (auto simp: inv_ready_def)
    obtain ob where ob: "heap w (fat_ptr tc) = Some ob" "counters_ptr ob = a"
      using inv_trackD(2) [OF invD(8) [OF i] tc(1)] by (auto dest: meta_SomeD)
    have "w' = Sdarc_Free_Steps.freed a (fat_ptr tc) ob fs w"
      using c f tc ob drop_sdarc_inner_freed [OF ready_content [OF i dd ob(1)] ob(2)] by (simp add: free_pointers_def)
    then show ?thesis
      using invD(1) [OF i] free_strong [OF invD(6) [OF i] ob(1) idle] by (auto simp: inv_shape_def)
  next
    case False
    have "handles w' = handles w \<and> atomics w' = atomics w \<and> threads w' = threads w
      \<and> (\<forall>x. map_option weak_inner_ref (heap w' x) = map_option weak_inner_ref (heap w x))"
      using c False by (cases "cpc (coll w)") (auto simp: collector_defs set_obj_def free_pointers_def
        split: if_splits option.splits payload.splits sum.splits list.splits TrackedCounterState.splits
          ClearWeakBackRefResult.splits prod.splits)
    moreover from this have "owned (heap w') = owned (heap w)"
      unfolding owned_def meta_def fun_eq_iff by (auto simp: map_option_case split: option.splits) (metis option.distinct(1) option.inject)+
    ultimately show ?thesis by (auto simp: strong_def fun_eq_iff)
  qed
qed


lemma destructor_cases:
  assumes st: "user_step 0 act w = Next w'" and a: "act = Continue \<or> (\<exists>p. act = Drop p)" and o: "own_code w"
  obtains (drop) p where "pc (threads w ! 0) = Idle" "0 < handles w p" "w' = goto 0 (DropDec p) (lose p w)"
  | (dec) p ob where "pc (threads w ! 0) = DropDec p" "heap w p = Some ob"
      "w' = goto 0 (DropNotify p) (set_obj p (ob\<lparr>counters := (counters ob)[shard_of 0 w := itc_decrement (counters ob ! shard_of 0 w)]\<rparr>) w)"
  | (notify) p ob where "pc (threads w ! 0) = DropNotify p" "heap w p = Some ob"
      "w' = return 0 NoRet (on_sdarc_drop 0 (counters_ptr ob) w)"
proof (cases "pc (threads w ! 0) = Idle")
  case True
  then show thesis using st a drop by (auto simp: user_step_def Sdarc_drop_def split: if_splits)
next
  case False
  then show thesis using st o dec notify
    by (auto simp: user_step_def own_code_def Sdarc_drop_decrement_def Sdarc_drop_notify_def modify_counter_def
        split: if_splits option.splits)
qed

lemma destructor_strong:
  assumes st: "user_step 0 act w = Next w'" and a: "act = Continue \<or> (\<exists>p. act = Drop p)" and o: "own_code w" and ne: "threads w \<noteq> []"
  shows "strong w' x + of_bool (pc (threads w ! 0) = DropDec x) = strong w x"
  using st a o
proof (cases rule: destructor_cases)
  case (drop p)
  then have "int (strong w' x) = int (strong w x)"
    using ne by (auto simp: world_ops strong_calc)
  then show ?thesis using drop by simp
next
  case (dec p ob)
  then have "int (strong w' x) + of_bool (x = p) = int (strong w x)"
    using ne by (auto simp: world_ops strong_calc)
  then show ?thesis using dec by auto
next
  case (notify p ob)
  then have "int (strong w' x) = int (strong w x)"
    using ne by (auto simp: world_ops strong_calc)
  then show ?thesis using notify by simp
qed

lemma destructor_own_code:
  assumes st: "user_step 0 act w = Next w'" and a: "act = Continue \<or> (\<exists>p. act = Drop p)" and o: "own_code w" and ne: "threads w \<noteq> []"
  shows "own_code w'" "pc (threads w ! 0) = DropDec p \<Longrightarrow> pc (threads w' ! 0) = DropNotify p"
    "pc (threads w' ! 0) = DropNotify p \<Longrightarrow> pc (threads w ! 0) = DropDec p"
proof -
  have u: "cpc (coll w) = UserDrop" using st by (simp add: user_step_def split: if_splits)
  show "own_code w'" using st a o
    by (cases rule: destructor_cases) (use u ne in \<open>auto simp: own_code_def world_ops\<close>)
  show "pc (threads w ! 0) = DropDec p \<Longrightarrow> pc (threads w' ! 0) = DropNotify p" using st a o
    by (cases rule: destructor_cases) (use u ne in \<open>auto simp: world_ops\<close>)
  show "pc (threads w' ! 0) = DropNotify p \<Longrightarrow> pc (threads w ! 0) = DropDec p" using st a o
    by (cases rule: destructor_cases) (use u ne in \<open>auto simp: world_ops\<close>)
qed

section \<open>The invariant\<close>

text \<open>
  Every object is on its way: without a reference it is due, or the collector thread is about to note the
  drop of its last handle; with one, the collector has not found it unreferenced. Nothing is left in the
  pending lists that have been taken.
\<close>

definition none_pending :: "world \<Rightarrow> bool" where
  "none_pending w \<longleftrightarrow> (\<forall>j < length (pending_to_track w).
     (case cpc (coll w) of TakeNew i \<Rightarrow> j < i | _ \<Rightarrow> True) \<longrightarrow> pending_to_track w ! j = [])"

definition live :: "world \<Rightarrow> ptr \<Rightarrow> bool" where
  "live w p \<longleftrightarrow> 0 < strong w p \<or> pc (threads w ! 0) = DropNotify p"

definition undecided :: "world \<Rightarrow> bool" where
  "undecided w \<longleftrightarrow>
     (\<forall>a tc. map_of (tracked_counters (coll w)) a = Some tc \<longrightarrow> live w (fat_ptr tc) \<longrightarrow> tstate tc = DefaultState)
   \<and> (case cpc (coll w) of
        PreRead a y i acc \<Rightarrow> i \<le> shards w \<and> (\<forall>ob. heap w y = Some ob \<longrightarrow> acc = partial_sum i ob)
      | ClearRead a y i acc \<Rightarrow> \<not> live w y
      | ReCheck a y i acc \<Rightarrow> \<not> live w y
      | ClearWeak a y \<Rightarrow> \<not> live w y
      | _ \<Rightarrow> True)"

definition swept :: "world \<Rightarrow> bool" where
  "swept w \<longleftrightarrow> (\<forall>p. heap w p \<noteq> None \<longrightarrow> \<not> live w p \<longrightarrow> due w p)"


definition sweeping :: "world \<Rightarrow> bool" where
  "sweeping w \<longleftrightarrow> own_code w \<and> none_pending w \<and> undecided w \<and> swept w"

section \<open>Steps of destructors\<close>

lemma destructor_pending:
  assumes st: "user_step 0 act w = Next w'" and a: "act = Continue \<or> (\<exists>p. act = Drop p)" and o: "own_code w"
  shows "pending_to_track w' = pending_to_track w" "heap w' x = None \<longleftrightarrow> heap w x = None"
    "pc (threads w ! 0) \<noteq> DropDec x \<Longrightarrow> heap w' x = heap w x"
    "pc (threads w ! 0) = DropNotify x \<Longrightarrow> heap w x = Some ob \<Longrightarrow> counters_ptr ob \<in> set (counters_to_recheck (coll w'))"
  using st a o by (cases rule: destructor_cases; auto simp: world_ops set_insort_insert)+

lemma destructor_live:
  assumes st: "user_step 0 act w = Next w'" and a: "act = Continue \<or> (\<exists>p. act = Drop p)" and o: "own_code w" and ne: "threads w \<noteq> []"
  shows "live w' p \<Longrightarrow> live w p"
    "\<not> live w' p \<Longrightarrow> pc (threads w ! 0) = DropNotify p \<or> (\<not> live w p \<and> pc (threads w ! 0) \<noteq> DropDec p)"
  using destructor_strong [OF st a o ne, of p] destructor_own_code(2,3) [OF st a o ne, of p]
  by (cases "pc (threads w ! 0) = DropDec p"; auto simp: live_def)+

lemma destructor_sweeping:
  assumes w: "reachable w" and s: "sweeping w" and st: "user_step 0 act w = Next w'" and a: "act = Continue \<or> (\<exists>p. act = Drop p)"
  shows "sweeping w'"
proof -
  have i: "inv w" by (rule reachable_inv [OF w])
  have o: "own_code w" and np: "none_pending w" and ud: "undecided w" and sw: "swept w" using s by (simp_all add: sweeping_def)
  have ne: "threads w \<noteq> []" using invD(1) [OF i] by (simp add: inv_shape_def)
  have c: "cpc (coll w) = UserDrop" using st by (simp add: user_step_def split: if_splits)
  note k = user_coll_kept [OF st]
  then obtain xs where xs: "coll w' = (coll w)\<lparr>counters_to_recheck := xs\<rparr>" by (auto simp: coll_kept_def)
  note dp = destructor_pending [OF st a o] and dl = destructor_live [OF st a o ne]
  have "none_pending w'" using np c by (simp add: none_pending_def dp(1) xs)
  moreover have "undecided w'" using ud c dl(1) by (auto simp: undecided_def xs)
  moreover have "due w' p" if p: "heap w' p \<noteq> None" "\<not> live w' p" for p
  proof (cases "pc (threads w ! 0) = DropNotify p")
    case True
    obtain ob where ob: "heap w p = Some ob" using p(1) dp(2) [of p] by auto
    have "concat (pending_to_track w) = []" using np c by (auto simp: none_pending_def in_set_conv_nth)
    then obtain tc where tc: "map_of (tracked_counters (coll w)) (counters_ptr ob) = Some tc" "fat_ptr tc = p"
      using inv_trackD(6) [OF invD(8) [OF i], of p "counters_ptr ob"] meta_SomeI [of "heap w" p ob, OF ob] by auto
    have "tstate tc = DefaultState" using ud tc True by (auto simp: undecided_def live_def)
    then show ?thesis using dp(3) [of p] dp(4) [OF True ob] True tc ob c by (auto simp: due_def xs queued_def)
  next
    case False
    with dl(2) [OF p(2)] have "\<not> live w p" "heap w' p = heap w p" using dp(3) by auto
    then show ?thesis using sw p(1) due_kept [OF _ k] by (simp add: swept_def)
  qed
  ultimately show ?thesis using destructor_own_code(1) [OF st a o ne] by (simp add: sweeping_def swept_def)
qed

section \<open>Steps of the collector\<close>

lemma partial_sum_strong:
  assumes "inv w" "heap w p = Some ob"
  shows "partial_sum (shards w) ob = int (strong w p)"
  using invD(2,3) [OF assms(1)] assms(2) by (simp add: inv_len_def inv_count_def partial_sum_def)

lemma collector_live:
  assumes "safe w" "collector_step w = Next w'"
  shows "live w' p \<longleftrightarrow> live w p"
  using collector_strong [OF assms] collector_thread0 [OF assms(2)] assms(2)
  by (auto simp: live_def collector_step_def split: if_splits)

lemma collector_swept:
  assumes w: "reachable w" and sw: "swept w" and st: "collector_step w = Next w'"
    and l: "loop_counter (coll w') \<noteq> max_inner_iterations"
  shows "swept w'"
  unfolding swept_def
proof (intro allI impI)
  fix p
  assume p: "heap w' p \<noteq> None" "\<not> live w' p"
  have s: "safe w" by (rule sys.reach_inv [OF w])
  have c: "collector_at (cpc (coll w)) w = Next w'" using st by (simp add: collector_step_def split: if_splits)
  obtain ob where ob: "heap w p = Some ob" using collector_data [OF c] p(1) by auto
  have "\<not> live w p" using p(2) collector_live [OF s st] by simp
  then have "due w p" "strong w p = 0" using sw ob by (auto simp: swept_def live_def)
  then show "due w' p" using collector_due [OF w ob _ _ st p(1) l] by blast
qed

lemma collector_none_pending:
  assumes i: "inv w" and np: "none_pending w" and st: "collector_at (cpc (coll w)) w = Next w'"
  shows "none_pending w'"
proof (cases "cpc (coll w)")
  case (TakeNew k)
  show ?thesis
  proof (cases "k < shards w")
    case True
    then have "pending_to_track w' = (pending_to_track w)[k := []]" "cpc (coll w') = TakeNew (Suc k)"
      using st TakeNew by (auto simp: take_new_counters_to_track_def split: sum.splits)
    then show ?thesis using np TakeNew by (auto simp: none_pending_def less_Suc_eq nth_list_update)
  next
    case False
    then have "pending_to_track w' = pending_to_track w" "cpc (coll w') = SpinScan 0"
      using st TakeNew by (auto simp: take_new_counters_to_track_def start_pass_def)
    then show ?thesis using np TakeNew False invD(1) [OF i] by (auto simp: none_pending_def inv_shape_def)
  qed
next
  case Parked
  then show ?thesis using st by (auto simp: none_pending_def cgoto_def)
qed (use np st in \<open>auto simp: none_pending_def collector_defs set_obj_def free_pointers_def drop_sdarc_inner_def goto_def
    set_thread_def Let_def finish_visit_def end_pass_def start_pass_def
      split: if_splits option.splits payload.splits sum.splits list.splits TrackedCounterState.splits
        ClearWeakBackRefResult.splits prod.splits\<close>)


lemma undecided_visit:
  assumes st: "visit w = Next w'" "cpc (coll w) = Visit" and ud: "undecided w" and lv: "\<And>p. live w' p \<longleftrightarrow> live w p"
  shows "undecided w'"
proof -
  have t: "tracked_counters (coll w') = tracked_counters (coll w)"
    using st(1) by (auto simp: visit_def cgoto_def split: list.splits option.splits TrackedCounterState.splits)
  have "\<not> live w y" if "map_of (tracked_counters (coll w)) a = Some tc" "tstate tc = RequiresReChecking" "y = fat_ptr tc" for a tc y
    using ud that by (auto simp: undecided_def)
  then have "case cpc (coll w') of PreRead a y i acc \<Rightarrow> i \<le> shards w' \<and> (\<forall>ob. heap w' y = Some ob \<longrightarrow> acc = partial_sum i ob)
      | ClearRead a y i acc \<Rightarrow> \<not> live w' y | ReCheck a y i acc \<Rightarrow> \<not> live w' y | ClearWeak a y \<Rightarrow> \<not> live w' y | _ \<Rightarrow> True"
    using st unfolding lv by (auto simp: visit_def cgoto_def split: list.splits option.splits TrackedCounterState.splits)
  then show ?thesis using ud unfolding undecided_def lv t by blast
qed

lemma undecided_finish:
  assumes ud: "undecided w" and lv: "\<And>p. live w' p \<longleftrightarrow> live w p" and s: "sorted_keys (tracked_counters (coll w))"
    and c: "coll w' = finish_visit a y r (coll w)" and r: "live w y \<Longrightarrow> r = DefaultState"
  shows "undecided w'"
  using ud r by (auto simp: undecided_def lv c finish_visit_def map_of_map_insert s split: if_splits)

lemma undecided_goto:
  assumes ud: "undecided w" and lv: "\<And>p. live w' p \<longleftrightarrow> live w p" and n: "\<not> live w y"
    and c: "coll w' = (coll w)\<lparr>cpc := q\<rparr>" "(\<exists>a k v. q = ClearRead a y k v \<or> q = ReCheck a y k v) \<or> (\<exists>a. q = ClearWeak a y)"
  shows "undecided w'"
  using ud n c(2) by (auto simp: undecided_def lv c(1))

lemma undecided_pre_read:
  assumes i: "inv w" and ud: "undecided w" and st: "read_ref_count_sum_relaxed a y k acc w = Next w'"
    and idle: "pc (threads w ! 0) = Idle" and lv: "\<And>p. live w' p \<longleftrightarrow> live w p" and PreRead: "cpc (coll w) = PreRead a y k acc"
  shows "undecided w'"
proof -
  obtain ob where ob: "heap w y = Some ob" "counters_ptr ob = a" "length (counters ob) = shards w"
    by (rule visiting_facts [OF i, of a y]) (use PreRead in auto)
  have acc: "k \<le> shards w" "acc = partial_sum k ob" using ud PreRead ob by (auto simp: undecided_def)
  consider (more) "k < shards w" | (zero) "k = shards w" "acc = 0" | (sum) "k = shards w" "acc \<noteq> 0" using acc by linarith
  then show ?thesis
  proof cases
    case more
    then have "w' = cgoto (PreRead a y (Suc k) (acc + itc_ref_count (counters ob ! k))) w"
      using st ob by (simp add: read_ref_count_sum_relaxed_def at_slot_def)
    then show ?thesis using ud more acc ob lv partial_sum_Suc [of k ob] by (auto simp: undecided_def cgoto_def)
  next
    case zero
    then have "w' = cgoto (ClearRead a y 0 0) w" using st by (simp add: read_ref_count_sum_relaxed_def)
    moreover have "\<not> live w y" using zero acc partial_sum_strong [OF i ob(1)] idle by (simp add: live_def)
    ultimately show ?thesis using ud lv by (auto simp: undecided_def cgoto_def)
  next
    case sum
    then have "coll w' = finish_visit a y DefaultState (coll w)" using st by (auto simp: read_ref_count_sum_relaxed_def)
    then show ?thesis by (rule undecided_finish [OF ud lv inv_trackD(1) [OF invD(8) [OF i]]]) simp
  qed
qed

lemma undecided_scan:
  assumes i: "inv w" and ud: "undecided w" and st: "collector_at (cpc (coll w)) w = Next w'" and idle: "pc (threads w ! 0) = Idle"
    and lv: "\<And>p. live w' p \<longleftrightarrow> live w p" and v: "visiting (cpc (coll w)) \<noteq> None"
  shows "undecided w'"
proof -
  have s: "sorted_keys (tracked_counters (coll w))" using inv_trackD(1) [OF invD(8) [OF i]] .
  have sh: "shards w' = shards w" using collector_shards [OF st] by simp
  note fin = undecided_finish [OF ud lv s]
  show ?thesis
  proof (cases "cpc (coll w)")
    case (PreRead a y k acc)
    then show ?thesis using undecided_pre_read [OF i ud _ idle lv PreRead] st by simp
  next
    case (ClearRead a y k acc)
    then have n: "\<not> live w y" using ud by (simp add: undecided_def)
    from ClearRead st have "(\<exists>v. coll w' = (coll w)\<lparr>cpc := ClearRead a y (Suc k) v\<rparr>) \<or> (\<exists>r. coll w' = finish_visit a y r (coll w))"
      by (auto simp: clear_tags_and_read_ref_count_sum_relaxed_def at_slot_def cgoto_def set_obj_def split: if_splits option.splits)
    then show ?thesis using undecided_goto [OF ud lv n] fin [of a y] n by blast
  next
    case (ReCheck a y k acc)
    then have n: "\<not> live w y" using ud by (simp add: undecided_def)
    from ReCheck st have "(\<exists>v. coll w' = (coll w)\<lparr>cpc := ReCheck a y (Suc k) v\<rparr>) \<or> coll w' = (coll w)\<lparr>cpc := ClearWeak a y\<rparr>
        \<or> (\<exists>r. coll w' = finish_visit a y r (coll w))"
      by (auto simp: read_ref_count_sum_if_all_tags_unset_acquire_def at_slot_def cgoto_def split: if_splits option.splits)
    then show ?thesis using undecided_goto [OF ud lv n] fin [of a y] n by blast
  next
    case (ClearWeak a y)
    then have n: "\<not> live w y" using ud by (simp add: undecided_def)
    have "cpc (coll w') = Visit"
      using st ClearWeak by (auto simp: clear_weak_back_ref_def finish_visit_def split: sum.splits ClearWeakBackRefResult.splits prod.splits)
    with scan_coll [of "ClearWeak a y" a y w w'] ClearWeak st obtain r where "coll w' = finish_visit a y r (coll w)" by auto
    then show ?thesis by (rule fin) (use n in simp)
  qed (use v in simp_all)
qed

lemma undecided_tracked:
  assumes ud: "undecided w" and lv: "\<And>p. live w' p \<longleftrightarrow> live w p" and v: "visiting (cpc (coll w')) = None"
    and t: "\<And>a tc. map_of (tracked_counters (coll w')) a = Some tc \<Longrightarrow>
       map_of (tracked_counters (coll w)) a = Some tc \<or> tstate tc = DefaultState"
  shows "undecided w'"
  using ud t v unfolding undecided_def lv by (cases "cpc (coll w')") auto

lemma undecided_take_new:
  assumes i: "inv w" and ud: "undecided w" and lv: "\<And>p. live w' p \<longleftrightarrow> live w p" and st: "take_new_counters_to_track k w = Next w'"
  shows "undecided w'"
proof (cases "k < shards w")
  case True
  then have k: "k < length (pending_to_track w)" using invD(1) [OF i] by (simp add: inv_shape_def)
  obtain m where m: "track_new (pending_to_track w ! k) (tracked_counters (coll w)) = Inr m"
    "\<And>a tc. map_of m a = Some tc \<Longrightarrow> map_of (tracked_counters (coll w)) a = Some tc \<or> tstate tc = DefaultState"
    by (rule take_new_track [OF invD(8) [OF i] k]) (rule that)
  show ?thesis using st True m(1)
    by (intro undecided_tracked [OF ud lv]) (auto simp: take_new_counters_to_track_def dest: m(2))
next
  case False
  then show ?thesis using st
    by (intro undecided_tracked [OF ud lv]) (auto simp: take_new_counters_to_track_def start_pass_def)
qed

lemma undecided_free:
  assumes i: "inv w" and ud: "undecided w" and lv: "\<And>p. live w' p \<longleftrightarrow> live w p" and st: "free_pointers w = Next w'"
  shows "undecided w'"
proof (cases "to_free (coll w)")
  case Nil
  then show ?thesis using st
    by (intro undecided_tracked [OF ud lv]) (auto simp: free_pointers_def end_pass_def start_pass_def Let_def split: if_splits)
next
  case (Cons a fs)
  with st have "coll w' = (coll w)\<lparr>to_free := fs, tracked_counters := map_remove a (tracked_counters (coll w)), cpc := UserDrop\<rparr>"
    by (auto simp: free_pointers_def drop_sdarc_inner_def Let_def cgoto_def goto_def set_thread_def
      split: option.splits if_splits payload.splits)
  then show ?thesis using inv_trackD(1) [OF invD(8) [OF i]]
    by (intro undecided_tracked [OF ud lv]) (auto simp: map_of_map_remove split: if_splits)
qed

lemma collector_undecided:
  assumes w: "reachable w" and ud: "undecided w" and st: "collector_step w = Next w'"
  shows "undecided w'"
proof -
  have s: "safe w" and i: "inv w" using sys.reach_inv [OF w] reachable_inv [OF w] by simp_all
  have c: "collector_at (cpc (coll w)) w = Next w'" and idle: "pc (threads w ! 0) = Idle"
    using st by (auto simp: collector_step_def split: if_splits)
  note lv = collector_live [OF s st]
  show ?thesis
  proof (cases "visiting (cpc (coll w))")
    case None
    show ?thesis
    proof (cases "cpc (coll w)")
      case Visit
      then show ?thesis using undecided_visit [OF _ Visit ud lv] c by simp
    next
      case (TakeNew k)
      then show ?thesis using undecided_take_new [OF i ud lv] c by simp
    next
      case Freeing
      then show ?thesis using undecided_free [OF i ud lv] c by simp
    qed (rule undecided_tracked [OF ud lv]; use None c in \<open>auto simp: cgoto_def spin_scan_def spin_wait_def
        split: if_splits list.splits\<close>)+
  qed (use undecided_scan [OF i ud c idle lv] in simp)
qed

lemma collector_sweeping:
  assumes w: "reachable w" and s: "sweeping w" and st: "collector_step w = Next w'"
    and l: "loop_counter (coll w') \<noteq> max_inner_iterations"
  shows "sweeping w'"
proof -
  have c: "collector_at (cpc (coll w)) w = Next w'" using st by (simp add: collector_step_def split: if_splits)
  show ?thesis using s collector_own_code [OF st] collector_none_pending [OF reachable_inv [OF w] _ c]
      collector_undecided [OF w _ st] collector_swept [OF w _ st l]
    by (simp add: sweeping_def)
qed


section \<open>A whole update\<close>

lemma start_sweeping:
  assumes w: "reachable w" "at_rest w" "loop_counter (coll w) \<noteq> max_inner_iterations" and st: "collector_step w = Next w1"
  shows "sweeping w1" "loop_counter (coll w1) \<noteq> max_inner_iterations"
proof -
  have pk: "cpc (coll w) = Parked" and idle: "pc (threads w ! 0) = Idle" using w(2) by (simp_all add: at_rest_def)
  have w1: "w1 = cgoto (TakeNew 0) w" using st pk idle by (simp add: collector_step_def)
  then show "loop_counter (coll w1) \<noteq> max_inner_iterations" using w(3) by (simp add: cgoto_def)
  have "swept w1" using due_start [OF w(1) pk w(3)] by (auto simp: swept_def w1 cgoto_def)
  moreover have "undecided w1" using parked_default(1) [OF w(1) pk w(3)] by (auto simp: undecided_def w1 cgoto_def)
  ultimately show "sweeping w1" using idle by (simp add: sweeping_def own_code_def none_pending_def w1 cgoto_def)
qed

lemma drops_sys_step: "drops w w' \<Longrightarrow> threads w \<noteq> [] \<Longrightarrow> sys_step w w'"
proof (induction rule: drops.induct)
  case (collector w w')
  then show ?case by (intro sys_step.intros [of Collector]) simp
next
  case (destructor act w w')
  then show ?case by (intro sys_step.intros [of "User 0 act"]) auto
qed

text \<open>The update has stopped at its limit, or the sweep goes on.\<close>

definition sweep_or_limit :: "world \<Rightarrow> bool" where
  "sweep_or_limit w \<longleftrightarrow> reachable w \<and> ((cpc (coll w) = Parked \<and> loop_counter (coll w) = max_inner_iterations)
     \<or> (sweeping w \<and> loop_counter (coll w) \<noteq> max_inner_iterations))"

lemma drops_sweep:
  assumes s: "sweep_or_limit w" and d: "drops w w'"
  shows "sweep_or_limit w'"
proof -
  have r: "reachable w" using s by (simp add: sweep_or_limit_def)
  have "threads w \<noteq> []" using invD(1) [OF reachable_inv [OF r]] by (simp add: inv_shape_def)
  with d drops_sys_step reach_step [OF r] have r': "reachable w'" by blast
  from d show ?thesis
  proof cases
    case collector
    have sw: "sweeping w" "loop_counter (coll w) \<noteq> max_inner_iterations" using s collector(2) by (auto simp: sweep_or_limit_def)
    have "cpc (coll w') = Parked" if m: "loop_counter (coll w') = max_inner_iterations"
    proof (rule ccontr)
      assume "cpc (coll w') \<noteq> Parked"
      then obtain k where k: "cpc (coll w') = TakeNew k" using loop.reach_inv [OF r'] m by (auto simp: inv_loop_def)
      then have "loop_counter (coll w') = loop_counter (coll w)"
        using collector by (cases "cpc (coll w)") (auto simp: collector_step_def collector_defs set_obj_def free_pointers_def
          drop_sdarc_inner_def goto_def set_thread_def Let_def finish_visit_def end_pass_def start_pass_def
          split: if_splits option.splits payload.splits sum.splits list.splits TrackedCounterState.splits
            ClearWeakBackRefResult.splits prod.splits)
      with m sw(2) show False by simp
    qed
    then show ?thesis using r' collector_sweeping [OF r sw(1) collector(1)] by (auto simp: sweep_or_limit_def)
  next
    case (destructor act)
    have "cpc (coll w) = UserDrop" using destructor(1) by (simp add: user_step_def split: if_splits)
    then have sw: "sweeping w" "loop_counter (coll w) \<noteq> max_inner_iterations" using s by (auto simp: sweep_or_limit_def)
    have "loop_counter (coll w') = loop_counter (coll w)" using user_coll(1) [OF destructor(1)] by auto
    then show ?thesis using r' sw destructor_sweeping [OF r sw(1) destructor] by (simp add: sweep_or_limit_def)
  qed
qed

lemma drops_sweeps: "drops\<^sup>*\<^sup>* w w' \<Longrightarrow> sweep_or_limit w \<Longrightarrow> sweep_or_limit w'"
  by (induction rule: rtranclp_induct) (auto intro: drops_sweep)

text \<open>
  C7: deep structures are collected in one update. Take a reachable state in which the collector is parked
  and its last update did not stop at the limit of inner iterations, and an update from there in which
  the other threads stand still while destructors drop any handles in the collector thread. If the update
  ends and has not stopped at the limit, exactly the referenced objects are allocated: whatever lost its
  last handle in the update itself, at any depth, has been freed too.
\<close>

theorem deep_structures_collected:
  assumes "reachable w" "at_rest w" "loop_counter (coll w) \<noteq> max_inner_iterations"
    and "collector_step w = Next w1" "drops\<^sup>*\<^sup>* w1 w2"
    and "cpc (coll w2) = Parked" "loop_counter (coll w2) \<noteq> max_inner_iterations"
  shows "heap w2 p \<noteq> None \<longleftrightarrow> 0 < strong w2 p"
proof -
  have "sys_step w w1" using assms(4) by (intro sys_step.intros [of Collector]) simp
  then have "reachable w1" using assms(1) by (blast intro: reach_step)
  then have "sweep_or_limit w1" using start_sweeping [OF assms(1-4)] by (simp add: sweep_or_limit_def)
  from drops_sweeps [OF assms(5) this] assms(7) have s: "sweeping w2" and r: "reachable w2" by (auto simp: sweep_or_limit_def)
  have "pc (threads w2 ! 0) = Idle" using s assms(6) by (simp add: sweeping_def own_code_def)
  moreover have "\<not> due w2 p" using assms(6) by (auto simp: due_def)
  ultimately have "0 < strong w2 p" if "heap w2 p \<noteq> None" using that s by (auto simp: sweeping_def swept_def live_def)
  then show ?thesis using invD(4) [OF reachable_inv [OF r]] by (auto simp: inv_alive_def)
qed


text \<open>
  A parent whose data owns the only handle of a child: thread 1 has created both, moved the handle of the
  child into the data of the parent, and dropped the parent.
\<close>

fun drops_run :: "event list \<Rightarrow> world \<Rightarrow> outcome" where
  "drops_run [] w = Next w"
| "drops_run (Collector # es) w =
     (if cpc (coll w) = Parked then Disabled else case collector_step w of Next w' \<Rightarrow> drops_run es w' | r \<Rightarrow> r)"
| "drops_run (User t act # es) w = (case user_step 0 act w of Next w' \<Rightarrow> drops_run es w' | r \<Rightarrow> r)"

definition family :: world where
  "family = \<lparr>shards = 1,
     heap = [10 \<mapsto> \<lparr>counters_ptr = 20, counters = [1], weak_inner_ref = None, data = UserData 7\<rparr>,
       11 \<mapsto> \<lparr>counters_ptr = 21, counters = [2], weak_inner_ref = None, data = UserData 8\<rparr>],
     used_slots = {20, 21}, atomics = [], handles = (\<lambda>_. 0)(11 := 1),
     threads = [\<lparr>shard_index = 0, pc = Idle, ret = NoRet\<rparr>, \<lparr>shard_index = 0, pc = Idle, ret = NoRet\<rparr>],
     critical = [0], pending_to_track = [[(10, 20), (11, 21)]], coll = init_collector\<rparr>"

lemma family_reachable: "reachable family"
proof (rule run_reachable)
  show "uc_run [User 1 (New 10 20 7), User 1 (New 11 21 8), User 1 (Drop 10), User 1 Continue, User 1 Continue]
      (init_world 1 [0, 0] 0) = Next family"
    by (auto simp: family_def exec_defs fun_eq_iff)
qed simp_all

definition family_run :: "event list" where
  "family_run = replicate 24 Collector @ [User 0 (Drop 11), User 0 Continue, User 0 Continue] @ replicate 23 Collector"

lemma drops_run_replicate:
  "drops_run (replicate (numeral n) Collector @ es) w =
     (if cpc (coll w) = Parked then Disabled else case collector_step w of Next w' \<Rightarrow> drops_run (replicate (pred_numeral n) Collector @ es) w' | r \<Rightarrow> r)"
  by (simp add: numeral_eq_Suc)

lemma drops_run_drops:
  "drops_run es w = Next w' \<Longrightarrow> \<forall>t act. User t act \<in> set es \<longrightarrow> act = Continue \<or> (\<exists>p. act = Drop p) \<Longrightarrow> drops\<^sup>*\<^sup>* w w'"
proof (induction es w rule: drops_run.induct)
  case (2 es w)
  then show ?case by (auto split: if_splits outcome.splits intro: converse_rtranclp_into_rtranclp drops.collector)
next
  case (3 t act es w)
  then obtain w1 where "user_step 0 act w = Next w1" "drops_run es w1 = Next w'" by (auto split: outcome.splits)
  moreover have "drops w w1" by (rule drops.destructor [OF calculation(1)]) (use 3 in auto)
  ultimately show ?case using 3 by (auto intro: converse_rtranclp_into_rtranclp)
qed simp

lemma family_runs:
  "\<exists>w2. drops_run family_run (cgoto (TakeNew 0) family) = Next w2 \<and> cpc (coll w2) = Parked
     \<and> loop_counter (coll w2) = 3 \<and> heap w2 11 = None"
  unfolding family_run_def
  by (simp add: family_def drops_run_replicate drops_run_replicate [where es = "[]", simplified] exec_defs)

theorem deep_structures_collected_witness:
  "at_rest family \<and> strong family 10 = 0 \<and> 0 < strong family 11
   \<and> (\<exists>w1 w2. collector_step family = Next w1 \<and> drops\<^sup>*\<^sup>* w1 w2 \<and> cpc (coll w2) = Parked
        \<and> (heap w2 11 \<noteq> None \<longleftrightarrow> 0 < strong w2 11) \<and> heap w2 11 = None)"
proof -
  have a: "at_rest family" "loop_counter (coll family) \<noteq> max_inner_iterations"
    by (simp_all add: at_rest_def family_def init_collector_def max_inner_iterations_def)
  have c: "collector_step family = Next (cgoto (TakeNew 0) family)"
    by (simp add: collector_step_def family_def init_collector_def)
  obtain w2 where w2: "drops_run family_run (cgoto (TakeNew 0) family) = Next w2" "cpc (coll w2) = Parked"
    "loop_counter (coll w2) = 3" "heap w2 11 = None" using family_runs by blast
  have d: "drops\<^sup>*\<^sup>* (cgoto (TakeNew 0) family) w2" by (rule drops_run_drops [OF w2(1)]) (auto simp: family_run_def)
  have "heap w2 11 \<noteq> None \<longleftrightarrow> 0 < strong w2 11"
    by (rule deep_structures_collected [OF family_reachable a c d w2(2)]) (simp add: w2(3) max_inner_iterations_def)
  moreover have "strong family 10 = 0" "0 < strong family 11"
    by (auto simp: strong_def family_def owned_def meta_def split: if_splits)
  ultimately show ?thesis using a(1) c d w2(2,4) by (intro conjI exI [of _ "cgoto (TakeNew 0) family"] exI [of _ w2])
qed

end
