(* ===== verification/Sdarc_VTable.thy ===== *)
theory Sdarc_VTable
  imports Sdarc_Safety
begin

text \<open>
  Type-erased pointers. The collector handles objects of different types through \<open>SdarcInnerFatPtr\<close>, a
  pointer without its type together with a table of functions made for the type, in
  \<^verbatim>\<open>src/src/sdarc.rs\<close>. The other theories call the functions directly; here the call goes through the
  table, and the cast back is correct only for an object of that type.

  Two things outside the source are parameters: \<open>ut\<close>, the type of a value of user data, and \<open>offset\<close>,
  where the compiler puts the field \<open>counters\<close> in \<open>SdarcInner<T>\<close>.
\<close>

section \<open>Types and casts\<close>

datatype erased_type = UserType nat | WeakType

fun type_of :: "(nat \<Rightarrow> nat) \<Rightarrow> payload \<Rightarrow> erased_type" where
  "type_of ut (UserData v) = UserType (ut v)"
| "type_of ut (WeakSdarcInner b) = WeakType"

datatype cast_error = Dangling | WrongType

text \<open>Reading memory through \<open>into_typed::<T>\<close>; the code does not check, a wrong cast is undefined behaviour.\<close>

definition into_typed :: "(nat \<Rightarrow> nat) \<Rightarrow> erased_type \<Rightarrow> ptr \<Rightarrow> world \<Rightarrow> cast_error + SdarcInner" where
  "into_typed ut T p w = (case heap w p of None \<Rightarrow> Inl Dangling
     | Some ob \<Rightarrow> if type_of ut (data ob) = T then Inr ob else Inl WrongType)"

section \<open>The functions in the table\<close>

text \<open>The assertion in the destructor of \<open>WeakSdarcInner\<close>.\<close>

definition WeakSdarcInner_drop :: "payload \<Rightarrow> unit result" where
  "WeakSdarcInner_drop d = (case d of WeakSdarcInner (Some b) \<Rightarrow> Inl AssertionFailed | _ \<Rightarrow> Inr ())"

text \<open>Dropping the box of an \<open>SdarcInner<T>\<close>: the destructor of the data is that of the static type.\<close>

definition drop_sdarc_inner_impl :: "(nat \<Rightarrow> nat) \<Rightarrow> erased_type \<Rightarrow> ptr \<Rightarrow> world \<Rightarrow> cast_error + outcome" where
  "drop_sdarc_inner_impl ut T p w =
     res_bind (into_typed ut T p w) (\<lambda>ob. Inr
       (let w1 = w\<lparr>heap := (heap w)(p := None), used_slots := used_slots w - {counters_ptr ob}\<rparr>;
            w2 = (case weak_inner_ref ob of None \<Rightarrow> w1 | Some q \<Rightarrow> goto 0 (DropDec q) w1)
        in case T of
             WeakType \<Rightarrow> (case WeakSdarcInner_drop (data ob) of Inl e \<Rightarrow> Fault (BackRefNotCleared p) | Inr _ \<Rightarrow> Next (cgoto UserDrop w2))
           | UserType _ \<Rightarrow> Next (cgoto UserDrop w2)))"

definition clear_weak_backref_typed :: "(nat \<Rightarrow> nat) \<Rightarrow> erased_type \<Rightarrow> ptr \<Rightarrow> world
    \<Rightarrow> cast_error + (fault + ClearWeakBackRefResult \<times> world)" where
  "clear_weak_backref_typed ut T p w = res_bind (into_typed ut T p w) (\<lambda>_. Inr (clear_weak_backref_impl p w))"

record SdarcVTable =
  offset_of_counter :: nat
  vt_clear_weak_backref :: "ptr \<Rightarrow> world \<Rightarrow> cast_error + (fault + ClearWeakBackRefResult \<times> world)"
  vt_drop_sdarc_inner :: "ptr \<Rightarrow> world \<Rightarrow> cast_error + outcome"

definition get_sdarc_vtable_ref :: "(nat \<Rightarrow> nat) \<Rightarrow> (erased_type \<Rightarrow> nat) \<Rightarrow> erased_type \<Rightarrow> SdarcVTable" where
  "get_sdarc_vtable_ref ut offset T = \<lparr>offset_of_counter = offset T,
     vt_clear_weak_backref = clear_weak_backref_typed ut T, vt_drop_sdarc_inner = drop_sdarc_inner_impl ut T\<rparr>"

record SdarcInnerFatPtr =
  erased_ptr :: ptr
  vtable_ref :: SdarcVTable

text \<open>The bytes at an offset are the box of the counters only at the offset of the object's own type.\<close>

definition get_counters_ptr :: "(nat \<Rightarrow> nat) \<Rightarrow> (erased_type \<Rightarrow> nat) \<Rightarrow> SdarcInnerFatPtr \<Rightarrow> world \<Rightarrow> cast_error + cptr" where
  "get_counters_ptr ut offset f w = (case heap w (erased_ptr f) of None \<Rightarrow> Inl Dangling
     | Some ob \<Rightarrow> if offset_of_counter (vtable_ref f) = offset (type_of ut (data ob)) then Inr (counters_ptr ob) else Inl WrongType)"

definition fat_clear_weak_back_ref :: "SdarcInnerFatPtr \<Rightarrow> world \<Rightarrow> cast_error + (fault + ClearWeakBackRefResult \<times> world)" where
  "fat_clear_weak_back_ref f w = vt_clear_weak_backref (vtable_ref f) (erased_ptr f) w"

definition fat_free :: "SdarcInnerFatPtr \<Rightarrow> world \<Rightarrow> cast_error + outcome" where
  "fat_free f w = vt_drop_sdarc_inner (vtable_ref f) (erased_ptr f) w"

definition fat_ptr_of :: "(nat \<Rightarrow> nat) \<Rightarrow> (erased_type \<Rightarrow> nat) \<Rightarrow> erased_type \<Rightarrow> ptr \<Rightarrow> SdarcInnerFatPtr" where
  "fat_ptr_of ut offset T p = \<lparr>erased_ptr = p, vtable_ref = get_sdarc_vtable_ref ut offset T\<rparr>"

section \<open>Fat pointers of the objects\<close>

text \<open>The fat pointer that \<open>Sdarc::new\<close> passes to the collector, with the static type of the call.\<close>

fun fat_ptr_made :: "(nat \<Rightarrow> nat) \<Rightarrow> event \<Rightarrow> (ptr \<times> erased_type) option" where
  "fat_ptr_made ut (User t (New p a v)) = Some (p, UserType (ut v))"
| "fat_ptr_made ut (User t (NewAtomicWithValue p a v)) = Some (p, UserType (ut v))"
| "fat_ptr_made ut (User t (Downgrade p q a)) = Some (q, WeakType)"
| "fat_ptr_made ut e = None"

text \<open>
  The system with the type of each fat pointer recorded when the object is created; later steps only pass
  fat pointers along, from the pending lists to the tracked counters.
\<close>

inductive typed_step :: "(nat \<Rightarrow> nat) \<Rightarrow> world \<times> (ptr \<Rightarrow> erased_type) \<Rightarrow> world \<times> (ptr \<Rightarrow> erased_type) \<Rightarrow> bool" for ut where
  "uc_step e w = Next w' \<Longrightarrow>
     vt' = (case fat_ptr_made ut e of Some (p, T) \<Rightarrow> if heap w p = None \<and> heap w' p \<noteq> None then vt(p := T) else vt | None \<Rightarrow> vt) \<Longrightarrow>
     typed_step ut (w, vt) (w', vt')"

definition typed_init :: "world \<times> (ptr \<Rightarrow> erased_type) \<Rightarrow> bool" where
  "typed_init x \<longleftrightarrow> initial (fst x)"

definition typed_inv :: "(nat \<Rightarrow> nat) \<Rightarrow> world \<times> (ptr \<Rightarrow> erased_type) \<Rightarrow> bool" where
  "typed_inv ut x \<longleftrightarrow> safe (fst x) \<and> (\<forall>p ob. heap (fst x) p = Some ob \<longrightarrow> snd x p = type_of ut (data ob))"

lemma begin_made:
  assumes "begin_op t act w = Next w'" "heap w p = None" "heap w' p = Some ob"
  shows "fat_ptr_made ut (User t act) = Some (p, type_of ut (data ob))"
  using assms by (cases act) (auto simp: user_op_defs world_ops modify_counter_Next SdarcInner_new_def
      split: if_splits option.splits payload.splits)

lemma continue_made:
  assumes "continue t x w = Next w'" "heap w p = None"
  shows "heap w' p = None"
  using assms by (cases x) (auto simp: user_op_defs world_ops modify_counter_Next split: if_splits option.splits payload.splits)

lemma user_made:
  assumes "user_step t act w = Next w'" "heap w p = None" "heap w' p = Some ob"
  shows "fat_ptr_made ut (User t act) = Some (p, type_of ut (data ob))"
proof -
  have "continue t (pc (threads w ! t)) w \<noteq> Next w'" using continue_made [of t _ w w' p] assms(2,3) by auto
  then show ?thesis using assms begin_made [of t act w w' p ob] by (auto simp: user_step_def split: if_splits)
qed

lemma collector_made: "collector_at x w = Next w' \<Longrightarrow> heap w p = None \<Longrightarrow> heap w' p = None"
  by (cases x) (auto simp: collector_defs set_obj_def free_pointers_def drop_sdarc_inner_def goto_def set_thread_def Let_def
      split: if_splits option.splits payload.splits sum.splits list.splits TrackedCounterState.splits
        ClearWeakBackRefResult.splits prod.splits)

lemma user_type:
  assumes "user_step t act w = Next w'" "heap w p = Some ob" "heap w' p = Some ob'"
  shows "type_of ut (data ob') = type_of ut (data ob)"
  using content_keptD [OF user_content [OF assms(1)] assms(2,3)] by simp

lemma uc_user_made:
  assumes "uc_step (User t act) w = Next w'" "heap w' p = Some ob'"
  shows "case heap w p of None \<Rightarrow> fat_ptr_made ut (User t act) = Some (p, type_of ut (data ob'))
     | Some ob \<Rightarrow> type_of ut (data ob') = type_of ut (data ob)"
proof (cases rule: uc_step_cases [of "User t act" w])
  case plain
  then have "user_step t act w = Next w'" using assms(1) by simp
  then show ?thesis using user_made [of t act w w' p ob' ut] user_type [of t act w w' p _ ob' ut] assms(2) by (auto split: option.split)
next
  case (cas t' c m q)
  then obtain w1 where w1: "user_step t (CompareAndSet c m (Some q)) w = Next w1" "w' = w1 \<or> user_step t Continue w1 = Next w'"
    using assms(1) by (auto split: outcome.splits if_splits)
  have n: "fat_ptr_made ut (User t Continue) = None" "fat_ptr_made ut (User t (CompareAndSet c m (Some q))) = None" by simp_all
  obtain ob1 where ob1: "heap w1 p = Some ob1" and t1: "type_of ut (data ob') = type_of ut (data ob1)"
  proof (cases "w' = w1")
    case False
    then have c: "user_step t Continue w1 = Next w'" using w1(2) by simp
    then obtain ob1 where "heap w1 p = Some ob1" using user_made [OF c _ assms(2), of ut] n(1) by (cases "heap w1 p") auto
    then show ?thesis using that user_type [OF c _ assms(2)] by blast
  qed (use assms(2) that in simp)
  obtain ob where "heap w p = Some ob" using user_made [OF w1(1) _ ob1, of ut] n(2) by (cases "heap w p") auto
  then show ?thesis using user_type [OF w1(1) _ ob1] t1 by simp
qed

lemma collector_type:
  assumes s: "safe w" and st: "uc_step Collector w = Next w'" and p: "heap w' p = Some ob'"
  shows "\<exists>ob. heap w p = Some ob \<and> type_of ut (data ob') = type_of ut (data ob)"
proof -
  have c: "collector_at (cpc (coll w)) w = Next w'" using st by (simp add: collector_step_def split: if_splits)
  then obtain ob where ob: "heap w p = Some ob" using collector_made [of _ w w' p] p by (cases "heap w p") auto
  with step_content [OF s, of Collector w' p ob ob'] st p show ?thesis by auto
qed

interpretation typed: invariant_system typed_init "typed_step ut" "typed_inv ut"
proof unfold_locales
  show "typed_inv ut x" if "typed_init x" for x :: "world \<times> (ptr \<Rightarrow> erased_type)"
    using that sys.inv_init [of "fst x"] by (auto simp: typed_init_def typed_inv_def initial_def)
  show "typed_inv ut y" if i: "typed_inv ut x" "typed_step ut x y" for x y
    using that(2)
  proof cases
    case (1 e w w' vt' vt)
    have s: "safe w" and v: "\<And>p ob. heap w p = Some ob \<Longrightarrow> vt p = type_of ut (data ob)" using i 1 by (auto simp: typed_inv_def)
    have "vt' p = type_of ut (data ob)" if p: "heap w' p = Some ob" for p ob
    proof (cases e)
      case (User t act)
      with uc_user_made [of t act w w' p ob ut] 1 p v show ?thesis by (cases "heap w p") (auto split: option.splits)
    next
      case Collector
      with collector_type [OF s _ p, of ut] 1 v show ?thesis by auto
    qed
    then show ?thesis using 1 uc_step_safe [OF s 1(3)] by (simp add: typed_inv_def)
  qed
qed

text \<open>
  A concrete state: thread 1 has created object 10 and a weak reference to it. The types of the two fat
  pointers are recorded.
\<close>

fun typed_run :: "(nat \<Rightarrow> nat) \<Rightarrow> event list \<Rightarrow> world \<times> (ptr \<Rightarrow> erased_type) \<Rightarrow> (world \<times> (ptr \<Rightarrow> erased_type)) option" where
  "typed_run ut [] x = Some x"
| "typed_run ut (e # es) (w, vt) = (case uc_step e w of
     Next w' \<Rightarrow> typed_run ut es (w', case fat_ptr_made ut e of
        Some (p, T) \<Rightarrow> if heap w p = None \<and> heap w' p \<noteq> None then vt(p := T) else vt | None \<Rightarrow> vt)
   | _ \<Rightarrow> None)"

lemma typed_run_reach:
  "typed_run ut es x = Some y \<Longrightarrow> reach typed_init (typed_step ut) x \<Longrightarrow> reach typed_init (typed_step ut) y"
proof (induction ut es x rule: typed_run.induct)
  case (2 ut e es w vt)
  then show ?case by (auto split: outcome.splits intro: reach_step typed_step.intros)
qed simp

definition typed_demo :: world where
  "typed_demo = \<lparr>shards = 1,
     heap = [10 \<mapsto> \<lparr>counters_ptr = 20, counters = [2], weak_inner_ref = Some 12, data = UserData 7\<rparr>,
       12 \<mapsto> \<lparr>counters_ptr = 22, counters = [2], weak_inner_ref = None, data = WeakSdarcInner (Some 10)\<rparr>],
     used_slots = {20, 22}, atomics = [], handles = (\<lambda>_. 0)(10 := 0),
     threads = [\<lparr>shard_index = 0, pc = Idle, ret = NoRet\<rparr>, \<lparr>shard_index = 0, pc = DowngradeClone 10 12, ret = RetSdarc 10\<rparr>],
     critical = [0], pending_to_track = [[(10, 20), (12, 22)]], coll = init_collector\<rparr>"

lemma typed_demo_reach:
  "reach typed_init (typed_step id) (typed_demo, (\<lambda>_. UserType 0)(10 := UserType 7, 12 := WeakType))"
proof (rule typed_run_reach)
  show "typed_run id [User 1 (New 10 20 7), User 1 (Downgrade 10 12 22)] (init_world 1 [0, 0] 0, \<lambda>_. UserType 0)
      = Some (typed_demo, (\<lambda>_. UserType 0)(10 := UserType 7, 12 := WeakType))"
    by (auto simp: typed_demo_def exec_defs fun_eq_iff)
  show "reach typed_init (typed_step id) (init_world 1 [0, 0] 0, \<lambda>_. UserType 0)"
    by (rule reach_init) (auto simp: typed_init_def initial_def intro!: exI [of _ "[0, 0]"])
qed

text \<open>
  C22: type erasure is sound. In every reachable state, the fat pointer of an allocated object, made when
  the object was created, still has the table of the object's type: \<open>get_counters_ptr\<close> reads the box of
  the counters, \<open>clear_weak_back_ref\<close> and \<open>free\<close> cast the pointer back to the right type and do what the
  direct calls do. This holds for every type of user data and every layout the compiler may choose, and
  also when an address is used again by an object of another type.
\<close>

theorem vtable_dispatch_sound:
  assumes "reach typed_init (typed_step ut) (w, vt)" "heap w p = Some ob"
  shows "get_counters_ptr ut offset (fat_ptr_of ut offset (vt p) p) w = Inr (counters_ptr ob)
     \<and> fat_clear_weak_back_ref (fat_ptr_of ut offset (vt p) p) w = Inr (clear_weak_backref_impl p w)
     \<and> fat_free (fat_ptr_of ut offset (vt p) p) w = Inr (drop_sdarc_inner p ob w)"
proof -
  have t: "vt p = type_of ut (data ob)" using typed.reach_inv [OF assms(1)] assms(2) by (simp add: typed_inv_def)
  then have "into_typed ut (vt p) p w = Inr ob" using assms(2) by (simp add: into_typed_def)
  then show ?thesis using t assms(2)
    by (cases "data ob") (auto simp: fat_ptr_of_def get_counters_ptr_def fat_clear_weak_back_ref_def fat_free_def get_sdarc_vtable_ref_def
        clear_weak_backref_typed_def drop_sdarc_inner_impl_def drop_sdarc_inner_def WeakSdarcInner_drop_def Let_def
        split: option.splits)
qed

theorem vtable_dispatch_sound_witness:
  "get_counters_ptr id (\<lambda>T. if T = WeakType then 0 else 8) (fat_ptr_of id (\<lambda>T. if T = WeakType then 0 else 8) WeakType 12) typed_demo = Inr 22
   \<and> fat_free (fat_ptr_of id (\<lambda>T. if T = WeakType then 0 else 8) WeakType 12) typed_demo = Inr (Fault (BackRefNotCleared 12))"
proof -
  have "heap typed_demo 12 = Some \<lparr>counters_ptr = 22, counters = [2], weak_inner_ref = None, data = WeakSdarcInner (Some 10)\<rparr>"
    by (simp add: typed_demo_def)
  from vtable_dispatch_sound [OF typed_demo_reach this] show ?thesis by (simp add: drop_sdarc_inner_def Let_def)
qed

end
