(* ===== verification/Shard_Index.thy ===== *)
theory Shard_Index
  imports Env_Params
begin

text \<open>
  Shard counts and shard indexes, \<^verbatim>\<open>src/src/shard_index.rs\<close>. The static \<open>SHARD_COUNT\<close> is an argument
  \<open>n\<close> of the functions that read it; what the machine reports as available parallelism and the hash
  of a thread id are arguments too. Casts keep their widths: a count has 16 bits, an index has 8.
\<close>

section \<open>The shard count\<close>

type_synonym u8 = "8 word"
type_synonym u16 = "16 word"

definition ShardCount_as_usize :: "ShardCount \<Rightarrow> usize" where
  "ShardCount_as_usize c = (case c of ShardCount n \<Rightarrow> ucast n)"

text \<open>
  \<open>init_shard_count\<close>: \<open>par\<close> is the result of \<open>thread::available_parallelism\<close>, \<open>None\<close> for an error;
  \<open>chk\<close> says whether the addition checks for overflow.
\<close>

definition init_shard_count :: "bool \<Rightarrow> (string \<Rightarrow> string option) \<Rightarrow> usize option \<Rightarrow> ShardCount result" where
  "init_shard_count chk env par =
     res_bind (shard_count_from_env_var env) (\<lambda>from_env.
       case from_env of Some c \<Rightarrow> Inr c
       | None \<Rightarrow>
           (let available_parallelism = (case par of Some n \<Rightarrow> n | None \<Rightarrow> 1)
            in res_bind (assert_r (available_parallelism \<noteq> 0)) (\<lambda>_.
                 if chk \<and> 2 ^ 64 \<le> unat available_parallelism + unat (available_parallelism div 2)
                 then Inl ArithmeticOverflow
                 else (let adjusted = available_parallelism + available_parallelism div 2;
                           num = min adjusted MAX_SHARD_COUNT
                       in Inr (ShardCount (ucast num))))))"

section \<open>Shard indexes\<close>

datatype ShardIndex = ShardIndex u8

fun ShardIndex_as_usize :: "ShardIndex \<Rightarrow> nat" where
  "ShardIndex_as_usize (ShardIndex i) = unat i"

fun from_u64 :: "ShardCount \<Rightarrow> u64 \<Rightarrow> ShardIndex result" where
  "from_u64 (ShardCount n) val =
     (if n = 0 then Inl RemByZero else Inr (ShardIndex (ucast (val mod ucast n))))"

fun from_bounded_u8 :: "ShardCount \<Rightarrow> u8 \<Rightarrow> ShardIndex result" where
  "from_bounded_u8 (ShardCount n) val =
     res_bind (assert_r ((ucast val :: u16) < n)) (\<lambda>_. Inr (ShardIndex val))"

text \<open>The hash of the current thread's id picks the index a thread starts with.\<close>

definition shard_index_from_thread_id_hash :: "ShardCount \<Rightarrow> u64 \<Rightarrow> ShardIndex result" where
  "shard_index_from_thread_id_hash c hash = from_u64 c hash"

fun shard_indexes :: "ShardCount \<Rightarrow> ShardIndex list" where
  "shard_indexes (ShardCount n) = map (\<lambda>i. ShardIndex (of_nat i)) [0..<unat n]"

fun shard_indexes_until :: "ShardCount \<Rightarrow> ShardIndex \<Rightarrow> ShardIndex list result" where
  "shard_indexes_until (ShardCount n) (ShardIndex s) =
     res_bind (assert_r ((ucast s :: u16) \<le> n)) (\<lambda>_. Inr (map (\<lambda>i. ShardIndex (of_nat i)) [0..<unat s]))"

section \<open>Arrays indexed by shard\<close>

datatype 'a ShardsArr = ShardsArr "'a list"

fun push_all :: "(ShardIndex \<Rightarrow> 'a) \<Rightarrow> ShardIndex list \<Rightarrow> 'a list \<Rightarrow> 'a list" where
  "push_all f [] vec = vec"
| "push_all f (i # is) vec = push_all f is (vec @ [f i])"

definition ShardsArr_new :: "ShardCount \<Rightarrow> (ShardIndex \<Rightarrow> 'a) \<Rightarrow> 'a ShardsArr result" where
  "ShardsArr_new c init_fn =
     (let vec = push_all init_fn (shard_indexes c) []
      in res_bind (assert_r (length vec = unat (ShardCount_as_usize c))) (\<lambda>_. Inr (ShardsArr vec)))"

fun ShardsArr_index :: "'a ShardsArr \<Rightarrow> ShardIndex \<Rightarrow> 'a result" where
  "ShardsArr_index (ShardsArr xs) i =
     (if ShardIndex_as_usize i < length xs then Inr (xs ! ShardIndex_as_usize i) else Inl IndexOutOfBounds)"

fun ShardsArr_index_mut :: "'a ShardsArr \<Rightarrow> ShardIndex \<Rightarrow> 'a \<Rightarrow> 'a ShardsArr result" where
  "ShardsArr_index_mut (ShardsArr xs) i v =
     (if ShardIndex_as_usize i < length xs then Inr (ShardsArr (xs[ShardIndex_as_usize i := v]))
      else Inl IndexOutOfBounds)"

section \<open>The contract of per-shard storage\<close>

text \<open>
  What the collector, the allocator and the critical section rely on: storage made for a shard count
  has one element per shard, and a valid index reads back what was put there.
\<close>

locale per_shard =
  fixes make :: "ShardCount \<Rightarrow> (ShardIndex \<Rightarrow> 'a) \<Rightarrow> 's result"
    and get :: "'s \<Rightarrow> ShardIndex \<Rightarrow> 'a result" and put :: "'s \<Rightarrow> ShardIndex \<Rightarrow> 'a \<Rightarrow> 's result"
    and valid :: "ShardCount \<Rightarrow> bool"
  assumes make_ok: "valid c \<Longrightarrow> \<exists>s. make c f = Inr s \<and> (\<forall>i \<in> set (shard_indexes c). get s i = Inr (f i))"
    and put_ok: "get s i = Inr x \<Longrightarrow> \<exists>s'. put s i v = Inr s' \<and> get s' i = Inr v \<and> (\<forall>j. j \<noteq> i \<longrightarrow> get s' j = get s j)"
begin

lemma make_put_get:
  assumes "valid c" "i \<in> set (shard_indexes c)" "j \<in> set (shard_indexes c)"
  shows "\<exists>s s'. make c f = Inr s \<and> put s i v = Inr s' \<and> get s' j = Inr (if j = i then v else f j)"
proof -
  obtain s where s: "make c f = Inr s" "\<And>k. k \<in> set (shard_indexes c) \<Longrightarrow> get s k = Inr (f k)"
    using make_ok [OF assms(1), of f] by blast
  obtain s' where "put s i v = Inr s'" "get s' i = Inr v" "\<And>k. k \<noteq> i \<Longrightarrow> get s' k = get s k"
    using put_ok [OF s(2) [OF assms(2)], of v] by blast
  with s assms(3) show ?thesis by (intro exI [of _ s] exI [of _ s']) simp
qed

end

section \<open>Lemmas\<close>

lemma unat_of_nat_u8 [simp]: "i < 256 \<Longrightarrow> unat (of_nat i :: u8) = i"
  by (simp add: unsigned_of_nat take_bit_nat_eq_self)

lemma unat_u16_widen [simp]: "unat (ucast (n :: u16) :: u64) = unat n"
  using unsigned_less [of n, where 'a = nat] by (simp add: unsigned_ucast_eq take_bit_nat_eq_self)

lemma unat_u8_widen [simp]: "unat (ucast (n :: u8) :: u16) = unat n"
  using unsigned_less [of n, where 'a = nat] by (simp add: unsigned_ucast_eq take_bit_nat_eq_self)

definition valid_count :: "ShardCount \<Rightarrow> bool" where
  "valid_count c = (case c of ShardCount n \<Rightarrow> 0 < unat n \<and> unat n \<le> 256)"

lemma shard_indexes_nat:
  "unat n \<le> 256 \<Longrightarrow> map ShardIndex_as_usize (shard_indexes (ShardCount n)) = [0..<unat n]"
  by (rule nth_equalityI) auto

lemma in_shard_indexes:
  assumes "unat n \<le> 256"
  shows "i \<in> set (shard_indexes (ShardCount n)) \<longleftrightarrow> ShardIndex_as_usize i < unat n"
proof
  assume "i \<in> set (shard_indexes (ShardCount n))"
  then have "ShardIndex_as_usize i \<in> set (map ShardIndex_as_usize (shard_indexes (ShardCount n)))" by auto
  then show "ShardIndex_as_usize i < unat n" unfolding shard_indexes_nat [OF assms] by simp
next
  assume i: "ShardIndex_as_usize i < unat n"
  obtain b where b: "i = ShardIndex b" by (cases i)
  then have "i = ShardIndex (of_nat (unat b))" by simp
  with i b show "i \<in> set (shard_indexes (ShardCount n))" by (metis ShardIndex_as_usize.simps atLeast0LessThan
        imageI lessThan_iff list.set_map set_upt shard_indexes.simps)
qed

lemma shard_indexes_until_take:
  assumes "valid_count c" "i \<in> set (shard_indexes c)"
  shows "shard_indexes_until c i = Inr (take (ShardIndex_as_usize i) (shard_indexes c))"
proof -
  obtain n b where c: "c = ShardCount n" and b: "i = ShardIndex b" by (cases c; cases i)
  have n: "unat n \<le> 256" using assms(1) by (simp add: c valid_count_def)
  have lt: "unat b < unat n" using assms(2) in_shard_indexes [OF n, of i] by (simp add: c b del: shard_indexes.simps)
  then have "(ucast b :: u16) \<le> n" by (simp add: word_le_nat_alt)
  with lt show ?thesis by (simp add: c b take_map)
qed

lemma shard_indexes_nth:
  assumes "valid_count c" "k < length (shard_indexes c)"
  shows "ShardIndex_as_usize (shard_indexes c ! k) = k"
proof -
  obtain n where c: "c = ShardCount n" by (cases c)
  then have n: "unat n \<le> 256" using assms(1) by (simp add: valid_count_def)
  have "ShardIndex_as_usize (shard_indexes c ! k) = map ShardIndex_as_usize (shard_indexes c) ! k"
    using assms(2) by simp
  also have "\<dots> = k" unfolding c shard_indexes_nat [OF n] using assms(2) c by simp
  finally show ?thesis .
qed

lemma push_all_map: "push_all f is vec = vec @ map f is"
  by (induction f "is" vec rule: push_all.induct) auto

lemma as_usize_inj: "ShardIndex_as_usize i = ShardIndex_as_usize j \<Longrightarrow> i = j"
  by (cases i; cases j) (simp add: unsigned_word_eqI)

lemma ShardsArr_new_ok:
  assumes "valid_count c"
  shows "\<exists>s. ShardsArr_new c f = Inr s \<and> (\<forall>i \<in> set (shard_indexes c). ShardsArr_index s i = Inr (f i))"
proof -
  obtain n where c: "c = ShardCount n" by (cases c)
  then have n: "unat n \<le> 256" using assms by (simp add: valid_count_def)
  have "unat (ucast n :: usize) = unat n" by simp
  then have "ShardsArr_new c f = Inr (ShardsArr (map f (shard_indexes c)))"
    by (simp add: ShardsArr_new_def push_all_map c ShardCount_as_usize_def)
  moreover have "ShardsArr_index (ShardsArr (map f (shard_indexes c))) i = Inr (f i)"
    if "i \<in> set (shard_indexes c)" for i
  proof -
    from that obtain k where k: "k < length (shard_indexes c)" "shard_indexes c ! k = i"
      unfolding in_set_conv_nth by blast
    with shard_indexes_nth [OF assms k(1)] show ?thesis by simp
  qed
  ultimately show ?thesis by blast
qed

lemma ShardsArr_put_ok:
  "ShardsArr_index s i = Inr x \<Longrightarrow>
     \<exists>s'. ShardsArr_index_mut s i v = Inr s' \<and> ShardsArr_index s' i = Inr v
        \<and> (\<forall>j. j \<noteq> i \<longrightarrow> ShardsArr_index s' j = ShardsArr_index s j)"
  using as_usize_inj by (cases s) (auto split: if_splits simp: nth_list_update)

interpretation shards_arr: per_shard ShardsArr_new ShardsArr_index ShardsArr_index_mut valid_count
  by unfold_locales (simp_all add: ShardsArr_new_ok ShardsArr_put_ok)

section \<open>Properties\<close>

lemma init_from_machine:
  fixes n :: usize
  assumes "unat n < 2 ^ 63" "n \<noteq> 0"
  shows "unat (n + n div 2) = unat n + unat n div 2"
    and "\<not> 2 ^ 64 \<le> unat n + unat (n div 2)"
proof -
  have d: "unat (n div 2) = unat n div 2" by (simp add: unat_div)
  have "unat n + unat n div 2 < 2 ^ 64" using assms(1) by simp
  then show "unat (n + n div 2) = unat n + unat n div 2"
    using d by (simp add: unat_word_ariths)
  show "\<not> 2 ^ 64 \<le> unat n + unat (n div 2)"
    using d \<open>unat n + unat n div 2 < 2 ^ 64\<close> by simp
qed

text \<open>
  The shard count chosen from the machine. Without the environment variable, on a machine that
  reports \<open>n\<close> hardware threads, the count is one and a half times \<open>n\<close> rounded down, at most 256 and
  at least 1; no assertion fails, nothing overflows, and the cast to 16 bits loses nothing. When the
  machine reports nothing, the count is 1.
\<close>

lemma init_shard_count_from_machine:
  assumes "unat n < 2 ^ 63" "n \<noteq> 0"
  shows "(\<exists>c. init_shard_count chk (\<lambda>_. None) (Some n) = Inr (ShardCount c)
        \<and> unat c = min (unat n + unat n div 2) 256 \<and> valid_count (ShardCount c))
     \<and> init_shard_count chk (\<lambda>_. None) None = Inr (ShardCount 1)"
proof -
  define num where "num = min (n + n div 2) MAX_SHARD_COUNT"
  have num: "unat num = min (unat n + unat n div 2) 256"
    using init_from_machine(1) [OF assms]
    by (auto simp: num_def MAX_SHARD_COUNT_def min_def word_le_nat_alt)
  then have "unat num \<le> 256" by simp
  then have "unat (ucast num :: u16) = unat num"
    by (simp add: unsigned_ucast_eq take_bit_nat_eq_self)
  moreover have "0 < unat n" using assms(2) by (simp add: unat_gt_0)
  moreover have "init_shard_count chk (\<lambda>_. None) (Some n) = Inr (ShardCount (ucast num))"
    using init_from_machine(2) [OF assms] assms(2)
    by (simp add: init_shard_count_def shard_count_from_env_var_def num_def Let_def)
  moreover have "init_shard_count chk (\<lambda>_. None) None = Inr (ShardCount 1)"
    by (simp add: init_shard_count_def shard_count_from_env_var_def Let_def MAX_SHARD_COUNT_def)
  ultimately show ?thesis using num by (auto simp: valid_count_def)
qed

text \<open>
  C38: a shard count of zero is accepted. With \<open>RUST_SDARC_SHARD_COUNT=0\<close> initialization succeeds
  with a count of zero, and then every computation of a shard index panics with a remainder by
  zero, the first one when a thread's index is initialized.
\<close>

theorem zero_shard_count_accepted:
  "init_shard_count chk (\<lambda>v. if v = ENV_SHARD_COUNT then Some ''0'' else None) par = Inr (ShardCount 0)
   \<and> from_u64 (ShardCount 0) val = Inl RemByZero
   \<and> shard_index_from_thread_id_hash (ShardCount 0) hash = Inl RemByZero
   \<and> shard_indexes (ShardCount 0) = []"
  by (simp add: init_shard_count_def shard_count_from_env_var_def parse_u64_def to_digit_def
      MAX_SHARD_COUNT_def shard_index_from_thread_id_hash_def)

text \<open>
  C36: shard indexes are always in range. With a valid count (1 to 256), \<open>from_u64\<close> succeeds on every
  64-bit value and gives its remainder, without loss in the cast to 8 bits; \<open>shard_indexes\<close> lists
  every index below the count once, in order; \<open>from_bounded_u8\<close> accepts exactly those; and
  \<open>shard_indexes_until\<close> lists the ones before a given index.
\<close>

theorem shard_indexes_complete:
  assumes "valid_count (ShardCount n)"
  shows "(\<exists>i. from_u64 (ShardCount n) val = Inr i \<and> ShardIndex_as_usize i = unat val mod unat n
        \<and> i \<in> set (shard_indexes (ShardCount n)))
     \<and> map ShardIndex_as_usize (shard_indexes (ShardCount n)) = [0..<unat n]
     \<and> (\<forall>b. from_bounded_u8 (ShardCount n) b =
          (if ShardIndex b \<in> set (shard_indexes (ShardCount n)) then Inr (ShardIndex b) else Inl AssertionFailed))
     \<and> (\<forall>i \<in> set (shard_indexes (ShardCount n)).
          shard_indexes_until (ShardCount n) i = Inr (take (ShardIndex_as_usize i) (shard_indexes (ShardCount n))))"
proof (intro conjI allI ballI)
  have n: "0 < unat n" "unat n \<le> 256" using assms by (simp_all add: valid_count_def)
  show "map ShardIndex_as_usize (shard_indexes (ShardCount n)) = [0..<unat n]"
    by (rule shard_indexes_nat [OF n(2)])
  have m: "unat (val mod ucast n) = unat val mod unat n" by (simp add: unat_mod)
  then have "unat (val mod ucast n) < 256" using n by (metis mod_less_divisor order_less_le_trans)
  then have u: "unat (ucast (val mod ucast n) :: u8) = unat val mod unat n"
    using m by (simp add: unsigned_ucast_eq take_bit_nat_eq_self)
  have "n \<noteq> 0" using n(1) by auto
  with u n show "\<exists>i. from_u64 (ShardCount n) val = Inr i \<and> ShardIndex_as_usize i = unat val mod unat n
        \<and> i \<in> set (shard_indexes (ShardCount n))"
    by (simp add: in_shard_indexes [OF n(2)] del: shard_indexes.simps)
  have c: "unat (ucast b :: u16) = unat b" for b :: u8 by simp
  show "from_bounded_u8 (ShardCount n) b =
      (if ShardIndex b \<in> set (shard_indexes (ShardCount n)) then Inr (ShardIndex b) else Inl AssertionFailed)" for b
    using c [of b] by (simp add: in_shard_indexes [OF n(2)] word_less_nat_alt del: shard_indexes.simps)
qed (rule shard_indexes_until_take [OF assms])

theorem shard_indexes_complete_witness:
  "from_u64 (ShardCount 3) 10 = Inr (ShardIndex 1)
   \<and> map ShardIndex_as_usize (shard_indexes (ShardCount 3)) = [0, 1, 2]"
proof -
  have "valid_count (ShardCount 3)" by (simp add: valid_count_def)
  from shard_indexes_complete [OF this, of 10] show ?thesis by (simp add: upt_rec)
qed

text \<open>
  C37: arrays indexed by shard. With a valid count \<open>ShardsArr::new\<close> does not panic, every index of a
  shard is within bounds and reads what \<open>init_fn\<close> gave for that shard, and a write through an index
  changes that shard's element and no other.
\<close>

theorem ShardsArr_read_write:
  assumes "valid_count c" "i \<in> set (shard_indexes c)" "j \<in> set (shard_indexes c)"
  shows "\<exists>s s'. ShardsArr_new c f = Inr s \<and> ShardsArr_index s j = Inr (f j)
     \<and> ShardsArr_index_mut s i v = Inr s' \<and> ShardsArr_index s' j = Inr (if j = i then v else f j)"
  using shards_arr.make_put_get [OF assms] ShardsArr_new_ok [OF assms(1), of f] assms(3) by fastforce

theorem ShardsArr_read_write_witness:
  "\<exists>s s'. ShardsArr_new (ShardCount 2) ShardIndex_as_usize = Inr s
     \<and> ShardsArr_index s (ShardIndex 1) = Inr 1
     \<and> ShardsArr_index_mut s (ShardIndex 0) 5 = Inr s' \<and> ShardsArr_index s' (ShardIndex 1) = Inr 1"
  using ShardsArr_read_write [of "ShardCount 2" "ShardIndex 0" "ShardIndex 1" ShardIndex_as_usize 5]
  by (simp add: valid_count_def upt_rec)

end
