(* ===== verification/Sharded_Alloc.thy ===== *)
theory Sharded_Alloc
  imports Shard_Index
begin

text \<open>
  The sharded allocator of \<^verbatim>\<open>src/src/sharded_alloc.rs\<close>. An \<open>AllocUnit\<close> is one block of memory: a row
  of 16 usage flags followed by one row of 16 cells per shard, 8 bytes each. A slot is a column; its
  address, the \<open>ShardedDataPtr\<close>, is the address of its usage flag, and the cell of shard \<open>i\<close> is
  \<open>16 * (i + 1)\<close> words further.

  The global allocator is an argument: \<open>mem\<close> is what \<open>alloc\<close> returns if it is called (\<open>None\<close> for a
  null pointer), with the documented promise \<open>fresh_block\<close> that a block it returns is aligned and
  overlaps no block in use. The values in the cells are in \<open>store\<close>, a map from addresses: \<open>None\<close>
  means uninitialized or dropped.

  A panic in \<open>init_func\<close> unwinds through the allocator, so the functions that can panic also return
  the state they leave behind.
\<close>

section \<open>Units\<close>

type_synonym addr = nat
type_synonym 'a store = "addr \<Rightarrow> 'a option"

definition SLOT_COUNT_PER_UNIT :: nat where
  "SLOT_COUNT_PER_UNIT = 16"

definition USAGE_FLAG_UNUSED :: u64 where
  "USAGE_FLAG_UNUSED = 0"

definition USAGE_FLAG_USED :: u64 where
  "USAGE_FLAG_USED = 1"

record AllocUnit =
  data_ptr :: addr
  usage_flags :: "u64 list"

fun data_len_in_bytes :: "ShardCount \<Rightarrow> nat" where
  "data_len_in_bytes (ShardCount n) = SLOT_COUNT_PER_UNIT * (1 + unat n) * 8"

definition AllocUnit_new :: "addr option \<Rightarrow> AllocUnit result" where
  "AllocUnit_new mem =
     (case mem of None \<Rightarrow> Inl ExpectFailed
      | Some ptr \<Rightarrow> Inr \<lparr>data_ptr = ptr, usage_flags = map (\<lambda>_. USAGE_FLAG_UNUSED) [0..<SLOT_COUNT_PER_UNIT]\<rparr>)"

definition ptr_at_shard :: "addr \<Rightarrow> ShardIndex \<Rightarrow> addr" where
  "ptr_at_shard base i = base + 8 * (SLOT_COUNT_PER_UNIT * (ShardIndex_as_usize i + 1))"

definition assert_usage_flag_value_valid :: "u64 \<Rightarrow> unit result" where
  "assert_usage_flag_value_valid v = assert_r (v = 0 \<or> v = 1)"

text \<open>The loop of \<open>allocate_without_initializing\<close> over the slots \<open>is\<close>.\<close>

fun scan_slots :: "nat list \<Rightarrow> AllocUnit \<Rightarrow> (addr option \<times> AllocUnit) result" where
  "scan_slots [] u = Inr (None, u)"
| "scan_slots (i # is) u =
     (let old = usage_flags u ! i;
          u' = u\<lparr>usage_flags := (usage_flags u)[i := USAGE_FLAG_USED]\<rparr>
      in res_bind (assert_usage_flag_value_valid old) (\<lambda>_.
           if old = USAGE_FLAG_UNUSED then Inr (Some (data_ptr u + 8 * i), u') else scan_slots is u'))"

definition allocate_without_initializing :: "AllocUnit \<Rightarrow> (addr option \<times> AllocUnit) result" where
  "allocate_without_initializing u = scan_slots [0..<SLOT_COUNT_PER_UNIT] u"

definition deallocate_without_dropping :: "addr \<Rightarrow> AllocUnit \<Rightarrow> AllocUnit result" where
  "deallocate_without_dropping p u =
     (let i = (p - data_ptr u) div 8; original_usage = usage_flags u ! i
      in res_bind (assert_r (original_usage = 1)) (\<lambda>_. Inr (u\<lparr>usage_flags := (usage_flags u)[i := 0]\<rparr>)))"

definition drop_cells :: "addr \<Rightarrow> ShardIndex list \<Rightarrow> 'a store \<Rightarrow> 'a store" where
  "drop_cells p is st = fold (\<lambda>i m. m(ptr_at_shard p i := None)) is st"

text \<open>
  The loop of \<open>allocate_and_initialize\<close> that writes the cells, with the unwind guard: if
  \<open>init_func\<close> panics for a shard, the values already written are dropped.
\<close>

fun init_shards :: "ShardCount \<Rightarrow> (ShardIndex \<Rightarrow> 'a result) \<Rightarrow> addr \<Rightarrow> ShardIndex list \<Rightarrow> 'a store
    \<Rightarrow> unit result \<times> 'a store" where
  "init_shards c init_func p [] st = (Inr (), st)"
| "init_shards c init_func p (i # is) st =
     (case init_func i of
        Inr v \<Rightarrow> init_shards c init_func p is (st(ptr_at_shard p i \<mapsto> v))
      | Inl e \<Rightarrow>
          (case shard_indexes_until c i of
             Inl e' \<Rightarrow> (Inl e', st)
           | Inr js \<Rightarrow> (Inl e, drop_cells p js st)))"

definition allocate_and_initialize :: "ShardCount \<Rightarrow> (ShardIndex \<Rightarrow> 'a result) \<Rightarrow> AllocUnit \<Rightarrow> 'a store
    \<Rightarrow> addr option result \<times> AllocUnit \<times> 'a store" where
  "allocate_and_initialize c init_func u st =
     (case allocate_without_initializing u of
        Inl e \<Rightarrow> (Inl e, u, st)
      | Inr (None, u') \<Rightarrow> (Inr None, u', st)
      | Inr (Some p, u') \<Rightarrow>
          (case init_shards c init_func p (shard_indexes c) st of
             (Inr _, st') \<Rightarrow> (Inr (Some p), u', st')
           | (Inl e, st') \<Rightarrow>
               (case deallocate_without_dropping p u' of
                  Inl e' \<Rightarrow> (Inl e', u', st')
                | Inr u'' \<Rightarrow> (Inl e, u'', st'))))"

text \<open>\<open>any\<close> over the usage flags, which asserts that each flag it reads is valid.\<close>

fun any_flag :: "u64 \<Rightarrow> u64 list \<Rightarrow> bool result" where
  "any_flag wanted [] = Inr False"
| "any_flag wanted (v # vs) =
     res_bind (assert_usage_flag_value_valid v) (\<lambda>_. if v = wanted then Inr True else any_flag wanted vs)"

definition is_any_slot_used :: "AllocUnit \<Rightarrow> bool result" where
  "is_any_slot_used u = any_flag USAGE_FLAG_USED (usage_flags u)"

definition has_any_free_slot :: "AllocUnit \<Rightarrow> bool result" where
  "has_any_free_slot u = any_flag USAGE_FLAG_UNUSED (usage_flags u)"

definition get_unused_slot_count :: "AllocUnit \<Rightarrow> nat" where
  "get_unused_slot_count u = length (filter (\<lambda>v. v = USAGE_FLAG_UNUSED) (usage_flags u))"

definition AllocUnit_drop :: "AllocUnit \<Rightarrow> unit result" where
  "AllocUnit_drop u = res_bind (is_any_slot_used u) (\<lambda>b. assert_r (\<not> b))"

section \<open>Groups\<close>

record AllocUnitGroup =
  all_units :: "AllocUnit list"
  indexes_of_units_to_check_for_allocation :: "nat list"

definition AllocUnitGroup_new :: AllocUnitGroup where
  "AllocUnitGroup_new = \<lparr>all_units = [], indexes_of_units_to_check_for_allocation = []\<rparr>"

text \<open>\<open>Vec::swap_remove(0)\<close>: the last element takes the place of the first.\<close>

definition swap_remove_first :: "'a list \<Rightarrow> 'a list" where
  "swap_remove_first xs = butlast (xs[0 := last xs])"

lemma swap_remove_first_length [simp]: "length (swap_remove_first (x # xs)) = length xs"
  by (simp add: swap_remove_first_def)

lemma swap_remove_first_set: "set (swap_remove_first xs) \<subseteq> set xs"
proof
  fix x assume "x \<in> set (swap_remove_first xs)"
  then have x: "x \<in> set (xs[0 := last xs])" by (auto simp: swap_remove_first_def dest: in_set_butlastD)
  then show "x \<in> set xs"
    using set_update_subset_insert [of xs 0 "last xs"] by (cases "xs = []") auto
qed

function group_allocate :: "ShardCount \<Rightarrow> (ShardIndex \<Rightarrow> 'a result) \<Rightarrow> addr option \<Rightarrow> AllocUnitGroup \<Rightarrow> 'a store
    \<Rightarrow> addr result \<times> AllocUnitGroup \<times> 'a store" where
  "group_allocate c init_func mem g st =
     (case indexes_of_units_to_check_for_allocation g of
        [] \<Rightarrow>
          (case AllocUnit_new mem of
             Inl e \<Rightarrow> (Inl e, g, st)
           | Inr new_unit \<Rightarrow>
               (case allocate_and_initialize c init_func new_unit st of
                  (Inr (Some p), u, st') \<Rightarrow>
                    (Inr p, g\<lparr>all_units := all_units g @ [u],
                       indexes_of_units_to_check_for_allocation := [length (all_units g)]\<rparr>, st')
                | (Inr None, u, st') \<Rightarrow> (Inl ExpectFailed, g, st')
                | (Inl e, u, st') \<Rightarrow>
                    (case AllocUnit_drop u of Inl e' \<Rightarrow> (Inl e', g, st') | Inr _ \<Rightarrow> (Inl e, g, st'))))
      | unit_index # _ \<Rightarrow>
          (if unit_index < length (all_units g)
           then (case allocate_and_initialize c init_func (all_units g ! unit_index) st of
                   (Inl e, u, st') \<Rightarrow> (Inl e, g\<lparr>all_units := (all_units g)[unit_index := u]\<rparr>, st')
                 | (Inr (Some p), u, st') \<Rightarrow> (Inr p, g\<lparr>all_units := (all_units g)[unit_index := u]\<rparr>, st')
                 | (Inr None, u, st') \<Rightarrow>
                     group_allocate c init_func mem
                       (g\<lparr>all_units := (all_units g)[unit_index := u],
                          indexes_of_units_to_check_for_allocation :=
                            swap_remove_first (indexes_of_units_to_check_for_allocation g)\<rparr>) st')
           else (Inl IndexOutOfBounds, g, st)))"
  by pat_completeness auto

termination
  by (relation "measure (\<lambda>(c, f, m, g, st). length (indexes_of_units_to_check_for_allocation g))")
    simp_all

declare group_allocate.simps [simp del]

text \<open>\<open>retain_mut\<close> keeps the units with a used slot and drops the others.\<close>

fun retain_used :: "AllocUnit list \<Rightarrow> AllocUnit list result" where
  "retain_used [] = Inr []"
| "retain_used (u # us) =
     res_bind (is_any_slot_used u) (\<lambda>b.
       res_bind (if b then Inr () else AllocUnit_drop u) (\<lambda>_.
         res_bind (retain_used us) (\<lambda>vs. Inr (if b then u # vs else vs))))"

fun free_unit_indexes :: "nat \<Rightarrow> AllocUnit list \<Rightarrow> nat list result" where
  "free_unit_indexes i [] = Inr []"
| "free_unit_indexes i (u # us) =
     res_bind (has_any_free_slot u) (\<lambda>b.
       res_bind (free_unit_indexes (Suc i) us) (\<lambda>is. Inr (if b then i # is else is)))"

definition do_maintenance :: "AllocUnitGroup \<Rightarrow> AllocUnitGroup result" where
  "do_maintenance g =
     res_bind (retain_used (all_units g)) (\<lambda>us.
       res_bind (free_unit_indexes 0 us) (\<lambda>is.
         Inr \<lparr>all_units = us, indexes_of_units_to_check_for_allocation = is\<rparr>))"

definition count_unused_slot_count_and_all_slot_count :: "AllocUnitGroup \<Rightarrow> nat \<times> nat" where
  "count_unused_slot_count_and_all_slot_count g =
     (sum_list (map get_unused_slot_count (all_units g)), length (all_units g) * SLOT_COUNT_PER_UNIT)"

section \<open>The allocator\<close>

record 'a FullShardAlloc =
  groups :: "AllocUnitGroup list"
  temp_filling_group :: AllocUnitGroup
  cells :: "'a store"

definition FullShardAlloc_initialize :: "ShardCount \<Rightarrow> 'a FullShardAlloc" where
  "FullShardAlloc_initialize c =
     \<lparr>groups = map (\<lambda>_. AllocUnitGroup_new) (shard_indexes c), temp_filling_group = AllocUnitGroup_new,
      cells = (\<lambda>_. None)\<rparr>"

text \<open>\<open>s\<close> is the shard of the calling thread; the group's mutex makes the call one step.\<close>

definition allocate_and_init :: "ShardCount \<Rightarrow> nat \<Rightarrow> (ShardIndex \<Rightarrow> 'a result) \<Rightarrow> addr option \<Rightarrow> 'a FullShardAlloc
    \<Rightarrow> addr result \<times> 'a FullShardAlloc" where
  "allocate_and_init c s init_func mem w =
     (if s < length (groups w)
      then (case group_allocate c init_func mem (groups w ! s) (cells w) of
              (r, g, st) \<Rightarrow> (r, w\<lparr>groups := (groups w)[s := g], cells := st\<rparr>))
      else (Inl IndexOutOfBounds, w))"

text \<open>The steps of \<open>do_maintenance_by_collector\<close> between which the shard's mutex is not held.\<close>

definition swap_group :: "nat \<Rightarrow> 'a FullShardAlloc \<Rightarrow> 'a FullShardAlloc" where
  "swap_group s w = w\<lparr>groups := (groups w)[s := temp_filling_group w], temp_filling_group := groups w ! s\<rparr>"

definition maintain_filling_group :: "'a FullShardAlloc \<Rightarrow> 'a FullShardAlloc result" where
  "maintain_filling_group w =
     res_bind (do_maintenance (temp_filling_group w)) (\<lambda>g. Inr (w\<lparr>temp_filling_group := g\<rparr>))"

definition do_maintenance_by_collector :: "'a FullShardAlloc \<Rightarrow> 'a FullShardAlloc result" where
  "do_maintenance_by_collector w =
     res_bind (for_r [0..<length (groups w)] (\<lambda>s w.
        res_bind (maintain_filling_group (swap_group s w)) (\<lambda>w. Inr (swap_group s w))) w)
       maintain_filling_group"

text \<open>
  \<open>ShardedBox::drop\<close>: drop the value of every shard, then clear the usage flag, wherever the unit
  that contains the slot is.
\<close>

definition contains :: "addr \<Rightarrow> AllocUnit \<Rightarrow> bool" where
  "contains p u \<longleftrightarrow> (\<exists>i < SLOT_COUNT_PER_UNIT. p = data_ptr u + 8 * i)"

fun dealloc_in :: "addr \<Rightarrow> AllocUnit list \<Rightarrow> AllocUnit list option result" where
  "dealloc_in p [] = Inr None"
| "dealloc_in p (u # us) =
     (if contains p u then res_bind (deallocate_without_dropping p u) (\<lambda>u'. Inr (Some (u' # us)))
      else res_bind (dealloc_in p us) (\<lambda>r. Inr (map_option ((#) u) r)))"

fun dealloc_in_groups :: "addr \<Rightarrow> AllocUnitGroup list \<Rightarrow> AllocUnitGroup list option result" where
  "dealloc_in_groups p [] = Inr None"
| "dealloc_in_groups p (g # gs) =
     res_bind (dealloc_in p (all_units g)) (\<lambda>r. case r of
        Some us \<Rightarrow> Inr (Some (g\<lparr>all_units := us\<rparr> # gs))
      | None \<Rightarrow> res_bind (dealloc_in_groups p gs) (\<lambda>r. Inr (map_option ((#) g) r)))"

definition ShardedBox_drop :: "ShardCount \<Rightarrow> addr \<Rightarrow> 'a FullShardAlloc \<Rightarrow> 'a FullShardAlloc result" where
  "ShardedBox_drop c p w =
     res_bind (dealloc_in_groups p (temp_filling_group w # groups w)) (\<lambda>r. case r of
        Some (t # gs) \<Rightarrow> Inr (w\<lparr>groups := gs, temp_filling_group := t, cells := drop_cells p (shard_indexes c) (cells w)\<rparr>)
      | _ \<Rightarrow> Inl DanglingAccess)"

definition ShardedBox_index :: "addr \<Rightarrow> ShardIndex \<Rightarrow> 'a FullShardAlloc \<Rightarrow> 'a option" where
  "ShardedBox_index p i w = cells w (ptr_at_shard p i)"

record ShardedAllocStatusReport =
  per_shard :: "(nat \<times> nat) list"
  filling_group :: "nat \<times> nat"
  total_used :: nat

text \<open>
  The subtraction \<open>total_slots.sub(total_unused)\<close> panics below zero; the fragment rate is a floating
  point number for logging and is left out.
\<close>

definition get_status_report :: "'a FullShardAlloc \<Rightarrow> ShardedAllocStatusReport result" where
  "get_status_report w =
     (let per = map count_unused_slot_count_and_all_slot_count (groups w);
          fill = count_unused_slot_count_and_all_slot_count (temp_filling_group w);
          total_unused = sum_list (map fst per) + fst fill;
          total_slots = sum_list (map snd per) + snd fill
      in if total_slots < total_unused then Inl ArithmeticOverflow
         else Inr \<lparr>per_shard = per, filling_group = fill, total_used = total_slots - total_unused\<rparr>)"

end
