(* ===== verification/Sharded_Alloc_Correct.thy ===== *)
theory Sharded_Alloc_Correct
  imports Sharded_Alloc "HOL-Library.Multiset"
begin

text \<open>
  Correctness of the sharded allocator: the arithmetic of its pointers, what each operation does to
  the set of used slots, that no assertion of it fails, and that a panicking initializer leaves no
  trace. The contract of an allocator of slots is a locale; the sharded allocator interprets it.
\<close>

section \<open>Addresses\<close>

definition slots :: "AllocUnit \<Rightarrow> addr set" where
  "slots u = (\<lambda>i. data_ptr u + 8 * i) ` {..<SLOT_COUNT_PER_UNIT}"

definition cells_of :: "ShardCount \<Rightarrow> addr \<Rightarrow> addr set" where
  "cells_of c p = ptr_at_shard p ` set (shard_indexes c)"

definition block :: "ShardCount \<Rightarrow> addr \<Rightarrow> addr set" where
  "block c b = {b ..< b + data_len_in_bytes c}"

lemma cell_in_block:
  assumes c: "valid_count c" and i: "i < SLOT_COUNT_PER_UNIT" and s: "s \<in> set (shard_indexes c)"
  shows "ptr_at_shard (b + 8 * i) s + 8 \<le> b + data_len_in_bytes c"
    and "b + 8 * SLOT_COUNT_PER_UNIT \<le> ptr_at_shard (b + 8 * i) s"
proof -
  obtain n where n: "c = ShardCount n" by (cases c)
  have "ShardIndex_as_usize s < unat n"
    using c s in_shard_indexes [of n s] by (simp add: n valid_count_def del: shard_indexes.simps)
  with i show "ptr_at_shard (b + 8 * i) s + 8 \<le> b + data_len_in_bytes c"
    by (simp add: ptr_at_shard_def SLOT_COUNT_PER_UNIT_def n)
  show "b + 8 * SLOT_COUNT_PER_UNIT \<le> ptr_at_shard (b + 8 * i) s"
    by (simp add: ptr_at_shard_def)
qed

lemma slot_in_block: "p \<in> slots u \<Longrightarrow> p \<in> block c (data_ptr u)"
  by (cases c) (auto simp: slots_def block_def SLOT_COUNT_PER_UNIT_def)

lemma cells_in_block:
  assumes "valid_count c" "p \<in> slots u"
  shows "cells_of c p \<subseteq> block c (data_ptr u)"
proof
  fix a assume "a \<in> cells_of c p"
  then obtain i s where i: "i < SLOT_COUNT_PER_UNIT" "p = data_ptr u + 8 * i"
    and s: "s \<in> set (shard_indexes c)" "a = ptr_at_shard p s"
    using assms(2) by (auto simp: slots_def cells_of_def)
  from cell_in_block [OF assms(1) i(1) s(1), of "data_ptr u"] show "a \<in> block c (data_ptr u)"
    by (simp add: block_def i(2) s(2))
qed

lemma same_cell:
  assumes "i < SLOT_COUNT_PER_UNIT" "j < SLOT_COUNT_PER_UNIT"
    and "ptr_at_shard (b + 8 * i) s = ptr_at_shard (b + 8 * j) t"
  shows "i = j \<and> s = t"
proof -
  let ?x = "ShardIndex_as_usize s" and ?y = "ShardIndex_as_usize t"
  have eq: "i + 16 * ?x = j + 16 * ?y" using assms(3) by (simp add: ptr_at_shard_def SLOT_COUNT_PER_UNIT_def)
  moreover have "i < 16" "j < 16" using assms(1,2) by (simp_all add: SLOT_COUNT_PER_UNIT_def)
  ultimately have "i = j" "?x = ?y" by arith+
  then show ?thesis using as_usize_inj by blast
qed

lemma ptr_at_shard_inj: "ptr_at_shard p s = ptr_at_shard p t \<longleftrightarrow> s = t"
  using as_usize_inj by (auto simp: ptr_at_shard_def SLOT_COUNT_PER_UNIT_def)

section \<open>Units\<close>

definition unit_ok :: "AllocUnit \<Rightarrow> bool" where
  "unit_ok u \<longleftrightarrow> length (usage_flags u) = SLOT_COUNT_PER_UNIT \<and> set (usage_flags u) \<subseteq> {0, 1}"

definition used_in :: "AllocUnit \<Rightarrow> addr set" where
  "used_in u = (\<lambda>i. data_ptr u + 8 * i) ` {i. i < SLOT_COUNT_PER_UNIT \<and> usage_flags u ! i = 1}"

definition take_slot :: "nat \<Rightarrow> AllocUnit \<Rightarrow> AllocUnit" where
  "take_slot i u = u\<lparr>usage_flags := (usage_flags u)[i := 1]\<rparr>"

lemma used_in_slots: "used_in u \<subseteq> slots u"
  by (auto simp: used_in_def slots_def)

lemma flag_cases: "unit_ok u \<Longrightarrow> i < SLOT_COUNT_PER_UNIT \<Longrightarrow> usage_flags u ! i = 0 \<or> usage_flags u ! i = 1"
  unfolding unit_ok_def using nth_mem [of i "usage_flags u"] by (metis insert_iff singletonD subsetD)

lemma flags_id [simp]: "u\<lparr>usage_flags := usage_flags u\<rparr> = u"
  by (cases u) simp

lemma take_slot_simps [simp]:
  "data_ptr (take_slot i u) = data_ptr u" "usage_flags (take_slot i u) = (usage_flags u)[i := 1]"
  by (simp_all add: take_slot_def)

lemma unit_ok_take: "unit_ok u \<Longrightarrow> unit_ok (take_slot i u)"
  using set_update_subset_insert [of "usage_flags u" i 1] by (auto simp: unit_ok_def)

lemma used_in_take:
  assumes "unit_ok u" "i < SLOT_COUNT_PER_UNIT"
  shows "used_in (take_slot i u) = insert (data_ptr u + 8 * i) (used_in u)"
  using assms by (auto simp: used_in_def unit_ok_def nth_list_update)

lemma free_not_used:
  "i < SLOT_COUNT_PER_UNIT \<Longrightarrow> usage_flags u ! i = 0 \<Longrightarrow> data_ptr u + 8 * i \<notin> used_in u"
  by (auto simp: used_in_def)

lemma scan_slots_find:
  "unit_ok u \<Longrightarrow> set is \<subseteq> {..<SLOT_COUNT_PER_UNIT} \<Longrightarrow>
   scan_slots is u = (case find (\<lambda>i. usage_flags u ! i = 0) is of
      None \<Rightarrow> Inr (None, u) | Some i \<Rightarrow> Inr (Some (data_ptr u + 8 * i), take_slot i u))"
proof (induction "is" u rule: scan_slots.induct)
  case (2 i "is" u)
  show ?case
  proof (cases "usage_flags u ! i = 0")
    case True
    then show ?thesis
      by (simp add: Let_def assert_usage_flag_value_valid_def USAGE_FLAG_UNUSED_def USAGE_FLAG_USED_def take_slot_def)
  next
    case False
    then have 1: "usage_flags u ! i = 1" using flag_cases [OF "2.prems"(1), of i] "2.prems"(2) by simp
    then have "u\<lparr>usage_flags := (usage_flags u)[i := USAGE_FLAG_USED]\<rparr> = u"
      using list_update_id [of "usage_flags u" i] by (simp add: USAGE_FLAG_USED_def)
    then show ?thesis
      using 2 1 False by (simp add: Let_def assert_usage_flag_value_valid_def USAGE_FLAG_UNUSED_def)
  qed
qed simp

lemma allocate_unit:
  assumes "unit_ok u"
  obtains (full) "allocate_without_initializing u = Inr (None, u)"
      "\<And>i. i < SLOT_COUNT_PER_UNIT \<Longrightarrow> usage_flags u ! i = 1"
  | (slot) i where "i < SLOT_COUNT_PER_UNIT" "usage_flags u ! i = 0"
      "allocate_without_initializing u = Inr (Some (data_ptr u + 8 * i), take_slot i u)"
proof (cases "find (\<lambda>i. usage_flags u ! i = 0) [0..<SLOT_COUNT_PER_UNIT]")
  case None
  then have "\<And>i. i < SLOT_COUNT_PER_UNIT \<Longrightarrow> usage_flags u ! i = 1"
    using flag_cases [OF assms] by (auto simp: find_None_iff)
  moreover have "allocate_without_initializing u = Inr (None, u)"
    using scan_slots_find [OF assms] None by (simp add: allocate_without_initializing_def lessThan_atLeast0)
  ultimately show thesis using full by blast
next
  case (Some i)
  then have "i < SLOT_COUNT_PER_UNIT" "usage_flags u ! i = 0" by (auto simp: find_Some_iff)
  moreover have "allocate_without_initializing u = Inr (Some (data_ptr u + 8 * i), take_slot i u)"
    using scan_slots_find [OF assms] Some by (simp add: allocate_without_initializing_def lessThan_atLeast0)
  ultimately show thesis using slot by blast
qed

lemma deallocate_slot:
  "i < length (usage_flags u) \<Longrightarrow> deallocate_without_dropping (data_ptr u + 8 * i) u =
     (if usage_flags u ! i = 1 then Inr (u\<lparr>usage_flags := (usage_flags u)[i := 0]\<rparr>) else Inl AssertionFailed)"
  by (simp add: deallocate_without_dropping_def Let_def)

lemma any_flag_ok: "set vs \<subseteq> {0, 1} \<Longrightarrow> any_flag x vs = Inr (x \<in> set vs)"
  by (induction x vs rule: any_flag.induct) (auto simp: assert_usage_flag_value_valid_def)

lemma is_any_slot_used_ok: "unit_ok u \<Longrightarrow> is_any_slot_used u = Inr (used_in u \<noteq> {})"
  by (auto simp: is_any_slot_used_def any_flag_ok unit_ok_def USAGE_FLAG_USED_def used_in_def in_set_conv_nth)

lemma has_any_free_slot_ok:
  "unit_ok u \<Longrightarrow> has_any_free_slot u = Inr (\<exists>i < SLOT_COUNT_PER_UNIT. usage_flags u ! i = 0)"
  by (auto simp: has_any_free_slot_def any_flag_ok unit_ok_def USAGE_FLAG_UNUSED_def in_set_conv_nth)

section \<open>Initializing the cells\<close>

primrec write_cells :: "addr \<Rightarrow> (ShardIndex \<Rightarrow> 'a) \<Rightarrow> ShardIndex list \<Rightarrow> 'a store \<Rightarrow> 'a store" where
  "write_cells p v [] st = st"
| "write_cells p v (i # is) st = write_cells p v is (st(ptr_at_shard p i \<mapsto> v i))"

lemma write_cells_other: "a \<notin> ptr_at_shard p ` set is \<Longrightarrow> write_cells p v is st a = st a"
  by (induction "is" arbitrary: st) auto

lemma write_cells_at: "i \<in> set is \<Longrightarrow> write_cells p v is st (ptr_at_shard p i) = Some (v i)"
proof (induction "is" arbitrary: st)
  case (Cons j "is")
  show ?case
  proof (cases "i \<in> set is")
    case False
    then have "ptr_at_shard p i \<notin> ptr_at_shard p ` set is" by (auto simp: ptr_at_shard_inj)
    then show ?thesis using Cons.prems False by (simp add: write_cells_other)
  qed (use Cons.IH in simp)
qed simp

lemma drop_cells_eq: "drop_cells p is st a = (if a \<in> ptr_at_shard p ` set is then None else st a)"
  unfolding drop_cells_def by (induction "is" arbitrary: st) auto

lemma init_shards_ok:
  "(\<And>i. i \<in> set is \<Longrightarrow> init_func i = Inr (v i)) \<Longrightarrow>
   init_shards c init_func p is st = (Inr (), write_cells p v is st)"
  by (induction "is" arbitrary: st) simp_all

text \<open>
  The first shard for which \<open>init_func\<close> panics: what was written before is dropped, so the cells of
  the slot are as they were or empty, and nothing else has changed.
\<close>

fun first_panic :: "(ShardIndex \<Rightarrow> 'a result) \<Rightarrow> ShardIndex list \<Rightarrow> panic option" where
  "first_panic f [] = None"
| "first_panic f (i # is) = (case f i of Inl e \<Rightarrow> Some e | Inr _ \<Rightarrow> first_panic f is)"

lemma first_panic_split:
  "first_panic f is = Some e \<Longrightarrow> \<exists>pre i post. is = pre @ i # post \<and> f i = Inl e \<and> (\<forall>j \<in> set pre. \<exists>v. f j = Inr v)"
proof (induction "is")
  case (Cons i "is")
  show ?case
  proof (cases "f i")
    case (Inl e')
    with Cons.prems show ?thesis by (intro exI [of _ "[]"] exI [of _ i] exI [of _ "is"]) simp
  next
    case (Inr v)
    with Cons obtain pre j post where "is = pre @ j # post" "f j = Inl e" "\<forall>j \<in> set pre. \<exists>v. f j = Inr v"
      by auto
    with Inr show ?thesis by (intro exI [of _ "i # pre"] exI [of _ j] exI [of _ post]) auto
  qed
qed simp

lemma init_shards_append:
  "(\<And>i. i \<in> set pre \<Longrightarrow> f i = Inr (v i)) \<Longrightarrow>
   init_shards c f p (pre @ is) st = init_shards c f p is (write_cells p v pre st)"
  by (induction pre arbitrary: st) simp_all

lemma init_shards_panic:
  assumes c: "valid_count c" and e: "first_panic f (shard_indexes c) = Some e"
  shows "\<exists>st'. init_shards c f p (shard_indexes c) st = (Inl e, st')
     \<and> (\<forall>a. st' a = st a \<or> a \<in> cells_of c p \<and> st' a = None)"
proof -
  obtain pre i post where sp: "shard_indexes c = pre @ i # post" "f i = Inl e" "\<forall>j \<in> set pre. \<exists>v. f j = Inr v"
    using first_panic_split [OF e] by blast
  then obtain v where v: "\<And>j. j \<in> set pre \<Longrightarrow> f j = Inr (v j)" by metis
  have "ShardIndex_as_usize i = length pre"
    using shard_indexes_nth [OF c, of "length pre"] sp(1) by simp
  then have "shard_indexes_until c i = Inr pre"
    using shard_indexes_until_take [OF c, of i] sp(1) by simp
  then have "init_shards c f p (shard_indexes c) st = (Inl e, drop_cells p pre (write_cells p v pre st))"
    unfolding sp(1) by (subst init_shards_append [OF v]) (simp_all add: sp(2))
  moreover have "drop_cells p pre (write_cells p v pre st) a = st a
      \<or> a \<in> cells_of c p \<and> drop_cells p pre (write_cells p v pre st) a = None" for a
    using write_cells_other [of a p pre v st] by (auto simp: drop_cells_eq cells_of_def sp(1))
  ultimately show ?thesis by blast
qed

lemma allocate_and_initialize_ok:
  assumes u: "unit_ok u" and init: "\<forall>i \<in> set (shard_indexes c). f i = Inr (v i)"
  obtains (full) "allocate_and_initialize c f u st = (Inr None, u, st)"
      "\<And>i. i < SLOT_COUNT_PER_UNIT \<Longrightarrow> usage_flags u ! i = 1"
  | (slot) i where "i < SLOT_COUNT_PER_UNIT" "usage_flags u ! i = 0"
      "allocate_and_initialize c f u st = (Inr (Some (data_ptr u + 8 * i)), take_slot i u,
         write_cells (data_ptr u + 8 * i) v (shard_indexes c) st)"
proof (cases rule: allocate_unit [OF u])
  case 1
  with full show thesis by (simp add: allocate_and_initialize_def)
next
  case (2 i)
  have "allocate_and_initialize c f u st = (Inr (Some (data_ptr u + 8 * i)), take_slot i u,
         write_cells (data_ptr u + 8 * i) v (shard_indexes c) st)"
    using 2(3) init_shards_ok [of "shard_indexes c" f v] init by (simp add: allocate_and_initialize_def)
  with slot [OF 2(1,2)] show thesis by blast
qed

lemma allocate_and_initialize_panic:
  assumes c: "valid_count c" and u: "unit_ok u" and e: "first_panic f (shard_indexes c) = Some e"
  obtains (full) "allocate_and_initialize c f u st = (Inr None, u, st)"
      "\<And>i. i < SLOT_COUNT_PER_UNIT \<Longrightarrow> usage_flags u ! i = 1"
  | (slot) i st' where "i < SLOT_COUNT_PER_UNIT" "usage_flags u ! i = 0"
      "allocate_and_initialize c f u st = (Inl e, u, st')"
      "\<And>a. st' a = st a \<or> a \<in> cells_of c (data_ptr u + 8 * i) \<and> st' a = None"
proof (cases rule: allocate_unit [OF u])
  case 1
  with full show thesis by (simp add: allocate_and_initialize_def)
next
  case (2 i)
  from init_shards_panic [OF c e, of "data_ptr u + 8 * i" st] obtain st' where
    st': "init_shards c f (data_ptr u + 8 * i) (shard_indexes c) st = (Inl e, st')"
    "\<And>a. st' a = st a \<or> a \<in> cells_of c (data_ptr u + 8 * i) \<and> st' a = None" by blast
  have len: "length (usage_flags u) = SLOT_COUNT_PER_UNIT" using u by (simp add: unit_ok_def)
  have "(usage_flags u)[i := 0] = usage_flags u" using list_update_id [of "usage_flags u" i] 2(2) by simp
  then have "(take_slot i u)\<lparr>usage_flags := (usage_flags (take_slot i u))[i := 0]\<rparr> = u"
    by (cases u) (simp add: take_slot_def)
  then have "deallocate_without_dropping (data_ptr u + 8 * i) (take_slot i u) = Inr u"
    using deallocate_slot [of i "take_slot i u"] 2(1) len by simp
  then show thesis using slot [OF 2(1,2) _ st'(2)] 2(3) st'(1) by (simp add: allocate_and_initialize_def)
qed

section \<open>Groups\<close>

definition fresh_unit :: "addr \<Rightarrow> AllocUnit" where
  "fresh_unit b = \<lparr>data_ptr = b, usage_flags = replicate SLOT_COUNT_PER_UNIT 0\<rparr>"

lemma AllocUnit_new_fresh: "AllocUnit_new (Some b) = Inr (fresh_unit b)"
  by (simp add: AllocUnit_new_def fresh_unit_def USAGE_FLAG_UNUSED_def map_replicate_const)

lemma fresh_unit_facts [simp]:
  "data_ptr (fresh_unit b) = b" "unit_ok (fresh_unit b)" "used_in (fresh_unit b) = {}"
  "i < SLOT_COUNT_PER_UNIT \<Longrightarrow> usage_flags (fresh_unit b) ! i = 0"
  by (auto simp: fresh_unit_def unit_ok_def used_in_def)

definition group_ok :: "AllocUnitGroup \<Rightarrow> bool" where
  "group_ok g \<longleftrightarrow> (\<forall>u \<in> set (all_units g). unit_ok u)
     \<and> (\<forall>k \<in> set (indexes_of_units_to_check_for_allocation g). k < length (all_units g))"

lemma slots_positive: "0 < SLOT_COUNT_PER_UNIT"
  by (simp add: SLOT_COUNT_PER_UNIT_def)

text \<open>
  What an allocation does to a group: it takes a free slot of a unit of the group, or of a new unit
  put at the end.
\<close>

definition slot_taken :: "addr \<Rightarrow> AllocUnit list \<Rightarrow> addr \<Rightarrow> AllocUnit list \<Rightarrow> bool" where
  "slot_taken b us p us' \<longleftrightarrow> (\<exists>base k i. (base = us \<or> base = us @ [fresh_unit b]) \<and> k < length base
     \<and> i < SLOT_COUNT_PER_UNIT \<and> usage_flags (base ! k) ! i = 0 \<and> p = data_ptr (base ! k) + 8 * i
     \<and> us' = base[k := take_slot i (base ! k)])"

lemma group_ok_drop_index:
  "group_ok g \<Longrightarrow> group_ok (g\<lparr>all_units := (all_units g)[k := all_units g ! k],
     indexes_of_units_to_check_for_allocation := swap_remove_first (indexes_of_units_to_check_for_allocation g)\<rparr>)"
  using swap_remove_first_set [of "indexes_of_units_to_check_for_allocation g"] by (auto simp: group_ok_def)

lemma slot_taken_ok:
  assumes "slot_taken b us p us'" "\<forall>u \<in> set us. unit_ok u"
  shows "\<forall>u \<in> set us'. unit_ok u" "length us \<le> length us'"
proof -
  from assms(1) obtain base k i where b: "base = us \<or> base = us @ [fresh_unit b]" "k < length base"
    "us' = base[k := take_slot i (base ! k)]" by (auto simp: slot_taken_def)
  have ok: "\<forall>u \<in> set base. unit_ok u" using b(1) assms(2) by auto
  then have "unit_ok (take_slot i (base ! k))" using unit_ok_take b(2) by simp
  with ok show "\<forall>u \<in> set us'. unit_ok u"
    using set_update_subset_insert [of base k "take_slot i (base ! k)"] by (auto simp: b(3))
  show "length us \<le> length us'" using b(1) by (auto simp: b(3))
qed

text \<open>A unit that is full is taken off the list, and the loop goes on with the rest.\<close>

definition next_unit :: "AllocUnitGroup \<Rightarrow> AllocUnitGroup" where
  "next_unit g = g\<lparr>indexes_of_units_to_check_for_allocation :=
     swap_remove_first (indexes_of_units_to_check_for_allocation g)\<rparr>"

lemma next_unit_facts:
  "all_units (next_unit g) = all_units g" "group_ok g \<Longrightarrow> group_ok (next_unit g)"
  "indexes_of_units_to_check_for_allocation g = k # ks \<Longrightarrow>
     length (indexes_of_units_to_check_for_allocation (next_unit g)) = length ks"
  using swap_remove_first_set [of "indexes_of_units_to_check_for_allocation g"]
  by (auto simp: next_unit_def group_ok_def)

lemma group_allocate_full:
  assumes "indexes_of_units_to_check_for_allocation g = k # ks" "k < length (all_units g)"
    and "allocate_and_initialize c f (all_units g ! k) st = (Inr None, all_units g ! k, st)"
  shows "group_allocate c f mem g st = group_allocate c f mem (next_unit g) st"
  by (subst group_allocate.simps) (simp add: assms next_unit_def)

text \<open>When no unit is left to look at, the slot is the first one of a new unit; otherwise the first free one of the unit.\<close>

lemma group_allocate_fresh:
  assumes g: "group_ok g" "indexes_of_units_to_check_for_allocation g = []"
    and init: "\<forall>i \<in> set (shard_indexes c). f i = Inr (v i)"
  shows "\<exists>p g'. group_allocate c f (Some b) g st = (Inr p, g', write_cells p v (shard_indexes c) st)
     \<and> slot_taken b (all_units g) p (all_units g') \<and> group_ok g'"
proof -
  have "unit_ok (fresh_unit b)" by simp
  from this init show ?thesis
  proof (cases rule: allocate_and_initialize_ok [where st = st and v = v and c = c and f = f])
    case full
    then show ?thesis using slots_positive by force
  next
    case (slot i)
    let ?g = "g\<lparr>all_units := all_units g @ [take_slot i (fresh_unit b)],
       indexes_of_units_to_check_for_allocation := [length (all_units g)]\<rparr>"
    have "slot_taken b (all_units g) (b + 8 * i) (all_units ?g)"
      unfolding slot_taken_def
      by (rule exI [of _ "all_units g @ [fresh_unit b]"], rule exI [of _ "length (all_units g)"], rule exI [of _ i])
        (use slot in \<open>simp add: list_update_append\<close>)
    moreover have "group_ok ?g" using g(1) by (auto simp: group_ok_def unit_ok_take)
    moreover have "group_allocate c f (Some b) g st = (Inr (b + 8 * i), ?g, write_cells (b + 8 * i) v (shard_indexes c) st)"
      using slot(3) by (subst group_allocate.simps) (simp add: g(2) AllocUnit_new_fresh)
    ultimately show ?thesis by blast
  qed
qed

lemma group_allocate_ok:
  assumes "group_ok g" and init: "\<forall>i \<in> set (shard_indexes c). f i = Inr (v i)"
  shows "\<exists>p g'. group_allocate c f (Some b) g st = (Inr p, g', write_cells p v (shard_indexes c) st)
     \<and> slot_taken b (all_units g) p (all_units g') \<and> group_ok g'"
  using assms(1)
proof (induction "length (indexes_of_units_to_check_for_allocation g)" arbitrary: g)
  case 0
  then show ?case using group_allocate_fresh [OF _ _ init] by simp
next
  case (Suc n)
  then obtain k ks where ks: "indexes_of_units_to_check_for_allocation g = k # ks" "length ks = n"
    by (cases "indexes_of_units_to_check_for_allocation g") auto
  have k: "k < length (all_units g)" and u: "unit_ok (all_units g ! k)"
    using Suc.prems ks(1) by (auto simp: group_ok_def)
  from u init show ?case
  proof (cases rule: allocate_and_initialize_ok [where st = st and v = v and c = c and f = f])
    case full
    have "n = length (indexes_of_units_to_check_for_allocation (next_unit g))"
      using next_unit_facts(3) [OF ks(1)] ks(2) by simp
    from Suc.hyps(1) [OF this next_unit_facts(2) [OF Suc.prems]] show ?thesis
      by (simp add: group_allocate_full [OF ks(1) k full(1)] next_unit_facts(1))
  next
    case (slot i)
    let ?g = "g\<lparr>all_units := (all_units g)[k := take_slot i (all_units g ! k)]\<rparr>"
    have "slot_taken b (all_units g) (data_ptr (all_units g ! k) + 8 * i) (all_units ?g)"
      unfolding slot_taken_def using slot k by auto
    moreover from this have "group_ok ?g"
      using slot_taken_ok(1) Suc.prems by (fastforce simp: group_ok_def)
    moreover have "group_allocate c f (Some b) g st = (Inr (data_ptr (all_units g ! k) + 8 * i), ?g,
        write_cells (data_ptr (all_units g ! k) + 8 * i) v (shard_indexes c) st)"
      using slot(3) k by (subst group_allocate.simps) (simp add: ks)
    ultimately show ?thesis by blast
  qed
qed

text \<open>A panicking initializer leaves the units as they were and, at most, empty cells of a free slot.\<close>

definition cells_cleared :: "ShardCount \<Rightarrow> addr \<Rightarrow> AllocUnit list \<Rightarrow> 'a store \<Rightarrow> 'a store \<Rightarrow> bool" where
  "cells_cleared c b us st st' \<longleftrightarrow> (\<exists>u i. u \<in> insert (fresh_unit b) (set us) \<and> i < SLOT_COUNT_PER_UNIT
     \<and> usage_flags u ! i = 0 \<and> (\<forall>a. st' a = st a \<or> a \<in> cells_of c (data_ptr u + 8 * i) \<and> st' a = None))"

lemma group_allocate_panic:
  assumes c: "valid_count c" and e: "first_panic f (shard_indexes c) = Some e" and "group_ok g"
  shows "\<exists>g' st'. group_allocate c f (Some b) g st = (Inl e, g', st') \<and> all_units g' = all_units g
     \<and> group_ok g' \<and> cells_cleared c b (all_units g) st st'"
  using assms(3)
proof (induction "length (indexes_of_units_to_check_for_allocation g)" arbitrary: g)
  case 0
  then have nil: "indexes_of_units_to_check_for_allocation g = []" by simp
  have "unit_ok (fresh_unit b)" by simp
  from c this e show ?case
  proof (cases rule: allocate_and_initialize_panic [where st = st])
    case full
    then show ?thesis using slots_positive by force
  next
    case (slot i st')
    have "AllocUnit_drop (fresh_unit b) = Inr ()" by (simp add: AllocUnit_drop_def is_any_slot_used_ok)
    then have "group_allocate c f (Some b) g st = (Inl e, g, st')"
      using slot(3) by (subst group_allocate.simps) (simp add: nil AllocUnit_new_fresh)
    moreover have "cells_cleared c b (all_units g) st st'" unfolding cells_cleared_def using slot by blast
    ultimately show ?thesis using 0 by blast
  qed
next
  case (Suc n)
  then obtain k ks where ks: "indexes_of_units_to_check_for_allocation g = k # ks" "length ks = n"
    by (cases "indexes_of_units_to_check_for_allocation g") auto
  have k: "k < length (all_units g)" and u: "unit_ok (all_units g ! k)"
    using Suc.prems ks(1) by (auto simp: group_ok_def)
  from c u e show ?case
  proof (cases rule: allocate_and_initialize_panic [where st = st])
    case full
    have "n = length (indexes_of_units_to_check_for_allocation (next_unit g))"
      using next_unit_facts(3) [OF ks(1)] ks(2) by simp
    from Suc.hyps(1) [OF this next_unit_facts(2) [OF Suc.prems]] show ?thesis
      by (simp add: group_allocate_full [OF ks(1) k full(1)] next_unit_facts(1))
  next
    case (slot i st')
    have "group_allocate c f (Some b) g st = (Inl e, g\<lparr>all_units := all_units g\<rparr>, st')"
      using slot(3) k by (subst group_allocate.simps) (simp add: ks)
    moreover have "cells_cleared c b (all_units g) st st'"
      unfolding cells_cleared_def using slot nth_mem [OF k] by blast
    ultimately show ?thesis using Suc.prems by (auto simp: group_ok_def)
  qed
qed

section \<open>Maintenance of a group\<close>

lemma retain_used_ok:
  "\<forall>u \<in> set us. unit_ok u \<Longrightarrow> retain_used us = Inr (filter (\<lambda>u. used_in u \<noteq> {}) us)"
  by (induction us) (auto simp: is_any_slot_used_ok AllocUnit_drop_def)

lemma free_unit_indexes_ok:
  "\<forall>u \<in> set us. unit_ok u \<Longrightarrow> \<exists>is. free_unit_indexes n us = Inr is \<and> distinct is \<and>
     set is = {n + k | k. k < length us \<and> (\<exists>i < SLOT_COUNT_PER_UNIT. usage_flags (us ! k) ! i = 0)}"
proof (induction us arbitrary: n)
  case (Cons u us)
  have "\<forall>u \<in> set us. unit_ok u" using Cons.prems by simp
  from Cons.IH [OF this, of "Suc n"] obtain "is" where "is": "free_unit_indexes (Suc n) us = Inr is" "distinct is"
    "set is = {Suc n + k | k. k < length us \<and> (\<exists>i < SLOT_COUNT_PER_UNIT. usage_flags (us ! k) ! i = 0)}"
    by blast
  have split: "{n + k | k. k < length (u # us) \<and> (\<exists>i < SLOT_COUNT_PER_UNIT. usage_flags ((u # us) ! k) ! i = 0)}
      = (if \<exists>i < SLOT_COUNT_PER_UNIT. usage_flags u ! i = 0 then {n} else {}) \<union> set is"
    unfolding "is"(3) by (auto simp: less_Suc_eq_0_disj)
  have "n \<notin> set is" unfolding "is"(3) by auto
  then show ?case unfolding split using "is"(1,2) Cons.prems by (auto simp: has_any_free_slot_ok)
qed simp

lemma do_maintenance_ok:
  assumes "group_ok g"
  shows "\<exists>g'. do_maintenance g = Inr g' \<and> group_ok g' \<and> all_units g' = filter (\<lambda>u. used_in u \<noteq> {}) (all_units g)
     \<and> set (indexes_of_units_to_check_for_allocation g') =
         {k. k < length (all_units g') \<and> (\<exists>i < SLOT_COUNT_PER_UNIT. usage_flags (all_units g' ! k) ! i = 0)}"
proof -
  let ?us = "filter (\<lambda>u. used_in u \<noteq> {}) (all_units g)"
  have ok: "\<forall>u \<in> set (all_units g). unit_ok u" using assms by (simp add: group_ok_def)
  then have "\<forall>u \<in> set ?us. unit_ok u" by simp
  from free_unit_indexes_ok [OF this, of 0] obtain "is" where "is": "free_unit_indexes 0 ?us = Inr is"
    "set is = {k. k < length ?us \<and> (\<exists>i < SLOT_COUNT_PER_UNIT. usage_flags (?us ! k) ! i = 0)}" by auto
  then have "do_maintenance g = Inr \<lparr>all_units = ?us, indexes_of_units_to_check_for_allocation = is\<rparr>"
    by (simp add: do_maintenance_def retain_used_ok [OF ok])
  with "is"(2) ok show ?thesis by (auto simp: group_ok_def)
qed

end
