(* ===== verification/Sharded_Alloc_System.thy ===== *)
theory Sharded_Alloc_System
  imports Sharded_Alloc_Correct
begin

text \<open>
  The whole sharded allocator, with its groups, the temporary filling group and the cells: which
  slots are in use, the invariant that its operations keep, and the contract it fulfils.
\<close>

section \<open>The contract of an allocator of slots\<close>

datatype slot_op = AllocOp addr | FreeOp addr | TidyOp

inductive slot_run :: "('s \<Rightarrow> addr \<Rightarrow> 's \<Rightarrow> bool) \<Rightarrow> ('s \<Rightarrow> addr \<Rightarrow> 's \<Rightarrow> bool) \<Rightarrow> ('s \<Rightarrow> 's \<Rightarrow> bool)
    \<Rightarrow> 's \<Rightarrow> slot_op list \<Rightarrow> 's \<Rightarrow> bool"
  for alloc free :: "'s \<Rightarrow> addr \<Rightarrow> 's \<Rightarrow> bool" and tidy :: "'s \<Rightarrow> 's \<Rightarrow> bool" where
  run_nil: "slot_run alloc free tidy s [] s"
| run_alloc: "slot_run alloc free tidy s ops s' \<Longrightarrow> alloc s' p s'' \<Longrightarrow> slot_run alloc free tidy s (ops @ [AllocOp p]) s''"
| run_free: "slot_run alloc free tidy s ops s' \<Longrightarrow> free s' p s'' \<Longrightarrow> slot_run alloc free tidy s (ops @ [FreeOp p]) s''"
| run_tidy: "slot_run alloc free tidy s ops s' \<Longrightarrow> tidy s' s'' \<Longrightarrow> slot_run alloc free tidy s (ops @ [TidyOp]) s''"

text \<open>The slots in use after a sequence of operations, and whether the sequence is one that a correct
  allocator can show: no slot is handed out while it is in use, and only slots in use are freed.\<close>

fun live_after :: "addr set \<Rightarrow> slot_op list \<Rightarrow> addr set" where
  "live_after U [] = U"
| "live_after U (AllocOp p # ops) = live_after (insert p U) ops"
| "live_after U (FreeOp p # ops) = live_after (U - {p}) ops"
| "live_after U (TidyOp # ops) = live_after U ops"

fun correct_trace :: "addr set \<Rightarrow> slot_op list \<Rightarrow> bool" where
  "correct_trace U [] = True"
| "correct_trace U (AllocOp p # ops) = (p \<notin> U \<and> correct_trace (insert p U) ops)"
| "correct_trace U (FreeOp p # ops) = (p \<in> U \<and> correct_trace (U - {p}) ops)"
| "correct_trace U (TidyOp # ops) = correct_trace U ops"

lemma live_after_append: "live_after U (xs @ ys) = live_after (live_after U xs) ys"
  by (induction U xs rule: live_after.induct) auto

lemma correct_trace_append: "correct_trace U (xs @ ys) = (correct_trace U xs \<and> correct_trace (live_after U xs) ys)"
  by (induction U xs rule: correct_trace.induct) auto

locale slot_allocator =
  fixes ok :: "'s \<Rightarrow> bool" and used :: "'s \<Rightarrow> addr set" and alloc free :: "'s \<Rightarrow> addr \<Rightarrow> 's \<Rightarrow> bool"
    and tidy :: "'s \<Rightarrow> 's \<Rightarrow> bool"
  assumes alloc_law: "ok s \<Longrightarrow> alloc s p s' \<Longrightarrow> ok s' \<and> p \<notin> used s \<and> used s' = insert p (used s)"
    and free_law: "ok s \<Longrightarrow> free s p s' \<Longrightarrow> ok s' \<and> p \<in> used s \<and> used s' = used s - {p}"
    and tidy_law: "ok s \<Longrightarrow> tidy s s' \<Longrightarrow> ok s' \<and> used s' = used s"
begin

lemma run_correct:
  "slot_run alloc free tidy s ops s' \<Longrightarrow> ok s \<Longrightarrow>
     ok s' \<and> used s' = live_after (used s) ops \<and> correct_trace (used s) ops"
proof (induction rule: slot_run.induct)
  case (run_alloc s ops s' p s'')
  then show ?case using alloc_law [of s' p s''] by (simp add: live_after_append correct_trace_append)
next
  case (run_free s ops s' p s'')
  then show ?case using free_law [of s' p s''] by (simp add: live_after_append correct_trace_append)
next
  case (run_tidy s ops s' s'')
  then show ?case using tidy_law [of s' s''] by (simp add: live_after_append correct_trace_append)
qed simp

end

section \<open>Slots in use\<close>

definition used_slots_of :: "AllocUnit list \<Rightarrow> addr set" where
  "used_slots_of us = (\<Union>u \<in> set us. used_in u)"

definition layout_ok :: "ShardCount \<Rightarrow> addr list \<Rightarrow> bool" where
  "layout_ok c ps \<longleftrightarrow> distinct ps \<and> (\<forall>a \<in> set ps. \<forall>b \<in> set ps. a \<noteq> b \<longrightarrow> block c a \<inter> block c b = {})"

lemma layout_mset: "mset ps = mset qs \<Longrightarrow> layout_ok c ps = layout_ok c qs"
  unfolding layout_ok_def using mset_eq_imp_distinct_iff mset_eq_setD by blast

lemma layout_insert:
  "layout_ok c ps \<Longrightarrow> b \<notin> set ps \<Longrightarrow> (\<forall>a \<in> set ps. block c b \<inter> block c a = {}) \<Longrightarrow> layout_ok c (b # ps)"
  unfolding layout_ok_def by (auto simp: Int_commute)

lemma layout_filter:
  assumes "layout_ok c (map data_ptr (us @ vs))"
  shows "layout_ok c (map data_ptr (filter P us @ vs))"
proof -
  have "distinct (map data_ptr (filter P us @ vs))"
    using assms by (auto simp: layout_ok_def distinct_map_filter)
  moreover have "set (map data_ptr (filter P us @ vs)) \<subseteq> set (map data_ptr (us @ vs))" by auto
  ultimately show ?thesis using assms unfolding layout_ok_def by (meson subsetD)
qed

lemma block_nonempty: "b \<in> block c b"
  by (cases c) (simp add: block_def SLOT_COUNT_PER_UNIT_def)

text \<open>A slot belongs to one unit only.\<close>

lemma slot_unique:
  assumes lay: "layout_ok c (map data_ptr us)" and k: "k < length us" "j < length us" and ne: "j \<noteq> k"
    and p: "p \<in> slots (us ! k)"
  shows "p \<notin> slots (us ! j)"
proof
  assume "p \<in> slots (us ! j)"
  then have "p \<in> block c (data_ptr (us ! j))" "p \<in> block c (data_ptr (us ! k))" using slot_in_block p by blast+
  moreover have "data_ptr (us ! j) \<noteq> data_ptr (us ! k)"
    using lay k ne unfolding layout_ok_def by (metis length_map nth_eq_iff_index_eq nth_map)
  moreover have "us ! j \<in> set us" "us ! k \<in> set us" using k by simp_all
  ultimately show False using lay unfolding layout_ok_def by fastforce
qed

lemma used_update:
  assumes "k < length us"
  shows "used_slots_of (us[k := u]) = used_in u \<union> (\<Union>j \<in> {..<length us} - {k}. used_in (us ! j))"
    and "used_slots_of us = used_in (us ! k) \<union> (\<Union>j \<in> {..<length us} - {k}. used_in (us ! j))"
proof -
  have gen: "used_slots_of xs = (\<Union>j < length xs. used_in (xs ! j))" for xs
    unfolding used_slots_of_def set_conv_nth by auto
  have sp: "{..<length us} = insert k ({..<length us} - {k})" using assms by auto
  show "used_slots_of us = used_in (us ! k) \<union> (\<Union>j \<in> {..<length us} - {k}. used_in (us ! j))"
    unfolding gen by (subst sp) auto
  have "used_slots_of (us[k := u]) = (\<Union>j \<in> insert k ({..<length us} - {k}). used_in (us[k := u] ! j))"
    unfolding gen using sp by simp
  also have "\<dots> = used_in u \<union> (\<Union>j \<in> {..<length us} - {k}. used_in (us ! j))"
    using assms by (auto simp: nth_list_update split: if_splits)
  finally show "used_slots_of (us[k := u]) = used_in u \<union> (\<Union>j \<in> {..<length us} - {k}. used_in (us ! j))" .
qed

lemma take_at:
  assumes lay: "layout_ok c (map data_ptr us)" and ok: "\<forall>u \<in> set us. unit_ok u"
    and k: "k < length us" and i: "i < SLOT_COUNT_PER_UNIT" "usage_flags (us ! k) ! i = 0"
  defines "p \<equiv> data_ptr (us ! k) + 8 * i"
  shows "used_slots_of (us[k := take_slot i (us ! k)]) = insert p (used_slots_of us)" "p \<notin> used_slots_of us"
    "map data_ptr (us[k := take_slot i (us ! k)]) = map data_ptr us"
proof -
  have u: "unit_ok (us ! k)" using ok k by simp
  show "used_slots_of (us[k := take_slot i (us ! k)]) = insert p (used_slots_of us)"
    unfolding used_update(1) [OF k] used_update(2) [OF k] used_in_take [OF u i(1)] p_def by simp
  have "p \<in> slots (us ! k)" using i(1) by (auto simp: slots_def p_def)
  then have "p \<notin> used_in (us ! j)" if "j < length us" "j \<noteq> k" for j
    using slot_unique [OF lay k that] used_in_slots by blast
  then show "p \<notin> used_slots_of us"
    unfolding used_update(2) [OF k] using free_not_used [OF i] by (auto simp: p_def)
  show "map data_ptr (us[k := take_slot i (us ! k)]) = map data_ptr us"
    using k by (simp add: map_update list_update_same_conv)
qed

section \<open>The invariant\<close>

definition units_of :: "'a FullShardAlloc \<Rightarrow> AllocUnit list" where
  "units_of w = all_units (temp_filling_group w) @ concat (map all_units (groups w))"

definition used :: "'a FullShardAlloc \<Rightarrow> addr set" where
  "used w = used_slots_of (units_of w)"

definition fresh_block :: "ShardCount \<Rightarrow> addr \<Rightarrow> 'a FullShardAlloc \<Rightarrow> bool" where
  "fresh_block c b w \<longleftrightarrow> (\<forall>u \<in> set (units_of w). block c b \<inter> block c (data_ptr u) = {})"

definition alloc_ok :: "ShardCount \<Rightarrow> 'a FullShardAlloc \<Rightarrow> bool" where
  "alloc_ok c w \<longleftrightarrow> (\<forall>g \<in> set (temp_filling_group w # groups w). group_ok g)
     \<and> layout_ok c (map data_ptr (units_of w))
     \<and> (\<forall>a. cells w a \<noteq> None \<longrightarrow> (\<exists>p \<in> used w. a \<in> cells_of c p))"

lemma alloc_okD:
  assumes "alloc_ok c w"
  shows "group_ok (temp_filling_group w)" "s < length (groups w) \<Longrightarrow> group_ok (groups w ! s)"
    "layout_ok c (map data_ptr (units_of w))" "\<forall>u \<in> set (units_of w). unit_ok u"
    "cells w a \<noteq> None \<Longrightarrow> \<exists>p \<in> used w. a \<in> cells_of c p"
  using assms by (auto simp: alloc_ok_def units_of_def group_ok_def)

lemma group_split:
  assumes "s < length (groups w)"
  obtains A B where "units_of w = A @ all_units (groups w ! s) @ B"
    "\<And>g st. units_of (w\<lparr>groups := (groups w)[s := g], cells := st\<rparr>) = A @ all_units g @ B"
proof -
  let ?xs = "map all_units (groups w)"
  have s: "s < length ?xs" using assms by simp
  show thesis
  proof (rule that)
    show "units_of w = (all_units (temp_filling_group w) @ concat (take s ?xs)) @ all_units (groups w ! s) @ concat (drop (Suc s) ?xs)"
      unfolding units_of_def using concat_split_nth [OF s] assms by simp
    show "units_of (w\<lparr>groups := (groups w)[s := g], cells := st\<rparr>) =
        (all_units (temp_filling_group w) @ concat (take s ?xs)) @ all_units g @ concat (drop (Suc s) ?xs)" for g st
      unfolding units_of_def using concat_update [OF s, of "all_units g"] by (simp add: map_update)
  qed
qed

lemma slot_taken_world:
  assumes lay: "layout_ok c (map data_ptr (A @ us @ B))" and ok: "\<forall>u \<in> set (A @ us @ B). unit_ok u"
    and fresh: "\<forall>u \<in> set (A @ us @ B). block c b \<inter> block c (data_ptr u) = {}"
    and tk: "slot_taken b us p us'"
  shows "layout_ok c (map data_ptr (A @ us' @ B))" "used_slots_of (A @ us' @ B) = insert p (used_slots_of (A @ us @ B))"
    "p \<notin> used_slots_of (A @ us @ B)"
proof -
  from tk obtain base k i where base: "base = us \<or> base = us @ [fresh_unit b]" and k: "k < length base"
    and i: "i < SLOT_COUNT_PER_UNIT" "usage_flags (base ! k) ! i = 0" and p: "p = data_ptr (base ! k) + 8 * i"
    and us': "us' = base[k := take_slot i (base ! k)]" by (auto simp: slot_taken_def)
  let ?K = "length A + k" and ?all = "A @ base @ B"
  have all_ok: "\<forall>u \<in> set ?all. unit_ok u" using base ok by auto
  have all_used: "used_slots_of ?all = used_slots_of (A @ us @ B)" using base by (auto simp: used_slots_of_def)
  have all_lay: "layout_ok c (map data_ptr ?all)"
  proof (cases "base = us")
    case False
    have nin: "b \<notin> set (map data_ptr (A @ us @ B))" using fresh block_nonempty [of b c] by fastforce
    have "layout_ok c (b # map data_ptr (A @ us @ B))"
      by (rule layout_insert [OF lay nin]) (use fresh in auto)
    moreover have "mset (map data_ptr ?all) = mset (b # map data_ptr (A @ us @ B))" using base False by simp
    ultimately show ?thesis using layout_mset by blast
  qed (use lay in simp)
  have K: "?K < length ?all" "?all ! ?K = base ! k" using k by (simp_all add: nth_append)
  have upd: "A @ us' @ B = ?all[?K := take_slot i (?all ! ?K)]"
    using k by (simp add: us' nth_append list_update_append)
  note ta = take_at [OF all_lay all_ok K(1) i(1), unfolded K(2), OF i(2), folded p]
  show "layout_ok c (map data_ptr (A @ us' @ B))" using ta(3) all_lay unfolding upd K(2) by simp
  show "used_slots_of (A @ us' @ B) = insert p (used_slots_of (A @ us @ B))"
    using ta(1) unfolding upd K(2) all_used .
  show "p \<notin> used_slots_of (A @ us @ B)" using ta(2) unfolding all_used .
qed

lemma write_cells_dom:
  assumes "\<forall>a. st a \<noteq> None \<longrightarrow> (\<exists>p \<in> U. a \<in> cells_of c p)" "write_cells p v (shard_indexes c) st a \<noteq> None"
  shows "\<exists>p \<in> insert p U. a \<in> cells_of c p"
proof (cases "a \<in> cells_of c p")
  case False
  then have "st a \<noteq> None" using assms(2) write_cells_other [of a p "shard_indexes c" v st] by (simp add: cells_of_def)
  then show ?thesis using assms(1) by blast
qed simp

lemma allocate_and_init_ok:
  assumes c: "valid_count c" and ok: "alloc_ok c w" and s: "s < length (groups w)" and fresh: "fresh_block c b w"
    and init: "\<forall>i \<in> set (shard_indexes c). f i = Inr (v i)"
  shows "\<exists>p w'. allocate_and_init c s f (Some b) w = (Inr p, w') \<and> alloc_ok c w'
     \<and> p \<notin> used w \<and> used w' = insert p (used w) \<and> cells w' = write_cells p v (shard_indexes c) (cells w)"
proof -
  from group_allocate_ok [OF alloc_okD(2) [OF ok s] init, of b "cells w"] obtain p g' where
    g: "group_allocate c f (Some b) (groups w ! s) (cells w) = (Inr p, g', write_cells p v (shard_indexes c) (cells w))"
    "slot_taken b (all_units (groups w ! s)) p (all_units g')" "group_ok g'" by blast
  from s obtain A B where sp: "units_of w = A @ all_units (groups w ! s) @ B"
    "\<And>g st. units_of (w\<lparr>groups := (groups w)[s := g], cells := st\<rparr>) = A @ all_units g @ B"
    by (rule group_split) blast
  define w' where "w' = w\<lparr>groups := (groups w)[s := g'], cells := write_cells p v (shard_indexes c) (cells w)\<rparr>"
  have st: "allocate_and_init c s f (Some b) w = (Inr p, w')" using s g(1) by (simp add: allocate_and_init_def w'_def)
  have us: "units_of w' = A @ all_units g' @ B" unfolding w'_def by (rule sp(2))
  note t = slot_taken_world [OF alloc_okD(3) [OF ok, unfolded sp(1)] alloc_okD(4) [OF ok, unfolded sp(1)]
      fresh [unfolded fresh_block_def sp(1)] g(2)]
  have u: "used w' = insert p (used w)" unfolding used_def us sp(1) by (rule t(2))
  have cl: "cells w' = write_cells p v (shard_indexes c) (cells w)" by (simp add: w'_def)
  have "\<forall>x \<in> set (temp_filling_group w' # groups w'). group_ok x"
    using ok g(3) set_update_subset_insert [of "groups w" s g'] by (auto simp: w'_def alloc_ok_def)
  moreover have "\<exists>p \<in> used w'. a \<in> cells_of c p" if "cells w' a \<noteq> None" for a
    using write_cells_dom [of "cells w" "used w" c p v a] that ok unfolding u cl alloc_ok_def by blast
  ultimately have "alloc_ok c w'" using t(1) by (auto simp: alloc_ok_def us)
  moreover have "p \<notin> used w" unfolding used_def sp(1) by (rule t(3))
  ultimately show ?thesis using st u by (auto simp: w'_def)
qed

text \<open>A panicking initializer changes nothing that matters: same units, same cells.\<close>

lemma cells_cleared_same:
  assumes c: "valid_count c" and ok: "alloc_ok c w" and fresh: "fresh_block c b w"
    and us: "set us \<subseteq> set (units_of w)" and cl: "cells_cleared c b us (cells w) st'"
  shows "st' = cells w"
proof
  fix a
  from cl obtain u i where u: "u \<in> insert (fresh_unit b) (set us)" and i: "i < SLOT_COUNT_PER_UNIT" "usage_flags u ! i = 0"
    and st': "st' a = cells w a \<or> a \<in> cells_of c (data_ptr u + 8 * i) \<and> st' a = None"
    by (auto simp: cells_cleared_def)
  have "cells w a = None" if a: "a \<in> cells_of c (data_ptr u + 8 * i)"
  proof (rule ccontr)
    assume "cells w a \<noteq> None"
    then obtain q where q: "q \<in> used w" "a \<in> cells_of c q" using alloc_okD(5) [OF ok] by blast
    then obtain x where x: "x \<in> set (units_of w)" "q \<in> used_in x" by (auto simp: used_def used_slots_of_def)
    then obtain j where j: "j < SLOT_COUNT_PER_UNIT" "q = data_ptr x + 8 * j" "usage_flags x ! j = 1"
      by (auto simp: used_in_def)
    have "data_ptr u + 8 * i \<in> slots u" using i(1) by (auto simp: slots_def)
    then have in_u: "a \<in> block c (data_ptr u)" using cells_in_block [OF c] a by blast
    have in_x: "a \<in> block c (data_ptr x)" using cells_in_block [OF c] q(2) x(2) used_in_slots by blast
    show False
    proof (cases "data_ptr u = data_ptr x")
      case True
      from a q(2) obtain s t where "ptr_at_shard (data_ptr x + 8 * i) s = ptr_at_shard (data_ptr x + 8 * j) t"
        unfolding True j(2) cells_of_def by auto
      then have "i = j" using same_cell [OF i(1) j(1)] by blast
      moreover have "u \<noteq> fresh_unit b" using fresh x(1) block_nonempty [of b c] True by (auto simp: fresh_block_def)
      then have "u \<in> set (units_of w)" using u us by auto
      then have "u = x" using alloc_okD(3) [OF ok] x(1) True by (auto simp: layout_ok_def distinct_map dest: inj_onD)
      ultimately show False using i(2) j(3) by simp
    next
      case False
      then show False
        using u us x(1) in_u in_x fresh alloc_okD(3) [OF ok] by (fastforce simp: fresh_block_def layout_ok_def)
    qed
  qed
  with st' show "st' a = cells w a" by auto
qed

lemma allocate_and_init_panic:
  assumes c: "valid_count c" and ok: "alloc_ok c w" and s: "s < length (groups w)" and fresh: "fresh_block c b w"
    and e: "first_panic f (shard_indexes c) = Some e"
  shows "\<exists>w'. allocate_and_init c s f (Some b) w = (Inl e, w') \<and> alloc_ok c w'
     \<and> units_of w' = units_of w \<and> cells w' = cells w"
proof -
  from group_allocate_panic [OF c e alloc_okD(2) [OF ok s], of b "cells w"] obtain g' st' where
    g: "group_allocate c f (Some b) (groups w ! s) (cells w) = (Inl e, g', st')"
    "all_units g' = all_units (groups w ! s)" "group_ok g'"
    "cells_cleared c b (all_units (groups w ! s)) (cells w) st'" by blast
  from s obtain A B where sp: "units_of w = A @ all_units (groups w ! s) @ B"
    "\<And>g st. units_of (w\<lparr>groups := (groups w)[s := g], cells := st\<rparr>) = A @ all_units g @ B"
    by (rule group_split) blast
  have st': "st' = cells w" by (rule cells_cleared_same [OF c ok fresh _ g(4)]) (auto simp: sp(1))
  define w' where "w' = w\<lparr>groups := (groups w)[s := g'], cells := st'\<rparr>"
  have us: "units_of w' = units_of w" unfolding w'_def sp(2) g(2) by (simp add: sp(1))
  have "\<forall>x \<in> set (temp_filling_group w' # groups w'). group_ok x"
    using ok g(3) set_update_subset_insert [of "groups w" s g'] by (auto simp: w'_def alloc_ok_def)
  then have "alloc_ok c w'" using ok us st' by (auto simp: alloc_ok_def used_def w'_def)
  then show ?thesis using s g(1) us st' by (auto simp: allocate_and_init_def w'_def)
qed

section \<open>Freeing\<close>

definition free_slot :: "nat \<Rightarrow> AllocUnit \<Rightarrow> AllocUnit" where
  "free_slot i u = u\<lparr>usage_flags := (usage_flags u)[i := 0]\<rparr>"

lemma free_slot_simps [simp]:
  "data_ptr (free_slot i u) = data_ptr u" "usage_flags (free_slot i u) = (usage_flags u)[i := 0]"
  by (simp_all add: free_slot_def)

lemma unit_ok_free: "unit_ok u \<Longrightarrow> unit_ok (free_slot i u)"
  using set_update_subset_insert [of "usage_flags u" i 0] by (auto simp: unit_ok_def)

lemma used_in_free:
  "unit_ok u \<Longrightarrow> i < SLOT_COUNT_PER_UNIT \<Longrightarrow> used_in (free_slot i u) = used_in u - {data_ptr u + 8 * i}"
  by (auto simp: used_in_def unit_ok_def nth_list_update)

lemma contains_slots: "contains p u \<longleftrightarrow> p \<in> slots u"
  by (auto simp: contains_def slots_def)

lemma dealloc_unit:
  assumes "unit_ok u" "p \<in> slots u"
  shows "p \<in> used_in u \<Longrightarrow> \<exists>i < SLOT_COUNT_PER_UNIT. p = data_ptr u + 8 * i \<and> deallocate_without_dropping p u = Inr (free_slot i u)"
    and "p \<notin> used_in u \<Longrightarrow> deallocate_without_dropping p u = Inl AssertionFailed"
proof -
  from assms(2) obtain i where i: "i < SLOT_COUNT_PER_UNIT" "p = data_ptr u + 8 * i" by (auto simp: slots_def)
  then have d: "deallocate_without_dropping p u =
      (if usage_flags u ! i = 1 then Inr (free_slot i u) else Inl AssertionFailed)"
    using deallocate_slot [of i u] assms(1) by (simp add: unit_ok_def free_slot_def)
  have "p \<in> used_in u \<longleftrightarrow> usage_flags u ! i = 1" using i by (auto simp: used_in_def)
  with d i show "p \<in> used_in u \<Longrightarrow> \<exists>i < SLOT_COUNT_PER_UNIT. p = data_ptr u + 8 * i \<and> deallocate_without_dropping p u = Inr (free_slot i u)"
    and "p \<notin> used_in u \<Longrightarrow> deallocate_without_dropping p u = Inl AssertionFailed" by auto
qed

text \<open>
  Where a slot is found among the units; \<open>freed_at\<close> says that the list has changed by freeing the slot
  in one unit.
\<close>

definition freed_at :: "addr \<Rightarrow> AllocUnit list \<Rightarrow> AllocUnit list \<Rightarrow> bool" where
  "freed_at p us us' \<longleftrightarrow> (\<exists>k i. k < length us \<and> i < SLOT_COUNT_PER_UNIT \<and> p = data_ptr (us ! k) + 8 * i
     \<and> p \<in> used_in (us ! k) \<and> us' = us[k := free_slot i (us ! k)])"

lemma freed_at_append:
  "freed_at p us us' \<Longrightarrow> freed_at p (us @ vs) (us' @ vs)"
  "freed_at p us us' \<Longrightarrow> freed_at p (vs @ us) (vs @ us')"
proof -
  assume "freed_at p us us'"
  then obtain k i where k: "k < length us" "i < SLOT_COUNT_PER_UNIT" "p = data_ptr (us ! k) + 8 * i"
     "p \<in> used_in (us ! k)" "us' = us[k := free_slot i (us ! k)]" by (auto simp: freed_at_def)
  then show "freed_at p (us @ vs) (us' @ vs)"
    unfolding freed_at_def by (intro exI [of _ k] exI [of _ i]) (simp add: nth_append list_update_append)
  from k show "freed_at p (vs @ us) (vs @ us')"
    unfolding freed_at_def by (intro exI [of _ "length vs + k"] exI [of _ i]) (simp add: nth_append list_update_append)
qed

lemma dealloc_in_cases:
  "\<forall>u \<in> set us. unit_ok u \<Longrightarrow> case dealloc_in p us of
      Inr None \<Rightarrow> \<forall>u \<in> set us. p \<notin> slots u
    | Inr (Some us') \<Rightarrow> freed_at p us us'
    | Inl e \<Rightarrow> e = AssertionFailed \<and> (\<exists>u \<in> set us. p \<in> slots u \<and> p \<notin> used_in u)"
proof (induction us)
  case (Cons u us)
  show ?case
  proof (cases "p \<in> slots u")
    case True
    show ?thesis
    proof (cases "p \<in> used_in u")
      case used: True
      then obtain i where i: "i < SLOT_COUNT_PER_UNIT" "p = data_ptr u + 8 * i"
        "deallocate_without_dropping p u = Inr (free_slot i u)"
        using dealloc_unit(1) [of u p] Cons.prems True by auto
      then have "freed_at p (u # us) (free_slot i u # us)"
        unfolding freed_at_def using used by (intro exI [of _ 0] exI [of _ i]) simp
      with i True show ?thesis by (simp add: contains_slots)
    next
      case False
      with True show ?thesis using dealloc_unit(2) [of u p] Cons.prems by (simp add: contains_slots)
    qed
  next
    case False
    with Cons freed_at_append(2) [of p us _ "[u]"] show ?thesis
      by (auto simp: contains_slots res_bind_def split: sum.splits option.splits)
  qed
qed simp

lemma freed_at_ok:
  assumes "freed_at p us us'" "\<forall>u \<in> set us. unit_ok u"
  shows "(\<forall>u \<in> set us'. unit_ok u) \<and> length us' = length us"
proof -
  from assms(1) obtain k i where k: "k < length us" "us' = us[k := free_slot i (us ! k)]"
    by (auto simp: freed_at_def)
  then have "unit_ok (free_slot i (us ! k))" using unit_ok_free assms(2) by simp
  then show ?thesis using assms(2) set_update_subset_insert [of us k "free_slot i (us ! k)"] by (auto simp: k(2))
qed

lemma dealloc_in_groups_cases:
  "\<forall>g \<in> set gs. group_ok g \<Longrightarrow> case dealloc_in_groups p gs of
      Inr None \<Rightarrow> \<forall>u \<in> set (concat (map all_units gs)). p \<notin> slots u
    | Inr (Some gs') \<Rightarrow> length gs' = length gs \<and> (\<forall>g \<in> set gs'. group_ok g)
        \<and> freed_at p (concat (map all_units gs)) (concat (map all_units gs'))
    | Inl e \<Rightarrow> e = AssertionFailed \<and> (\<exists>u \<in> set (concat (map all_units gs)). p \<in> slots u \<and> p \<notin> used_in u)"
proof (induction gs)
  case (Cons g gs)
  have ok: "\<forall>u \<in> set (all_units g). unit_ok u" using Cons.prems by (simp add: group_ok_def)
  note d = dealloc_in_cases [OF ok, of p]
  have ih: "case dealloc_in_groups p gs of
      Inr None \<Rightarrow> \<forall>u \<in> set (concat (map all_units gs)). p \<notin> slots u
    | Inr (Some gs') \<Rightarrow> length gs' = length gs \<and> (\<forall>g \<in> set gs'. group_ok g)
        \<and> freed_at p (concat (map all_units gs)) (concat (map all_units gs'))
    | Inl e \<Rightarrow> e = AssertionFailed \<and> (\<exists>u \<in> set (concat (map all_units gs)). p \<in> slots u \<and> p \<notin> used_in u)"
    using Cons by simp
  show ?case
  proof (cases "dealloc_in p (all_units g)")
    case (Inl e)
    with d show ?thesis by auto
  next
    case (Inr r)
    show ?thesis
    proof (cases r)
      case None
      with Inr d have no: "\<forall>u \<in> set (all_units g). p \<notin> slots u" by simp
      show ?thesis
        using ih Inr None no Cons.prems freed_at_append(2) [of p "concat (map all_units gs)" _ "all_units g"]
        by (auto simp: res_bind_def split: sum.splits option.splits)
    next
      case (Some us')
      with Inr d have f: "freed_at p (all_units g) us'" by simp
      with freed_at_ok [OF f ok] Cons.prems have "group_ok (g\<lparr>all_units := us'\<rparr>)" by (simp add: group_ok_def)
      with Inr Some Cons.prems freed_at_append(1) [OF f, of "concat (map all_units gs)"] show ?thesis by simp
    qed
  qed
qed simp

lemma freed_at_world:
  assumes lay: "layout_ok c (map data_ptr us)" and ok: "\<forall>u \<in> set us. unit_ok u" and fr: "freed_at p us us'"
  shows "used_slots_of us' = used_slots_of us - {p}" "p \<in> used_slots_of us" "map data_ptr us' = map data_ptr us"
proof -
  from fr obtain k i where k: "k < length us" and i: "i < SLOT_COUNT_PER_UNIT" and p: "p = data_ptr (us ! k) + 8 * i"
    "p \<in> used_in (us ! k)" and us': "us' = us[k := free_slot i (us ! k)]" by (auto simp: freed_at_def)
  have u: "unit_ok (us ! k)" using ok k by simp
  have "p \<in> slots (us ! k)" using p(2) used_in_slots by blast
  then have "p \<notin> used_in (us ! j)" if "j < length us" "j \<noteq> k" for j
    using slot_unique [OF lay k that] used_in_slots by blast
  then show "used_slots_of us' = used_slots_of us - {p}"
    unfolding us' used_update(1) [OF k] used_update(2) [OF k] used_in_free [OF u i] p(1) [symmetric] by auto
  show "p \<in> used_slots_of us" unfolding used_update(2) [OF k] using p(2) by simp
  show "map data_ptr us' = map data_ptr us" using k by (simp add: us' map_update list_update_same_conv)
qed

lemma used_slot_only_there:
  assumes lay: "layout_ok c (map data_ptr us)" and p: "p \<in> used_slots_of us" and u: "u \<in> set us" "p \<in> slots u"
  shows "p \<in> used_in u"
proof -
  from p obtain j where j: "j < length us" "p \<in> used_in (us ! j)"
    by (auto simp: used_slots_of_def in_set_conv_nth)
  from u(1) obtain k where k: "k < length us" "u = us ! k" by (auto simp: in_set_conv_nth)
  have "j = k" using slot_unique [OF lay k(1) j(1)] used_in_slots j(2) u(2) k(2) by blast
  with j k show ?thesis by simp
qed

lemma ShardedBox_drop_frees:
  assumes c: "valid_count c" and ok: "alloc_ok c w" and p: "p \<in> used w"
  shows "\<exists>w'. ShardedBox_drop c p w = Inr w' \<and> alloc_ok c w' \<and> used w' = used w - {p}
     \<and> cells w' = drop_cells p (shard_indexes c) (cells w)
     \<and> (\<exists>u \<in> set (units_of w'). p \<in> slots u)"
proof -
  let ?gs = "temp_filling_group w # groups w"
  have us: "units_of w = concat (map all_units ?gs)" by (simp add: units_of_def)
  have gok: "\<forall>g \<in> set ?gs. group_ok g" using ok by (auto simp: alloc_ok_def)
  note lay = alloc_okD(3) [OF ok]
  have here: "\<exists>u \<in> set (units_of w). p \<in> slots u"
    using p used_in_slots by (auto simp: used_def used_slots_of_def)
  have "\<not> (\<exists>u \<in> set (units_of w). p \<in> slots u \<and> p \<notin> used_in u)"
    using used_slot_only_there [OF lay] p unfolding used_def by blast
  with here dealloc_in_groups_cases [OF gok, of p] obtain gs' where
    gs': "dealloc_in_groups p ?gs = Inr (Some gs')" "length gs' = length ?gs" "\<forall>g \<in> set gs'. group_ok g"
      "freed_at p (units_of w) (concat (map all_units gs'))"
    unfolding us by (auto split: sum.splits option.splits)
  then obtain t rest where tr: "gs' = t # rest" by (cases gs') auto
  define w' where "w' = w\<lparr>groups := rest, temp_filling_group := t, cells := drop_cells p (shard_indexes c) (cells w)\<rparr>"
  have us': "units_of w' = concat (map all_units gs')" by (simp add: w'_def units_of_def tr)
  note f = freed_at_world [OF lay alloc_okD(4) [OF ok] gs'(4)]
  have u: "used w' = used w - {p}" using f(1) by (simp add: used_def us')
  have cl: "cells w' = drop_cells p (shard_indexes c) (cells w)" by (simp add: w'_def)
  have "\<exists>q \<in> used w'. a \<in> cells_of c q" if a: "cells w' a \<noteq> None" for a
  proof -
    have "a \<notin> cells_of c p" "cells w a \<noteq> None"
      using a by (auto simp: cl drop_cells_eq cells_of_def split: if_splits)
    with alloc_okD(5) [OF ok] show ?thesis unfolding u by blast
  qed
  then have "alloc_ok c w'" using gs'(3) f(3) lay by (auto simp: alloc_ok_def us' tr) (auto simp: w'_def)
  moreover have "ShardedBox_drop c p w = Inr w'" using gs'(1) by (simp add: ShardedBox_drop_def tr w'_def)
  moreover have "\<exists>u \<in> set (units_of w'). p \<in> slots u"
  proof -
    from here obtain u where x: "u \<in> set (units_of w)" "p \<in> slots u" by blast
    then have "data_ptr u \<in> set (map data_ptr (units_of w'))" unfolding us' f(3) by simp
    then obtain y where y: "y \<in> set (units_of w')" "data_ptr y = data_ptr u" by auto
    then have "slots y = slots u" by (simp add: slots_def)
    with x(2) y(1) show ?thesis by blast
  qed
  ultimately show ?thesis using u cl by blast
qed

lemma ShardedBox_drop_unused:
  assumes ok: "alloc_ok c w" and p: "p \<notin> used w"
  shows "ShardedBox_drop c p w = Inl (if \<exists>u \<in> set (units_of w). p \<in> slots u then AssertionFailed else DanglingAccess)"
proof -
  let ?gs = "temp_filling_group w # groups w"
  have us: "units_of w = concat (map all_units ?gs)" by (simp add: units_of_def)
  have gok: "\<forall>g \<in> set ?gs. group_ok g" using ok by (auto simp: alloc_ok_def)
  have no: "\<not> freed_at p (units_of w) us'" for us'
    using p freed_at_world(2) [OF alloc_okD(3,4) [OF ok]] by (auto simp: used_def)
  note d = dealloc_in_groups_cases [OF gok, of p, folded us]
  show ?thesis
  proof (cases "dealloc_in_groups p ?gs")
    case (Inl e)
    with d show ?thesis by (auto simp: ShardedBox_drop_def)
  next
    case (Inr r)
    with d no have "r = None" "\<forall>u \<in> set (units_of w). p \<notin> slots u" by (auto split: option.splits)
    with Inr show ?thesis by (simp add: ShardedBox_drop_def)
  qed
qed

section \<open>Maintenance\<close>

lemma swap_group_mset:
  assumes "s < length (groups w)"
  shows "mset (units_of (swap_group s w)) = mset (units_of w)"
proof -
  let ?xs = "map all_units (groups w)"
  have s: "s < length ?xs" using assms by simp
  show ?thesis
    using concat_split_nth [OF s] concat_update [OF s, of "all_units (temp_filling_group w)"] assms
    by (simp add: units_of_def swap_group_def map_update)
qed

lemma used_mset: "mset us = mset vs \<Longrightarrow> used_slots_of us = used_slots_of vs"
  unfolding used_slots_of_def by (metis set_mset_mset)

lemma swap_group_ok:
  assumes "alloc_ok c w" "s < length (groups w)"
  shows "alloc_ok c (swap_group s w) \<and> used (swap_group s w) = used w \<and> cells (swap_group s w) = cells w
     \<and> length (groups (swap_group s w)) = length (groups w)"
proof -
  note m = swap_group_mset [OF assms(2)]
  have u: "used (swap_group s w) = used w" unfolding used_def by (rule used_mset [OF m])
  have "mset (map data_ptr (units_of (swap_group s w))) = mset (map data_ptr (units_of w))" using m by simp
  from layout_mset [OF this] alloc_okD(3) [OF assms(1)] have "layout_ok c (map data_ptr (units_of (swap_group s w)))" by simp
  moreover have "\<forall>g \<in> set (temp_filling_group (swap_group s w) # groups (swap_group s w)). group_ok g"
    using assms set_update_subset_insert [of "groups w" s "temp_filling_group w"] alloc_okD(2) [OF assms]
    by (auto simp: swap_group_def alloc_ok_def)
  moreover have cl: "cells (swap_group s w) = cells w" "length (groups (swap_group s w)) = length (groups w)"
    by (simp_all add: swap_group_def)
  ultimately show ?thesis using u assms(1) by (auto simp: alloc_ok_def)
qed

lemma used_filter: "used_slots_of (filter (\<lambda>u. used_in u \<noteq> {}) us @ vs) = used_slots_of (us @ vs)"
  by (auto simp: used_slots_of_def)

lemma maintain_ok:
  assumes ok: "alloc_ok c w"
  shows "\<exists>w'. maintain_filling_group w = Inr w' \<and> alloc_ok c w' \<and> used w' = used w \<and> cells w' = cells w
     \<and> groups w' = groups w \<and> (\<forall>u \<in> set (all_units (temp_filling_group w')). used_in u \<noteq> {})"
proof -
  from do_maintenance_ok [OF alloc_okD(1) [OF ok]] obtain g' where
    g': "do_maintenance (temp_filling_group w) = Inr g'" "group_ok g'"
      "all_units g' = filter (\<lambda>u. used_in u \<noteq> {}) (all_units (temp_filling_group w))" by blast
  define w' where "w' = w\<lparr>temp_filling_group := g'\<rparr>"
  have us': "units_of w' = filter (\<lambda>u. used_in u \<noteq> {}) (all_units (temp_filling_group w)) @ concat (map all_units (groups w))"
    by (simp add: units_of_def w'_def g'(3))
  have u: "used w' = used w" unfolding used_def us' used_filter by (simp add: units_of_def)
  have "layout_ok c (map data_ptr (units_of w'))"
    unfolding us' by (rule layout_filter [OF alloc_okD(3) [OF ok, unfolded units_of_def]])
  then have "alloc_ok c w'" using ok g'(2) u by (auto simp: alloc_ok_def w'_def)
  moreover have "maintain_filling_group w = Inr w'" by (simp add: maintain_filling_group_def g'(1) w'_def)
  ultimately show ?thesis using u g'(3) by (auto simp: w'_def)
qed

section \<open>The sharded allocator is an allocator of slots\<close>

definition alloc_rel :: "ShardCount \<Rightarrow> 'a FullShardAlloc \<Rightarrow> addr \<Rightarrow> 'a FullShardAlloc \<Rightarrow> bool" where
  "alloc_rel c w p w' \<longleftrightarrow> (\<exists>s f b. fresh_block c b w \<and> allocate_and_init c s f (Some b) w = (Inr p, w'))"

definition free_rel :: "ShardCount \<Rightarrow> 'a FullShardAlloc \<Rightarrow> addr \<Rightarrow> 'a FullShardAlloc \<Rightarrow> bool" where
  "free_rel c w p w' \<longleftrightarrow> ShardedBox_drop c p w = Inr w'"

text \<open>
  What leaves the used slots alone: the steps of the collector's maintenance, one critical section
  each, and an allocation whose initializer panics.
\<close>

definition tidy_rel :: "ShardCount \<Rightarrow> 'a FullShardAlloc \<Rightarrow> 'a FullShardAlloc \<Rightarrow> bool" where
  "tidy_rel c w w' \<longleftrightarrow> (\<exists>s < length (groups w). w' = swap_group s w) \<or> maintain_filling_group w = Inr w'
     \<or> (\<exists>s f b e. s < length (groups w) \<and> fresh_block c b w \<and> allocate_and_init c s f (Some b) w = (Inl e, w'))"

lemma first_panic_None: "first_panic f is = None \<Longrightarrow> \<exists>v. \<forall>i \<in> set is. f i = Inr (v i)"
proof -
  assume "first_panic f is = None"
  then have "\<forall>i \<in> set is. \<exists>x. f i = Inr x" by (induction "is") (auto split: sum.splits)
  then show ?thesis by metis
qed

lemma allocate_in_range: "allocate_and_init c s f mem w = (Inr p, w') \<Longrightarrow> s < length (groups w)"
  by (auto simp: allocate_and_init_def split: if_splits)

lemma alloc_rel_law:
  assumes "valid_count c" "alloc_ok c w" "alloc_rel c w p w'"
  shows "alloc_ok c w' \<and> p \<notin> used w \<and> used w' = insert p (used w)"
proof -
  from assms(3) obtain s f b where b: "fresh_block c b w" and st: "allocate_and_init c s f (Some b) w = (Inr p, w')"
    by (auto simp: alloc_rel_def)
  note s = allocate_in_range [OF st]
  have "first_panic f (shard_indexes c) = None"
    using allocate_and_init_panic [OF assms(1,2) s b, of f] st by (cases "first_panic f (shard_indexes c)") auto
  then obtain v where "\<forall>i \<in> set (shard_indexes c). f i = Inr (v i)" using first_panic_None by blast
  from allocate_and_init_ok [OF assms(1,2) s b this] st show ?thesis by auto
qed

lemma tidy_rel_law:
  assumes "valid_count c" "alloc_ok c w" "tidy_rel c w w'"
  shows "alloc_ok c w' \<and> used w' = used w"
proof -
  from assms(3) consider (swap) s where "s < length (groups w)" "w' = swap_group s w"
    | (maintain) "maintain_filling_group w = Inr w'"
    | (failed) s f b e where "s < length (groups w)" "fresh_block c b w" "allocate_and_init c s f (Some b) w = (Inl e, w')"
    by (auto simp: tidy_rel_def)
  then show ?thesis
  proof cases
    case swap
    then show ?thesis using swap_group_ok [OF assms(2)] by simp
  next
    case maintain
    then show ?thesis using maintain_ok [OF assms(2)] by auto
  next
    case failed
    have "first_panic f (shard_indexes c) \<noteq> None"
    proof
      assume "first_panic f (shard_indexes c) = None"
      then obtain v where "\<forall>i \<in> set (shard_indexes c). f i = Inr (v i)" using first_panic_None by blast
      from allocate_and_init_ok [OF assms(1,2) failed(1,2) this] failed(3) show False by auto
    qed
    then obtain e' where "first_panic f (shard_indexes c) = Some e'" by auto
    from allocate_and_init_panic [OF assms(1,2) failed(1,2) this] failed(3) show ?thesis
      by (auto simp: used_def)
  qed
qed

interpretation sharded: slot_allocator "\<lambda>w. valid_count c \<and> alloc_ok c w" used "alloc_rel c" "free_rel c" "tidy_rel c"
  for c
proof unfold_locales
  fix w w' :: "'a FullShardAlloc" and p
  show "(valid_count c \<and> alloc_ok c w') \<and> p \<notin> used w \<and> used w' = insert p (used w)"
    if "valid_count c \<and> alloc_ok c w" "alloc_rel c w p w'"
    using that alloc_rel_law [of c w p w'] by simp
  show "(valid_count c \<and> alloc_ok c w') \<and> p \<in> used w \<and> used w' = used w - {p}"
    if "valid_count c \<and> alloc_ok c w" "free_rel c w p w'"
  proof -
    have "p \<in> used w" using that ShardedBox_drop_unused [of c w p] by (auto simp: free_rel_def)
    with that ShardedBox_drop_frees [of c w p] show ?thesis by (auto simp: free_rel_def)
  qed
  show "(valid_count c \<and> alloc_ok c w') \<and> used w' = used w"
    if "valid_count c \<and> alloc_ok c w" "tidy_rel c w w'"
    using that tidy_rel_law [of c w w'] by simp
qed

lemma units_initialize [simp]: "units_of (FullShardAlloc_initialize c) = []"
  by (simp add: units_of_def FullShardAlloc_initialize_def AllocUnitGroup_new_def)

lemma initialize_ok: "alloc_ok c (FullShardAlloc_initialize c)" "used (FullShardAlloc_initialize c) = {}"
  by (auto simp: alloc_ok_def layout_ok_def group_ok_def AllocUnitGroup_new_def used_def used_slots_of_def)
    (auto simp: FullShardAlloc_initialize_def AllocUnitGroup_new_def)

section \<open>Properties\<close>

text \<open>
  C31: the cells of a unit. For a valid shard count, the cell of every slot and shard lies inside the
  block that \<open>AllocUnit::new\<close> allocates and behind the usage flags, no two of them overlap, and the
  cells of one slot in different shards are in different cache lines of 128 bytes, wherever the
  block starts.
\<close>

theorem cells_disjoint_in_block:
  assumes "valid_count c" "i < SLOT_COUNT_PER_UNIT" "j < SLOT_COUNT_PER_UNIT"
    and "s \<in> set (shard_indexes c)" "t \<in> set (shard_indexes c)"
  shows "base + 8 * SLOT_COUNT_PER_UNIT \<le> ptr_at_shard (base + 8 * i) s
     \<and> ptr_at_shard (base + 8 * i) s + 8 \<le> base + data_len_in_bytes c
     \<and> ((i, s) \<noteq> (j, t) \<longrightarrow> ptr_at_shard (base + 8 * i) s + 8 \<le> ptr_at_shard (base + 8 * j) t
          \<or> ptr_at_shard (base + 8 * j) t + 8 \<le> ptr_at_shard (base + 8 * i) s)
     \<and> (s \<noteq> t \<longrightarrow> ptr_at_shard (base + 8 * i) s div 128 \<noteq> ptr_at_shard (base + 8 * i) t div 128)"
proof (intro conjI impI)
  show "base + 8 * SLOT_COUNT_PER_UNIT \<le> ptr_at_shard (base + 8 * i) s"
    "ptr_at_shard (base + 8 * i) s + 8 \<le> base + data_len_in_bytes c"
    using cell_in_block [OF assms(1,2,4)] by blast+
  assume "(i, s) \<noteq> (j, t)"
  then have "ptr_at_shard (base + 8 * i) s \<noteq> ptr_at_shard (base + 8 * j) t"
    using same_cell [OF assms(2,3)] by blast
  then have "i + 16 * ShardIndex_as_usize s \<noteq> j + 16 * ShardIndex_as_usize t"
    by (simp add: ptr_at_shard_def SLOT_COUNT_PER_UNIT_def)
  then show "ptr_at_shard (base + 8 * i) s + 8 \<le> ptr_at_shard (base + 8 * j) t
      \<or> ptr_at_shard (base + 8 * j) t + 8 \<le> ptr_at_shard (base + 8 * i) s"
    by (simp add: ptr_at_shard_def SLOT_COUNT_PER_UNIT_def) arith
next
  assume "s \<noteq> t"
  then have ne: "ShardIndex_as_usize s \<noteq> ShardIndex_as_usize t" using as_usize_inj by blast
  have "ptr_at_shard (base + 8 * i) x div 128 = (base + 8 * i) div 128 + (ShardIndex_as_usize x + 1)" for x
    using div_mult_self1 [of 128 "base + 8 * i" "ShardIndex_as_usize x + 1"]
    by (simp add: ptr_at_shard_def SLOT_COUNT_PER_UNIT_def algebra_simps)
  with ne show "ptr_at_shard (base + 8 * i) s div 128 \<noteq> ptr_at_shard (base + 8 * i) t div 128" by simp
qed

theorem cells_disjoint_in_block_witness:
  "ptr_at_shard (1000 + 8 * 15) (ShardIndex 0) + 8 \<le> ptr_at_shard (1000 + 8 * 0) (ShardIndex 1)
     \<or> ptr_at_shard (1000 + 8 * 0) (ShardIndex 1) + 8 \<le> ptr_at_shard (1000 + 8 * 15) (ShardIndex 0)"
  using cells_disjoint_in_block [of "ShardCount 2" 15 0 "ShardIndex 0" "ShardIndex 1" 1000]
  by (simp add: valid_count_def SLOT_COUNT_PER_UNIT_def upt_rec)



text \<open>
  C27: allocation. In every state that satisfies the invariant, with a fresh block available in case
  one is needed and an initializer that does not panic, \<open>allocate_and_init\<close> returns: it finds a slot
  that is not in use, marks it and no other slot as used, writes the initial value of every shard
  into its cells, changes no other cell, and keeps the invariant. No assertion, no index and no
  \<open>expect\<close> fails.
\<close>

theorem allocate_takes_free_slot:
  assumes "valid_count c" "alloc_ok c w" "s < length (groups w)" "fresh_block c b w"
    and "\<forall>i \<in> set (shard_indexes c). f i = Inr (v i)"
  shows "\<exists>p w'. allocate_and_init c s f (Some b) w = (Inr p, w') \<and> alloc_ok c w'
     \<and> p \<notin> used w \<and> used w' = insert p (used w)
     \<and> (\<forall>i \<in> set (shard_indexes c). ShardedBox_index p i w' = Some (v i))
     \<and> (\<forall>a. a \<notin> cells_of c p \<longrightarrow> cells w' a = cells w a)"
proof -
  from allocate_and_init_ok [OF assms] obtain p w' where w': "allocate_and_init c s f (Some b) w = (Inr p, w')"
    "alloc_ok c w'" "p \<notin> used w" "used w' = insert p (used w)"
    "cells w' = write_cells p v (shard_indexes c) (cells w)" by blast
  then show ?thesis
    using write_cells_at [of _ "shard_indexes c" p v "cells w"] write_cells_other [of _ p "shard_indexes c" v "cells w"]
    by (auto simp: ShardedBox_index_def cells_of_def)
qed

theorem allocate_takes_free_slot_witness:
  "\<exists>p w'. allocate_and_init (ShardCount 2) 1 (\<lambda>i. Inr (ShardIndex_as_usize i)) (Some 4096)
       (FullShardAlloc_initialize (ShardCount 2)) = (Inr p, w') \<and> used w' = {p}"
proof -
  let ?c = "ShardCount 2" and ?w = "FullShardAlloc_initialize (ShardCount 2) :: nat FullShardAlloc"
  have h: "valid_count ?c" "1 < length (groups ?w)" "fresh_block ?c 4096 ?w"
    by (simp_all add: valid_count_def fresh_block_def) (simp add: FullShardAlloc_initialize_def)
  from allocate_takes_free_slot [OF h(1) initialize_ok(1) h(2,3), of "\<lambda>i. Inr (ShardIndex_as_usize i)" ShardIndex_as_usize]
  show ?thesis using initialize_ok(2) [of ?c] by auto
qed

text \<open>
  C28: a panicking initializer leaves no trace. If \<open>init_func\<close> panics for some shard, the panic is
  passed on, and afterwards the units with their usage flags and all cells are as before: the values
  already written have been dropped and the slot is free again.
\<close>

theorem init_panic_leaves_no_trace:
  assumes "valid_count c" "alloc_ok c w" "s < length (groups w)" "fresh_block c b w"
    and "first_panic f (shard_indexes c) = Some e"
  shows "\<exists>w'. allocate_and_init c s f (Some b) w = (Inl e, w') \<and> alloc_ok c w'
     \<and> units_of w' = units_of w \<and> used w' = used w \<and> cells w' = cells w"
  using allocate_and_init_panic [OF assms] by (auto simp: used_def)

theorem init_panic_leaves_no_trace_witness:
  "\<exists>w'. allocate_and_init (ShardCount 2) 1 (\<lambda>i. if i = ShardIndex 1 then Inl InitPanicked else Inr (7 :: nat)) (Some 4096)
       (FullShardAlloc_initialize (ShardCount 2)) = (Inl InitPanicked, w') \<and> used w' = {}"
proof -
  let ?c = "ShardCount 2" and ?w = "FullShardAlloc_initialize (ShardCount 2) :: nat FullShardAlloc"
  let ?f = "\<lambda>i. if i = ShardIndex 1 then Inl InitPanicked else Inr (7 :: nat)"
  have h: "valid_count ?c" "1 < length (groups ?w)" "fresh_block ?c 4096 ?w"
    by (simp_all add: valid_count_def fresh_block_def) (simp add: FullShardAlloc_initialize_def)
  have "first_panic ?f (shard_indexes ?c) = Some InitPanicked" by (simp add: upt_rec)
  from init_panic_leaves_no_trace [OF h(1) initialize_ok(1) h(2,3) this] show ?thesis
    using initialize_ok(2) [of ?c] by auto
qed




definition one_slot :: "nat FullShardAlloc" where
  "one_slot = \<lparr>groups = [\<lparr>all_units = [take_slot 0 (fresh_unit 4096)], indexes_of_units_to_check_for_allocation = [0]\<rparr>],
     temp_filling_group = AllocUnitGroup_new, cells = (\<lambda>_. None)\<rparr>"

lemma one_slot_ok: "alloc_ok (ShardCount 1) one_slot" "used one_slot = {4096}"
proof -
  have u: "units_of one_slot = [take_slot 0 (fresh_unit 4096)]"
    by (simp add: one_slot_def units_of_def AllocUnitGroup_new_def)
  show "used one_slot = {4096}"
    using used_in_take [of "fresh_unit 4096" 0] slots_positive by (simp add: used_def u used_slots_of_def)
  show "alloc_ok (ShardCount 1) one_slot"
    unfolding alloc_ok_def u by (auto simp: one_slot_def layout_ok_def group_ok_def AllocUnitGroup_new_def unit_ok_take)
qed


text \<open>One round of the maintenance loop, for one shard.\<close>

lemma maintain_shard_ok:
  assumes "alloc_ok c w" "s < length (groups w)"
  shows "\<exists>w'. res_bind (maintain_filling_group (swap_group s w)) (\<lambda>w. Inr (swap_group s w)) = Inr w'
     \<and> alloc_ok c w' \<and> used w' = used w \<and> cells w' = cells w \<and> length (groups w') = length (groups w)
     \<and> temp_filling_group w' = temp_filling_group w
     \<and> (\<forall>u \<in> set (all_units (groups w' ! s)). used_in u \<noteq> {})
     \<and> (\<forall>j. j \<noteq> s \<longrightarrow> groups w' ! j = groups w ! j)"
proof -
  note sw = swap_group_ok [OF assms]
  from maintain_ok [of c "swap_group s w"] sw obtain w1 where w1: "maintain_filling_group (swap_group s w) = Inr w1"
    "alloc_ok c w1" "used w1 = used w" "cells w1 = cells w" "groups w1 = groups (swap_group s w)"
    "\<forall>u \<in> set (all_units (temp_filling_group w1)). used_in u \<noteq> {}" by auto
  have s1: "s < length (groups w1)" using assms(2) sw w1(5) by simp
  from swap_group_ok [OF w1(2) s1] w1 sw s1 show ?thesis
    by (auto simp: swap_group_def)
qed

lemma maintain_loop_ok:
  assumes "alloc_ok c w" "n \<le> length (groups w)"
  shows "\<exists>w'. for_r [0..<n] (\<lambda>s w. res_bind (maintain_filling_group (swap_group s w)) (\<lambda>w. Inr (swap_group s w))) w = Inr w'
     \<and> alloc_ok c w' \<and> used w' = used w \<and> cells w' = cells w \<and> length (groups w') = length (groups w)
     \<and> (\<forall>s < n. \<forall>u \<in> set (all_units (groups w' ! s)). used_in u \<noteq> {})"
  using assms(2)
proof (induction n)
  case 0
  then show ?case using assms(1) by simp
next
  case (Suc n)
  then obtain w1 where w1: "for_r [0..<n] (\<lambda>s w. res_bind (maintain_filling_group (swap_group s w)) (\<lambda>w. Inr (swap_group s w))) w = Inr w1"
    "alloc_ok c w1" "used w1 = used w" "cells w1 = cells w" "length (groups w1) = length (groups w)"
    "\<forall>s < n. \<forall>u \<in> set (all_units (groups w1 ! s)). used_in u \<noteq> {}" by auto
  have "n < length (groups w1)" using Suc.prems w1(5) by simp
  from maintain_shard_ok [OF w1(2) this] obtain w2 where w2:
    "res_bind (maintain_filling_group (swap_group n w1)) (\<lambda>w. Inr (swap_group n w)) = Inr w2"
    "alloc_ok c w2" "used w2 = used w1" "cells w2 = cells w1" "length (groups w2) = length (groups w1)"
    "\<forall>u \<in> set (all_units (groups w2 ! n)). used_in u \<noteq> {}" "\<forall>j. j \<noteq> n \<longrightarrow> groups w2 ! j = groups w1 ! j" by blast
  have "\<forall>s < Suc n. \<forall>u \<in> set (all_units (groups w2 ! s)). used_in u \<noteq> {}"
    using w1(6) w2(6,7) by (auto simp: less_Suc_eq)
  with w1 w2 show ?case by (auto simp: for_r_append)
qed

text \<open>
  C30: maintenance by the collector. Run without interruption on a state that satisfies the
  invariant, \<open>do_maintenance_by_collector\<close> does not panic (in particular no \<open>AllocUnit\<close> is dropped
  with a slot in use), keeps every used slot and every cell, and gives back every unit without a
  used slot: afterwards each remaining unit has one.
\<close>

theorem maintenance_frees_empty_units:
  assumes "alloc_ok c w"
  shows "\<exists>w'. do_maintenance_by_collector w = Inr w' \<and> alloc_ok c w' \<and> used w' = used w \<and> cells w' = cells w
     \<and> (\<forall>u \<in> set (units_of w'). used_in u \<noteq> {})"
proof -
  from maintain_loop_ok [OF assms order_refl] obtain w1 where w1:
    "for_r [0..<length (groups w)] (\<lambda>s w. res_bind (maintain_filling_group (swap_group s w)) (\<lambda>w. Inr (swap_group s w))) w = Inr w1"
    "alloc_ok c w1" "used w1 = used w" "cells w1 = cells w" "length (groups w1) = length (groups w)"
    "\<forall>s < length (groups w). \<forall>u \<in> set (all_units (groups w1 ! s)). used_in u \<noteq> {}" by blast
  from maintain_ok [OF w1(2)] obtain w2 where w2: "maintain_filling_group w1 = Inr w2" "alloc_ok c w2"
    "used w2 = used w1" "cells w2 = cells w1" "groups w2 = groups w1"
    "\<forall>u \<in> set (all_units (temp_filling_group w2)). used_in u \<noteq> {}" by blast
  have "\<forall>u \<in> set (units_of w2). used_in u \<noteq> {}"
    using w1(5,6) w2(5,6) by (auto simp: units_of_def in_set_conv_nth) (metis nth_mem)
  with w1 w2 show ?thesis by (auto simp: do_maintenance_by_collector_def)
qed

theorem maintenance_frees_empty_units_witness:
  "\<exists>w'. do_maintenance_by_collector one_slot = Inr w' \<and> used w' = {4096}"
  using maintenance_frees_empty_units [OF one_slot_ok(1)] one_slot_ok(2) by auto

section \<open>The status report\<close>

lemma unused_plus_used: "unit_ok u \<Longrightarrow> get_unused_slot_count u + card (used_in u) = SLOT_COUNT_PER_UNIT"
proof -
  assume u: "unit_ok u"
  have inj: "inj_on (\<lambda>i. data_ptr u + 8 * i) A" for A by (auto simp: inj_on_def)
  let ?U = "{i. i < length (usage_flags u) \<and> usage_flags u ! i = 1}"
  let ?F = "{i. i < length (usage_flags u) \<and> usage_flags u ! i = 0}"
  have len: "length (usage_flags u) = SLOT_COUNT_PER_UNIT" using u by (simp add: unit_ok_def)
  have "card (used_in u) = card ?U" unfolding used_in_def len [symmetric] by (rule card_image [OF inj])
  moreover have "get_unused_slot_count u = card ?F"
    by (simp add: get_unused_slot_count_def length_filter_conv_card USAGE_FLAG_UNUSED_def)
  moreover have "card ?F + card ?U = card (?F \<union> ?U)" by (rule card_Un_disjoint [symmetric]) auto
  moreover have "?F \<union> ?U = {..<SLOT_COUNT_PER_UNIT}" using flag_cases [OF u] by (auto simp: len)
  ultimately show ?thesis by simp
qed

lemma sum_units:
  "\<forall>u \<in> set us. unit_ok u \<Longrightarrow> sum_list (map get_unused_slot_count us) + sum_list (map (\<lambda>u. card (used_in u)) us)
     = length us * SLOT_COUNT_PER_UNIT"
  by (induction us) (auto dest: unused_plus_used)

lemma card_used_slots:
  "layout_ok c (map data_ptr us) \<Longrightarrow> card (used_slots_of us) = sum_list (map (\<lambda>u. card (used_in u)) us)"
proof (induction us)
  case (Cons u us)
  have lay: "layout_ok c (map data_ptr us)" using Cons.prems by (auto simp: layout_ok_def)
  have fin: "finite (used_in x)" for x by (simp add: used_in_def)
  have "used_in u \<inter> used_slots_of us = {}"
  proof (rule equals0I)
    fix p assume "p \<in> used_in u \<inter> used_slots_of us"
    then obtain x where x: "x \<in> set us" "p \<in> used_in x" "p \<in> used_in u" by (auto simp: used_slots_of_def)
    then have "p \<in> block c (data_ptr u) \<inter> block c (data_ptr x)" using slot_in_block used_in_slots by blast
    moreover have "data_ptr u \<noteq> data_ptr x" using Cons.prems x(1) by (auto simp: layout_ok_def)
    ultimately show False using Cons.prems x(1) by (auto simp: layout_ok_def)
  qed
  then have "card (used_in u \<union> used_slots_of us) = card (used_in u) + card (used_slots_of us)"
    using fin by (intro card_Un_disjoint) (auto simp: used_slots_of_def)
  with Cons.IH [OF lay] show ?case by (simp add: used_slots_of_def)
qed (simp add: used_slots_of_def)

text \<open>
  The status report. On a state that satisfies the invariant the subtraction in
  \<open>get_status_report\<close> does not underflow, and \<open>total_used\<close> is the number of slots in use in all
  groups together.
\<close>

lemma status_report_counts_used_slots:
  assumes "alloc_ok c w"
  shows "\<exists>r. get_status_report w = Inr r \<and> total_used r = card (used w)"
proof -
  let ?gs = "temp_filling_group w # groups w"
  have us: "units_of w = concat (map all_units ?gs)" by (simp add: units_of_def)
  have split: "sum_list (map f (concat (map all_units gs))) = sum_list (map (\<lambda>g. sum_list (map f (all_units g))) gs)"
    for f :: "AllocUnit \<Rightarrow> nat" and gs by (induction gs) auto
  have len: "length (concat (map all_units gs)) * SLOT_COUNT_PER_UNIT
      = sum_list (map (\<lambda>g. length (all_units g) * SLOT_COUNT_PER_UNIT) gs)" for gs
    by (induction gs) (auto simp: algebra_simps)
  have unused: "sum_list (map fst (map count_unused_slot_count_and_all_slot_count (groups w)))
      + fst (count_unused_slot_count_and_all_slot_count (temp_filling_group w)) = sum_list (map get_unused_slot_count (units_of w))"
    unfolding us split by (simp add: count_unused_slot_count_and_all_slot_count_def comp_def)
  have total: "sum_list (map snd (map count_unused_slot_count_and_all_slot_count (groups w)))
      + snd (count_unused_slot_count_and_all_slot_count (temp_filling_group w)) = length (units_of w) * SLOT_COUNT_PER_UNIT"
    unfolding us len by (simp add: count_unused_slot_count_and_all_slot_count_def comp_def)
  have "sum_list (map get_unused_slot_count (units_of w)) + card (used w) = length (units_of w) * SLOT_COUNT_PER_UNIT"
    using sum_units [OF alloc_okD(4) [OF assms]] card_used_slots [OF alloc_okD(3) [OF assms]] by (simp add: used_def)
  then show ?thesis using unused total by (simp add: get_status_report_def Let_def)
qed

end
