(* ===== verification/Sdarc_Allocation.thy ===== *)
theory Sdarc_Allocation
  imports Sdarc_Safety Sharded_Alloc_System
begin

text \<open>
  Objects and the sharded allocator put together. In the interleaving model a new object gets its
  counters in any slot that is not in use. Here the slot comes from the allocator of
  \<^verbatim>\<open>src/src/sharded_alloc.rs\<close>: \<open>SdarcInner::new\<close> calls \<open>ShardedBox::allocate_data_in_each_shard\<close> in the
  group of its thread's shard, freeing an object drops its \<open>ShardedBox\<close>, and the collector swaps and
  maintains groups at any time. Other boxes, such as the counters of \<open>READER_CRITICAL_SECTION\<close>, come from
  the same allocator and are allocated and dropped in between. The combined system is an instance of the interleaving model, the
  slots the allocator counts as used are those of the live objects and of the other boxes, and the
  allocator never panics.
\<close>

section \<open>The combined system\<close>

definition allocate_data_in_each_shard :: "ShardCount \<Rightarrow> nat \<Rightarrow> (ShardIndex \<Rightarrow> 'a result) \<Rightarrow> addr option
    \<Rightarrow> 'a FullShardAlloc \<Rightarrow> addr result \<times> 'a FullShardAlloc" where
  "allocate_data_in_each_shard c s init_func mem al = allocate_and_init c s init_func mem al"

text \<open>\<open>ReaderCriticalSection::new\<close> allocates one such box.\<close>

definition ReaderCriticalSection_new :: "ShardCount \<Rightarrow> nat \<Rightarrow> addr option \<Rightarrow> int FullShardAlloc
    \<Rightarrow> addr result \<times> int FullShardAlloc" where
  "ReaderCriticalSection_new c s mem al = allocate_data_in_each_shard c s (\<lambda>_. Inr 0) mem al"

text \<open>
  Which thread's call needs a slot: every operation that creates an object. The slot the event names
  is replaced by the one the allocator returns.
\<close>

fun slot_wanted :: "event \<Rightarrow> world \<Rightarrow> nat option" where
  "slot_wanted (User t (New p a v)) w = Some t"
| "slot_wanted (User t (NewAtomicWithValue p a v)) w = Some t"
| "slot_wanted (User t (Downgrade p q a)) w =
     (case heap w p of None \<Rightarrow> None | Some ob \<Rightarrow> if weak_inner_ref ob = None then Some t else None)"
| "slot_wanted _ w = None"

fun with_slot :: "cptr \<Rightarrow> event \<Rightarrow> event" where
  "with_slot a (User t (New p _ v)) = User t (New p a v)"
| "with_slot a (User t (NewAtomicWithValue p _ v)) = User t (NewAtomicWithValue p a v)"
| "with_slot a (User t (Downgrade p q _)) = User t (Downgrade p q a)"
| "with_slot a e = e"

text \<open>The slot that dropping the field \<open>counters\<close> gives back, when the collector frees an object.\<close>

fun slot_given_back :: "event \<Rightarrow> world \<Rightarrow> cptr option" where
  "slot_given_back Collector w =
     (if pc (threads w ! 0) = Idle \<and> cpc (coll w) = Freeing
      then (case to_free (coll w) of [] \<Rightarrow> None | a # _ \<Rightarrow> Some a) else None)"
| "slot_given_back (User t act) w = None"

datatype joint_outcome = JDisabled | JFault fault | JPanic panic | JNext world "int FullShardAlloc" "addr set"

fun attach :: "int FullShardAlloc \<Rightarrow> addr set \<Rightarrow> outcome \<Rightarrow> joint_outcome" where
  "attach al B (Next w) = JNext w al B"
| "attach al B (Fault f) = JFault f"
| "attach al B Disabled = JDisabled"

text \<open>
  \<open>Sys e mem\<close> is a step of the objects' system, in which the global allocator would answer a request
  for a block with \<open>mem\<close>. \<open>SwapGroup\<close> and \<open>MaintainFillingGroup\<close> are the steps of
  \<open>do_maintenance_by_collector\<close>; \<open>NewBox\<close> and \<open>DropBox\<close> allocate and drop a box of \<open>B\<close>, the boxes that are not
  counters of an object.
\<close>

datatype joint_event = Sys event "addr option" | SwapGroup nat | MaintainFillingGroup
  | NewBox nat "addr option" | DropBox addr

fun joint_step :: "ShardCount \<Rightarrow> joint_event \<Rightarrow> world \<Rightarrow> int FullShardAlloc \<Rightarrow> addr set \<Rightarrow> joint_outcome" where
  "joint_step c (Sys e mem) w al B =
     (case slot_wanted e w of
        Some t \<Rightarrow>
          (if t < length (threads w)
           then (case allocate_data_in_each_shard c (shard_of t w) (\<lambda>_. Inr (sint AtomicTaggedCounter_new)) mem al of
                   (Inl x, _) \<Rightarrow> JPanic x
                 | (Inr a, al') \<Rightarrow> attach al' B (uc_step (with_slot a e) w))
           else JDisabled)
      | None \<Rightarrow>
          (case slot_given_back e w of
             None \<Rightarrow> attach al B (uc_step e w)
           | Some a \<Rightarrow>
               (case ShardedBox_drop c a al of
                  Inl x \<Rightarrow> JPanic x
                | Inr al' \<Rightarrow> attach al' B (uc_step e w))))"
| "joint_step c (SwapGroup s) w al B =
     (if s < length (groups al) then JNext w (swap_group s al) B else JDisabled)"
| "joint_step c MaintainFillingGroup w al B =
     (case maintain_filling_group al of Inl x \<Rightarrow> JPanic x | Inr al' \<Rightarrow> JNext w al' B)"
| "joint_step c (NewBox t mem) w al B =
     (if t < length (threads w)
      then (case ReaderCriticalSection_new c (shard_of t w) mem al of
              (Inl x, _) \<Rightarrow> JPanic x
            | (Inr a, al') \<Rightarrow> JNext w al' (insert a B))
      else JDisabled)"
| "joint_step c (DropBox a) w al B =
     (if a \<in> B
      then (case ShardedBox_drop c a al of Inl x \<Rightarrow> JPanic x | Inr al' \<Rightarrow> JNext w al' (B - {a}))
      else JDisabled)"

text \<open>The contract of the global allocator: it has memory, and a block it returns overlaps no block in use.\<close>

fun memory_ok :: "ShardCount \<Rightarrow> joint_event \<Rightarrow> int FullShardAlloc \<Rightarrow> bool" where
  "memory_ok c (Sys e mem) al = (\<exists>b. mem = Some b \<and> fresh_block c b al)"
| "memory_ok c (NewBox t mem) al = (\<exists>b. mem = Some b \<and> fresh_block c b al)"
| "memory_ok c _ al = True"

type_synonym joint = "world \<times> int FullShardAlloc \<times> addr set"

inductive joint_trans :: "ShardCount \<Rightarrow> joint \<Rightarrow> joint \<Rightarrow> bool" for c where
  joint_transI: "joint_step c je w al B = JNext w' al' B' \<Longrightarrow> memory_ok c je al \<Longrightarrow>
    joint_trans c (w, al, B) (w', al', B')"

fun joint_initial :: "ShardCount \<Rightarrow> joint \<Rightarrow> bool" where
  "joint_initial c (w, al, B) \<longleftrightarrow> valid_count c \<and> al = FullShardAlloc_initialize c \<and> B = {}
     \<and> initial w \<and> shards w = length (shard_indexes c)"

section \<open>Which slots a step takes and gives back\<close>

lemma attach_JNext [simp]: "attach al B r = JNext w' al' B' \<longleftrightarrow> r = Next w' \<and> al' = al \<and> B' = B"
  by (cases r) auto

lemma attach_JPanic [simp]: "attach al B r \<noteq> JPanic x"
  by (cases r) auto

lemma gain_lose_slots [simp]: "used_slots (gain_opt x w) = used_slots w" "used_slots (lose_opt x w) = used_slots w"
  by (cases x; simp add: gain_def lose_def)+

lemma begin_slots:
  assumes "begin_op t act w = Next w'"
  shows "shards w' = shards w" "slot_wanted (User t act) w = None \<Longrightarrow> used_slots w' = used_slots w"
    "slot_wanted (User t act) w \<noteq> None \<Longrightarrow> with_slot a (User t act) = User t act \<Longrightarrow>
       a \<notin> used_slots w \<and> used_slots w' = insert a (used_slots w)"
  using assms by (cases act; auto simp: user_op_defs world_ops modify_counter_Next
      split: if_splits option.splits payload.splits)+

lemma continue_slots: "continue t q w = Next w' \<Longrightarrow> used_slots w' = used_slots w \<and> shards w' = shards w"
  by (cases q) (auto simp: user_op_defs world_ops modify_counter_Next split: if_splits option.splits payload.splits)

lemma slot_wanted_act: "slot_wanted (User t act) w \<noteq> None \<Longrightarrow> act \<noteq> Continue \<and> (\<forall>c m x. act \<noteq> CompareAndSet c m x)"
  by auto

lemma user_slots:
  assumes "user_step t act w = Next w'"
  shows "shards w' = shards w" "slot_wanted (User t act) w = None \<Longrightarrow> used_slots w' = used_slots w"
    "slot_wanted (User t act) w \<noteq> None \<Longrightarrow> with_slot a (User t act) = User t act \<Longrightarrow>
       a \<notin> used_slots w \<and> used_slots w' = insert a (used_slots w)"
  using assms begin_slots(1,2) [of t act w w'] begin_slots(3) [of t act w w' a] continue_slots [of t "pc (threads w ! t)" w w']
    slot_wanted_act [of t act w]
  unfolding user_step_def by (metis outcome.distinct(3))+

lemma collector_slots:
  assumes "collector_step w = Next w'"
  shows "shards w' = shards w" "slot_given_back Collector w = None \<Longrightarrow> used_slots w' = used_slots w"
    "slot_given_back Collector w = Some a \<Longrightarrow>
       used_slots w' = used_slots w - {a} \<and> (\<exists>tc. map_of (tracked_counters (coll w)) a = Some tc)"
  using assms by (cases "cpc (coll w)"; auto simp: collector_step_def collector_defs world_ops free_pointers_def
      drop_sdarc_inner_def Let_def
      split: if_splits option.splits payload.splits list.splits sum.splits TrackedCounterState.splits
        ClearWeakBackRefResult.splits prod.splits)+

lemma step_cases:
  "step e w = Next w' \<longleftrightarrow>
     (\<exists>t act. e = User t act \<and> user_step t act w = Next w') \<or> (e = Collector \<and> collector_step w = Next w')"
  by (cases e) auto

lemma uc_step_collector: "uc_step Collector w = collector_step w" and slot_wanted_collector: "slot_wanted Collector w = None"
  by simp_all

lemma uc_slots:
  assumes "uc_step e w = Next w'"
  shows "shards w' = shards w"
    "slot_wanted e w = None \<Longrightarrow> slot_given_back e w = None \<Longrightarrow> used_slots w' = used_slots w"
    "slot_wanted e w \<noteq> None \<Longrightarrow> with_slot a e = e \<Longrightarrow> a \<notin> used_slots w \<and> used_slots w' = insert a (used_slots w)"
    "slot_given_back e w = Some a \<Longrightarrow>
       used_slots w' = used_slots w - {a} \<and> (\<exists>tc. map_of (tracked_counters (coll w)) a = Some tc)"
proof -
  show "shards w' = shards w" 
  proof (rule uc_step_keeps [OF assms])
    show "shards w2 = shards w" if "shards w1 = shards w" "user_step t act w1 = Next w2" for t act w1 w2
      using that user_slots(1) by metis
  qed (use collector_slots(1) in auto)
  show "used_slots w' = used_slots w" if "slot_wanted e w = None" "slot_given_back e w = None"
  proof (cases rule: uc_step_cases [of e w])
    case plain
    with assms have "step e w = Next w'" by simp
    with that user_slots(2) collector_slots(2) show ?thesis unfolding step_cases by blast
  next
    case (cas t c m q)
    have "used_slots w' = used_slots w" if "user_step t act w = Next w'" "act = Continue \<or> act = CompareAndSet c m (Some q)" for w w' act
      using user_slots(2) [OF that(1)] that(2) by auto
    then show ?thesis using assms cas by (fastforce split: outcome.splits if_splits)
  qed
  show "a \<notin> used_slots w \<and> used_slots w' = insert a (used_slots w)" if wa: "slot_wanted e w \<noteq> None" "with_slot a e = e"
  proof (cases rule: uc_step_cases [of e w])
    case plain
    obtain t act where e: "e = User t act" using wa(1) by (cases e) simp_all
    with assms plain(1) have "user_step t act w = Next w'" by simp
    from user_slots(3) [OF this] wa show ?thesis unfolding e by blast
  qed (use wa in simp)
  show "used_slots w' = used_slots w - {a} \<and> (\<exists>tc. map_of (tracked_counters (coll w)) a = Some tc)" if "slot_given_back e w = Some a"
    using assms that collector_slots(3) by (metis event.exhaust option.distinct(1) slot_given_back.simps(2) step.simps(2) uc_step_collector)
qed


section \<open>The used slots are those of live objects\<close>

definition live_slots :: "world \<Rightarrow> cptr set" where
  "live_slots w = {a. \<exists>p r d. meta (heap w) p = Some (a, r, d)}"

lemma content_kept_slots: "(\<And>p. content_kept clr w w' p) \<Longrightarrow> live_slots w \<subseteq> live_slots w'"
  unfolding content_kept_def live_slots_def by blast

lemma begin_live_slots:
  assumes "begin_op t act w = Next w'"
  shows "used_slots w' \<subseteq> used_slots w \<union> live_slots w'"
  using assms by (cases act) (force simp: live_slots_def meta_def user_op_defs world_ops modify_counter_Next SdarcInner_new_def
      split: if_splits option.splits payload.splits)+

lemma user_live_slots:
  assumes "user_step t act w = Next w'" "used_slots w \<subseteq> live_slots w"
  shows "used_slots w' \<subseteq> live_slots w'"
proof -
  have "used_slots w' \<subseteq> used_slots w \<union> live_slots w'"
    using assms(1) begin_live_slots [of t act w w'] continue_slots [of t "pc (threads w ! t)" w w']
    unfolding user_step_def by (metis Un_upper1 outcome.distinct(3))
  then show ?thesis using content_kept_slots [OF user_content [OF assms(1)]] assms(2) by blast
qed

lemma free_pointers_frees:
  assumes "free_pointers w = Next w'" "to_free (coll w) = a # rest"
  shows "\<exists>p ob. heap w p = Some ob \<and> counters_ptr ob = a \<and> heap w' = (heap w)(p := None) \<and> used_slots w' = used_slots w - {a}"
  using assms by (force simp: free_pointers_def drop_sdarc_inner_def Let_def collector_defs world_ops
      split: if_splits option.splits payload.splits)

lemma collector_live_slots:
  assumes "inv w" "collector_step w = Next w'" "used_slots w \<subseteq> live_slots w"
  shows "used_slots w' \<subseteq> live_slots w'"
proof -
  have c: "collector_at (cpc (coll w)) w = Next w'" "pc (threads w ! 0) = Idle"
    using assms(2) by (auto simp: collector_step_def split: if_splits)
  show ?thesis
  proof (cases "slot_given_back Collector w")
    case None
    have "heap w' = heap w" if "cpc (coll w) = Freeing"
      using None that c by (auto simp: free_pointers_def split: list.splits)
    then have "live_slots w \<subseteq> live_slots w'"
      using content_kept_slots [OF collector_content [OF c(1)]] by (cases "cpc (coll w) = Freeing") (auto simp: live_slots_def)
    with collector_slots(2) [OF assms(2) None] assms(3) show ?thesis by simp
  next
    case (Some a)
    then obtain rest where a: "cpc (coll w) = Freeing" "to_free (coll w) = a # rest" by (auto split: if_splits list.splits)
    with c(1) have "free_pointers w = Next w'" by simp
    from free_pointers_frees [OF this a(2)] obtain p ob where p: "heap w p = Some ob" "counters_ptr ob = a"
      "heap w' = (heap w)(p := None)" "used_slots w' = used_slots w - {a}" by blast
    show ?thesis
    proof
      fix x assume x: "x \<in> used_slots w'"
      then have "x \<in> live_slots w" "x \<noteq> a" using p(4) assms(3) by auto
      then obtain p' r d where p': "meta (heap w) p' = Some (x, r, d)" unfolding live_slots_def by blast
      then have "p' \<noteq> p" using \<open>x \<noteq> a\<close> p(2) meta_SomeI [of "heap w", OF p(1)] by auto
      then have "meta (heap w') p' = Some (x, r, d)" using p' by (simp add: p(3))
      then show "x \<in> live_slots w'" unfolding live_slots_def by blast
    qed
  qed
qed

interpretation slots: invariant_system initial sys_step "\<lambda>w. reachable w \<and> used_slots w \<subseteq> live_slots w"
proof unfold_locales
  show "reachable w \<and> used_slots w \<subseteq> live_slots w" if "initial w" for w
    using that reach_init [of initial w sys_step] by (auto simp: initial_def init_world_def)
  show "reachable w' \<and> used_slots w' \<subseteq> live_slots w'" if r: "reachable w \<and> used_slots w \<subseteq> live_slots w" and st: "sys_step w w'" for w w'
  proof -
    from st obtain e where e: "uc_step e w = Next w'" by (rule sys_stepE)
    have "used_slots w' \<subseteq> live_slots w'"
    proof (rule uc_step_keeps [OF e])
      show "used_slots w2 \<subseteq> live_slots w2" if "used_slots w1 \<subseteq> live_slots w1" "user_step t act w1 = Next w2" for t act w1 w2
        using user_live_slots [OF that(2,1)] .
      show "used_slots w' \<subseteq> live_slots w'" if "collector_step w = Next w'"
        by (rule collector_live_slots [OF reachable_inv that]) (use r in simp_all)
    qed (use r in simp)
    then show ?thesis using r reach_step [of initial sys_step w w'] st by simp
  qed
qed

lemma slots_exact: "reachable w \<Longrightarrow> used_slots w = live_slots w"
  using slots.reach_inv [of w] invD(7) [OF reachable_inv, of w] unfolding live_slots_def inv_slots_def by blast


section \<open>The combined system refines the interleaving model\<close>

lemma with_slot_idem [simp]:
  "with_slot a (with_slot b e) = with_slot a e" "slot_wanted (with_slot a e) w = slot_wanted e w"
  by (cases "(a, e)" rule: with_slot.cases; simp)+

lemma allocate_groups: "allocate_and_init c s f mem al = (r, al') \<Longrightarrow> length (groups al') = length (groups al)"
  by (auto simp: allocate_and_init_def split: if_splits prod.splits)

lemma dealloc_in_groups_length: "dealloc_in_groups p gs = Inr (Some gs') \<Longrightarrow> length gs' = length gs"
  by (induction p gs arbitrary: gs' rule: dealloc_in_groups.induct) (auto simp: res_bind_eq_Inr split: option.splits)

lemma drop_groups: "ShardedBox_drop c p al = Inr al' \<Longrightarrow> length (groups al') = length (groups al)"
  by (auto simp: ShardedBox_drop_def res_bind_eq_Inr split: option.splits list.splits dest!: dealloc_in_groups_length)

fun joint_inv :: "ShardCount \<Rightarrow> joint \<Rightarrow> bool" where
  "joint_inv c (w, al, B) \<longleftrightarrow> valid_count c \<and> reachable w \<and> alloc_ok c al \<and> used al = used_slots w \<union> B
     \<and> used_slots w \<inter> B = {} \<and> length (groups al) = shards w"

lemma joint_invD:
  assumes "joint_inv c (w, al, B)"
  shows "valid_count c" "reachable w" "alloc_ok c al" "used al = used_slots w \<union> B" "used_slots w \<inter> B = {}"
    "length (groups al) = shards w"
  using assms by simp_all

text \<open>The allocator's answer to a call of a thread of the system, and to the drop of a slot in use.\<close>

lemma joint_allocate:
  assumes j: "joint_inv c (w, al, B)" and t: "t < length (threads w)" and m: "fresh_block c b al"
  obtains a al' where "allocate_data_in_each_shard c (shard_of t w) (\<lambda>_. Inr v) (Some b) al = (Inr a, al')"
    "alloc_ok c al'" "a \<notin> used al" "used al' = insert a (used al)" "length (groups al') = length (groups al)"
proof -
  note i = joint_invD [OF j]
  have "shard_of t w < length (groups al)"
    using invD(1) [OF reachable_inv [OF i(2)]] t i(6) by (simp add: inv_shape_def shard_of_def)
  from allocate_and_init_ok [OF i(1,3) this m, of "\<lambda>_. Inr v" "\<lambda>_. v"] obtain a al' where
    "allocate_and_init c (shard_of t w) (\<lambda>_. Inr v) (Some b) al = (Inr a, al')" "alloc_ok c al'" "a \<notin> used al"
    "used al' = insert a (used al)" by auto
  with that allocate_groups show thesis unfolding allocate_data_in_each_shard_def by metis
qed

lemma joint_drop:
  assumes "joint_inv c (w, al, B)" "a \<in> used al"
  obtains al' where "ShardedBox_drop c a al = Inr al'" "alloc_ok c al'" "used al' = used al - {a}"
    "length (groups al') = length (groups al)"
  using ShardedBox_drop_frees [OF joint_invD(1,3) [OF assms(1)] assms(2)] drop_groups that by metis

lemma given_back_used:
  assumes "joint_inv c (w, al, B)" "slot_given_back e w = Some a"
  shows "a \<in> used_slots w"
proof -
  note i = reachable_inv [OF joint_invD(2) [OF assms(1)]]
  have "a \<in> set (to_free (coll w))" using assms(2) by (cases e) (auto split: if_splits list.splits)
  then have "map_of (tracked_counters (coll w)) a \<noteq> None" using invD(9) [OF i] unfolding inv_pass_def by blast
  then obtain tc where tc: "map_of (tracked_counters (coll w)) a = Some tc" by auto
  from inv_trackD(2) [OF invD(8) [OF i] tc] show ?thesis using invD(7) [OF i] unfolding inv_slots_def by blast
qed

lemma joint_sys_inv:
  assumes j: "joint_inv c (w, al, B)" and st: "joint_step c (Sys e (Some b)) w al B = JNext w' al' B'" and m: "fresh_block c b al"
  shows "joint_inv c (w', al', B')"
proof -
  note i = joint_invD [OF j]
  have u: "joint_inv c (w', al', B)"
    if "uc_step e' w = Next w'" "alloc_ok c al'" "used al' = used_slots w' \<union> B" "used_slots w' \<inter> B = {}"
      "length (groups al') = length (groups al)" for e'
    using that i uc_slots(1) [OF that(1)] reach_step [of initial sys_step w w'] sys_step.intros [OF that(1)] by simp
  show ?thesis
  proof (cases "slot_wanted e w")
    case (Some t)
    with st have t: "t < length (threads w)" by (auto split: if_splits)
    from joint_allocate [OF j t m, of "sint AtomicTaggedCounter_new"] obtain a al2 where a:
      "allocate_data_in_each_shard c (shard_of t w) (\<lambda>_. Inr (sint AtomicTaggedCounter_new)) (Some b) al = (Inr a, al2)"
      "alloc_ok c al2" "a \<notin> used al" "used al2 = insert a (used al)" "length (groups al2) = length (groups al)" by metis
    then have e: "uc_step (with_slot a e) w = Next w'" "al' = al2" "B' = B" using st Some t by auto
    then show ?thesis using u [OF e(1)] uc_slots(3) [OF e(1), of a] a Some i by simp
  next
    case None
    show ?thesis
    proof (cases "slot_given_back e w")
      case None
      then have e: "uc_step e w = Next w'" "al' = al" "B' = B" using st \<open>slot_wanted e w = None\<close> by simp_all
      then show ?thesis using u [OF e(1)] uc_slots(2) [OF e(1) \<open>slot_wanted e w = None\<close> None] i by simp
    next
      case (Some a)
      note a = given_back_used [OF j Some]
      from a i(4) have "a \<in> used al" by simp
      from joint_drop [OF j this] obtain al2 where d: "ShardedBox_drop c a al = Inr al2" "alloc_ok c al2"
        "used al2 = used al - {a}" "length (groups al2) = length (groups al)" by metis
      then have e: "uc_step e w = Next w'" "al' = al2" "B' = B" using st Some \<open>slot_wanted e w = None\<close> by simp_all
      have s: "used_slots w' = used_slots w - {a}" using uc_slots(4) [OF e(1) Some] by simp
      have "used al2 = used_slots w' \<union> B" "used_slots w' \<inter> B = {}" unfolding d(3) s i(4) using a i(5) by blast+
      then show ?thesis using u [OF e(1)] d(2,4) e(2,3) by simp
    qed
  qed
qed

lemma joint_trans_inv:
  assumes j: "joint_inv c (w, al, B)" and st: "joint_step c je w al B = JNext w' al' B'" and m: "memory_ok c je al"
  shows "joint_inv c (w', al', B')"
proof (cases je)
  case (Sys e mem)
  with m obtain b where b: "mem = Some b" "fresh_block c b al" by auto
  show ?thesis by (rule joint_sys_inv [OF j _ b(2)]) (use st in \<open>simp only: Sys b(1)\<close>)
next
  case (SwapGroup s)
  then show ?thesis using st j swap_group_ok [OF joint_invD(3) [OF j], of s] by (auto split: if_splits)
next
  case MaintainFillingGroup
  then show ?thesis using st j maintain_ok [OF joint_invD(3) [OF j]] by auto
next
  case (NewBox t mem)
  with m st obtain b where b: "mem = Some b" "fresh_block c b al" and t: "t < length (threads w)" by (auto split: if_splits)
  from joint_allocate [OF j t b(2), of 0] obtain a al2 where
    "allocate_data_in_each_shard c (shard_of t w) (\<lambda>_. Inr 0) (Some b) al = (Inr a, al2)"
    "alloc_ok c al2" "a \<notin> used al" "used al2 = insert a (used al)" "length (groups al2) = length (groups al)" by metis
  then show ?thesis using st NewBox b(1) t j by (auto simp: ReaderCriticalSection_new_def)
next
  case (DropBox a)
  with st have a: "a \<in> B" "a \<in> used al" using joint_invD(4) [OF j] by (auto split: if_splits)
  from joint_drop [OF j a(2)] obtain al2 where "ShardedBox_drop c a al = Inr al2" "alloc_ok c al2"
    "used al2 = used al - {a}" "length (groups al2) = length (groups al)" by metis
  then show ?thesis using st DropBox a(1) j by auto
qed

interpretation joint: invariant_system "joint_initial c" "joint_trans c" "joint_inv c" for c
proof unfold_locales
  show "joint_inv c y" if "joint_inv c x" "joint_trans c x y" for x y
    using that(2,1) joint_trans_inv by (cases rule: joint_trans.cases) blast
  show "joint_inv c x" if "joint_initial c x" for x
  proof (cases x)
    case (fields w al B)
    with that have "reachable w" "used_slots w = {}" by (auto simp: reach_init initial_def init_world_def)
    with fields that initialize_ok [of c] show ?thesis by (simp add: FullShardAlloc_initialize_def)
  qed
qed

lemma joint_allocate_ok:
  assumes "joint_inv c (w, al, B)" "t < length (threads w)" "fresh_block c b al"
  shows "\<exists>a al'. allocate_data_in_each_shard c (shard_of t w) (\<lambda>_. Inr v) (Some b) al = (Inr a, al')"
  using joint_allocate [OF assms, of v] by metis

lemma joint_drop_ok:
  assumes "joint_inv c (w, al, B)" "a \<in> used al"
  shows "\<exists>al'. ShardedBox_drop c a al = Inr al'"
  using joint_drop [OF assms] by metis

lemma joint_no_panic:
  assumes j: "joint_inv c (w, al, B)" and m: "memory_ok c je al"
  shows "joint_step c je w al B \<noteq> JPanic x"
proof (cases je)
  case (Sys e mem)
  obtain b where b: "mem = Some b" "fresh_block c b al" using m Sys by auto
  show ?thesis
  proof (cases "slot_wanted e w")
    case (Some t)
    then show ?thesis using joint_allocate_ok [OF j _ b(2), of t "sint AtomicTaggedCounter_new"] Sys b(1) by auto
  next
    case None
    have "\<exists>al'. ShardedBox_drop c a al = Inr al'" if "slot_given_back e w = Some a" for a
      using joint_drop_ok [OF j, of a] given_back_used [OF j that] joint_invD(4) [OF j] by blast
    then show ?thesis using Sys None by (auto split: option.split)
  qed
next
  case MaintainFillingGroup
  then show ?thesis using maintain_ok [OF joint_invD(3) [OF j]] by auto
next
  case (NewBox t mem)
  with m obtain b where b: "mem = Some b" "fresh_block c b al" by auto
  then show ?thesis using joint_allocate_ok [OF j _ b(2), of t 0] NewBox by (auto simp: ReaderCriticalSection_new_def)
next
  case (DropBox a)
  then show ?thesis using joint_drop_ok [OF j, of a] joint_invD(4) [OF j] by auto
qed simp

lemma joint_new:
  assumes j: "joint_inv c (w, al, B)" and m: "fresh_block c b al"
    and t: "0 < t" "t < length (threads w)" "pc (threads w ! t) = Idle" and p: "heap w p = None"
  shows "\<exists>w' al'. joint_step c (Sys (User t (New p 0 v)) (Some b)) w al B = JNext w' al' B"
proof -
  from joint_allocate [OF j t(2) m, of "sint AtomicTaggedCounter_new"] obtain a al' where
    "allocate_data_in_each_shard c (shard_of t w) (\<lambda>_. Inr (sint AtomicTaggedCounter_new)) (Some b) al = (Inr a, al')"
    "a \<notin> used al" by metis
  then show ?thesis using t p joint_invD(4) [OF j] by (simp add: user_step_def Sdarc_new_def can_allocate_def)
qed

lemma report_counts_objects:
  assumes j: "joint_inv c (w, al, B)"
  shows "\<exists>r. get_status_report al = Inr r \<and> total_used r = card (dom (heap w)) + card B"
proof -
  note i = joint_invD [OF j]
  let ?slot = "\<lambda>p. counters_ptr (the (heap w p))"
  have "inj_on ?slot (dom (heap w))"
  proof (rule inj_onI)
    fix p q assume "p \<in> dom (heap w)" "q \<in> dom (heap w)" and eq: "?slot p = ?slot q"
    then obtain ob ob' where ob: "heap w p = Some ob" "heap w q = Some ob'" by blast
    then show "p = q"
      using invD(7) [OF reachable_inv [OF i(2)]] meta_SomeI [of "heap w", OF ob(1)] meta_SomeI [of "heap w", OF ob(2)] eq
      unfolding inv_slots_def by (metis option.sel)
  qed
  moreover have "?slot ` dom (heap w) = used_slots w"
    using slots_exact [OF i(2)] by (force simp: live_slots_def meta_def)
  ultimately have "card (dom (heap w)) = card (used_slots w)" using card_image by metis
  moreover have "finite (used al)" by (simp add: used_def used_slots_of_def used_in_def)
  then have "card (used al) = card (used_slots w) + card B" using i(4,5) by (simp add: card_Un_disjoint)
  ultimately show ?thesis using status_report_counts_used_slots [OF i(3)] by simp
qed

section \<open>Properties\<close>

text \<open>
  C15: objects and allocator together. In every state that the system reaches when each new object gets
  its counters from the sharded allocator, each freed object gives them back, other boxes come and go
  and the collector maintains the allocator's groups at any time: the objects' part is a reachable
  state of the interleaving model; the slots the allocator counts as used are those of the allocated
  objects and of the other boxes, so none is lost and none is shared; as long as the global allocator
  has memory and returns blocks not in use, no step makes the allocator panic (no double free, no flag
  with a wrong value, no index out of bounds); \<open>Sdarc::new\<close> of an idle thread succeeds; and \<open>total_used\<close> of
  the status report is the number of allocated objects and other boxes.
\<close>

theorem objects_and_allocator_compose:
  assumes "reach (joint_initial c) (joint_trans c) (w, al, B)"
  shows "reachable w
     \<and> used al = {counters_ptr ob | p ob. heap w p = Some ob} \<union> B
     \<and> {counters_ptr ob | p ob. heap w p = Some ob} \<inter> B = {}
     \<and> (\<forall>je x. memory_ok c je al \<longrightarrow> joint_step c je w al B \<noteq> JPanic x)
     \<and> (\<forall>t p v b. 0 < t \<and> t < length (threads w) \<and> pc (threads w ! t) = Idle \<and> heap w p = None \<and> fresh_block c b al \<longrightarrow>
          (\<exists>w' al'. joint_step c (Sys (User t (New p 0 v)) (Some b)) w al B = JNext w' al' B))
     \<and> (\<exists>r. get_status_report al = Inr r \<and> total_used r = card (dom (heap w)) + card B)"
proof -
  have j: "joint_inv c (w, al, B)" using joint.reach_inv [OF assms] .
  have "used_slots w = {counters_ptr ob | p ob. heap w p = Some ob}"
    using slots_exact [OF joint_invD(2) [OF j]] by (auto simp: live_slots_def meta_def)
  with joint_invD(2,4,5) [OF j] show ?thesis
    using joint_no_panic [OF j] joint_new [OF j] report_counts_objects [OF j] by (intro conjI allI impI) simp_all
qed

lemma joint_start: "joint_initial (ShardCount 1) (init_world 1 [0, 0] 0, FullShardAlloc_initialize (ShardCount 1), {})"
proof -
  have "initial (init_world 1 [0, 0] 0)"
    unfolding initial_def by (intro exI [of _ 1] exI [of _ "[0, 0]"] exI [of _ 0]) simp
  moreover have "shards (init_world 1 [0, 0] 0) = length (shard_indexes (ShardCount 1))" by (simp add: init_world_def)
  ultimately show ?thesis by (simp add: valid_count_def)
qed

theorem objects_and_allocator_compose_witness:
  "\<exists>w al a. reach (joint_initial (ShardCount 1)) (joint_trans (ShardCount 1)) (w, al, {})
     \<and> heap w 10 \<noteq> None \<and> used al = {a}"
proof -
  let ?c = "ShardCount 1" and ?w = "init_world 1 [0, 0] 0" and ?al = "FullShardAlloc_initialize (ShardCount 1) :: int FullShardAlloc"
  have r: "reach (joint_initial ?c) (joint_trans ?c) (?w, ?al, {})" using joint_start by (rule reach_init)
  have f: "fresh_block ?c 4096 ?al" by (simp add: fresh_block_def)
  have ok: "0 < (1::nat) \<and> 1 < length (threads ?w) \<and> pc (threads ?w ! 1) = Idle \<and> heap ?w 10 = None \<and> fresh_block ?c 4096 ?al"
    using f by (simp add: init_world_def)
  note new = objects_and_allocator_compose [OF r, THEN conjunct2, THEN conjunct2, THEN conjunct2, THEN conjunct2, THEN conjunct1, rule_format, OF ok]
  obtain w al where st: "joint_step ?c (Sys (User 1 (New 10 0 7)) (Some 4096)) ?w ?al {} = JNext w al {}"
    using new [of 7] by (elim exE)
  then have "joint_trans ?c (?w, ?al, {}) (w, al, {})" by (rule joint_transI) (use f in simp)
  then have r2: "reach (joint_initial ?c) (joint_trans ?c) (w, al, {})" using r by (blast intro: reach_step)
  from st obtain a where "user_step 1 (New 10 a 7) ?w = Next w" by (auto split: if_splits prod.splits sum.splits)
  then have h: "heap w = [10 \<mapsto> SdarcInner_new 1 0 a (UserData 7)]"
    by (auto simp: user_step_def Sdarc_new_def world_ops init_world_def split: if_splits)
  have "used al = {counters_ptr ob | p ob. heap w p = Some ob} \<union> {}"
    using objects_and_allocator_compose [OF r2] by (elim conjE)
  also have "\<dots> = {a}" unfolding h by (auto simp: SdarcInner_new_def split: if_splits)
  finally have "used al = {a}" .
  moreover have "heap w 10 \<noteq> None" by (simp add: h)
  ultimately show ?thesis using r2 by blast
qed

end
