(* ===== verification/Machine_Width.thy ===== *)
theory Machine_Width
  imports Sdarc_User_Steps
begin

text \<open>
  Why integers are enough for the counters. The interleaving model computes with unbounded integers,
  the code with \<open>i64\<close>. Every step of the system changes a counter by at most one, so in a run of \<open>k\<close>
  steps no counter leaves the range from \<open>-k\<close> to \<open>k\<close>, and no sum the collector accumulates leaves
  \<open>k\<close> times the number of shards. The property says that as long as this is below \<open>2 ^ 62\<close>, each operation
  of \<^verbatim>\<open>src/src/tagged_counter.rs\<close> on the 64-bit value agrees with the one on the integer.
\<close>

section \<open>How far a counter gets\<close>

text \<open>Every object has \<open>n\<close> counters, each between \<open>-k\<close> and \<open>k\<close>.\<close>

definition counts_within :: "nat \<Rightarrow> nat \<Rightarrow> (ptr \<Rightarrow> SdarcInner option) \<Rightarrow> bool" where
  "counts_within k n h \<longleftrightarrow>
     (\<forall>p ob. h p = Some ob \<longrightarrow>
        length (counters ob) = n \<and> (\<forall>c \<in> set (counters ob). \<bar>itc_ref_count c\<bar> \<le> int k))"

text \<open>The sum of a scan in progress: the next shard to read and what has been added up.\<close>

fun scan_sum :: "cpc \<Rightarrow> (nat \<times> int) option" where
  "scan_sum (PreRead a p i acc) = Some (i, acc)"
| "scan_sum (ClearRead a p i acc) = Some (i, acc)"
| "scan_sum (ReCheck a p i acc) = Some (i, acc)"
| "scan_sum _ = None"

definition sum_within :: "nat \<Rightarrow> nat \<Rightarrow> cpc \<Rightarrow> bool" where
  "sum_within k n q \<longleftrightarrow> (\<forall>i acc. scan_sum q = Some (i, acc) \<longrightarrow> i \<le> n \<and> \<bar>acc\<bar> \<le> int (i * k))"

lemma counts_mono: "counts_within k n h \<Longrightarrow> counts_within (Suc k) n h"
  unfolding counts_within_def by force

lemma counts_upd:
  assumes "counts_within k n h" "length (counters ob) = n" "\<forall>c \<in> set (counters ob). \<bar>itc_ref_count c\<bar> \<le> int k"
  shows "counts_within k n (h(p \<mapsto> ob))"
  using assms by (simp add: counts_within_def)

lemma counts_del: "counts_within k n h \<Longrightarrow> counts_within k n (h(p := None))"
  by (simp add: counts_within_def)

text \<open>Fields of an object other than its counters do not matter.\<close>

lemma counts_same:
  "counts_within k n h \<Longrightarrow> h p = Some ob \<Longrightarrow> counters ob' = counters ob \<Longrightarrow> counts_within k n (h(p \<mapsto> ob'))"
  by (auto simp: counts_within_def)

lemma counts_back_ref:
  "counts_within k n h \<Longrightarrow> h q = Some wk \<Longrightarrow> counts_within (Suc k) n (h(q \<mapsto> wk\<lparr>data := x\<rparr>))"
  by (rule counts_same [OF counts_mono]) simp_all

lemma itc_moves_by_one:
  "\<bar>itc_ref_count (itc_increment c)\<bar> \<le> \<bar>itc_ref_count c\<bar> + 1"
  "\<bar>itc_ref_count (itc_decrement c)\<bar> \<le> \<bar>itc_ref_count c\<bar> + 1"
  "\<bar>itc_ref_count (itc_clear_tag c)\<bar> \<le> \<bar>itc_ref_count c\<bar> + 1"
  by simp_all

text \<open>One counter of one object changed by at most one.\<close>

lemma counts_change:
  assumes "counts_within k n h" "h p = Some ob" "\<And>c. \<bar>itc_ref_count (f c)\<bar> \<le> \<bar>itc_ref_count c\<bar> + 1"
  shows "counts_within (Suc k) n (h(p \<mapsto> ob\<lparr>counters := (counters ob)[s := f (counters ob ! s)]\<rparr>))"
proof (rule counts_upd)
  show "counts_within (Suc k) n h" using counts_mono [OF assms(1)] by simp
  have b: "length (counters ob) = n" "\<And>c. c \<in> set (counters ob) \<Longrightarrow> \<bar>itc_ref_count c\<bar> \<le> int k"
    using assms(1,2) by (simp_all add: counts_within_def)
  then show "length (counters (ob\<lparr>counters := (counters ob)[s := f (counters ob ! s)]\<rparr>)) = n" by simp
  have "\<bar>itc_ref_count ((counters ob)[s := f (counters ob ! s)] ! j)\<bar> \<le> int (Suc k)" if "j < length (counters ob)" for j
    using b(2) [OF nth_mem [OF that]] assms(3) [of "counters ob ! j"] that by (cases "s = j") auto
  then show "\<forall>c \<in> set (counters (ob\<lparr>counters := (counters ob)[s := f (counters ob ! s)]\<rparr>)). \<bar>itc_ref_count c\<bar> \<le> int (Suc k)"
    by (simp add: all_set_conv_all_nth)
qed

lemmas counts_changed = counts_change [OF _ _ itc_moves_by_one(1)] counts_change [OF _ _ itc_moves_by_one(2)]
  counts_change [OF _ _ itc_moves_by_one(3)]

lemma counts_new:
  assumes "counts_within k n h"
  shows "counts_within (Suc k) n (h(p \<mapsto> SdarcInner_new n s a v))"
proof (rule counts_upd)
  show "counts_within (Suc k) n h" using counts_mono [OF assms] by simp
  have "\<bar>itc_ref_count ((replicate n 0)[s := itc_increment 0] ! j)\<bar> \<le> int (Suc k)" if "j < n" for j
    using that by (cases "s = j") simp_all
  then show "\<forall>c \<in> set (counters (SdarcInner_new n s a v)). \<bar>itc_ref_count c\<bar> \<le> int (Suc k)"
    by (simp add: all_set_conv_all_nth SdarcInner_new_def)
qed (simp add: SdarcInner_new_def)

lemma counts_downgrade:
  assumes "counts_within k n h" "h p = Some ob" "h q = None"
  shows "counts_within (Suc k) n (h(q \<mapsto> SdarcInner_new n s a v, p \<mapsto> ob\<lparr>weak_inner_ref := x\<rparr>))"
proof (rule counts_same)
  show "counts_within (Suc k) n (h(q \<mapsto> SdarcInner_new n s a v))" by (rule counts_new [OF assms(1)])
  show "(h(q \<mapsto> SdarcInner_new n s a v)) p = Some ob" using assms(2,3) by auto
qed simp

section \<open>Steps\<close>

lemma begin_op_counts:
  assumes "begin_op t act w = Next w'" "counts_within k (shards w) (heap w)"
  shows "counts_within (Suc k) (shards w') (heap w') \<and> shards w' = shards w \<and> cpc (coll w') = cpc (coll w)"
  using assms
  by (cases act) (auto simp: user_op_defs world_ops modify_counter_Next
      split: if_splits option.splits payload.splits
      intro: counts_mono counts_changed counts_new counts_downgrade)

lemma continue_counts:
  assumes "continue t q w = Next w'" "counts_within k (shards w) (heap w)"
  shows "counts_within (Suc k) (shards w') (heap w') \<and> shards w' = shards w \<and> cpc (coll w') = cpc (coll w)"
  using assms
  by (cases q) (auto simp: user_op_defs world_ops modify_counter_Next
      split: if_splits option.splits payload.splits
      intro: counts_mono counts_changed)


lemma user_step_counts:
  assumes "user_step t act w = Next w'" "counts_within k (shards w) (heap w)"
  shows "counts_within (Suc k) (shards w') (heap w') \<and> shards w' = shards w \<and> cpc (coll w') = cpc (coll w)"
  using assms begin_op_counts [OF _ assms(2)] continue_counts [OF _ assms(2)]
  unfolding user_step_def by (metis outcome.distinct(3))

lemma sum_within_None [simp]: "scan_sum q = None \<Longrightarrow> sum_within k n q"
  by (simp add: sum_within_def)

lemma sum_mono: "sum_within k n q \<Longrightarrow> sum_within (Suc k) n q"
  by (auto simp: sum_within_def)

text \<open>Adding the counter of the next shard.\<close>

lemma sum_read:
  assumes "counts_within k n h" "h p = Some ob" "i < n"
  shows "sum_within k n (PreRead a p i acc) \<Longrightarrow> sum_within (Suc k) n (PreRead a p (Suc i) (acc + itc_ref_count (counters ob ! i)))"
    "sum_within k n (ClearRead a p i acc) \<Longrightarrow> sum_within (Suc k) n (ClearRead a p (Suc i) (acc + itc_ref_count (counters ob ! i)))"
    "sum_within k n (ReCheck a p i acc) \<Longrightarrow> sum_within (Suc k) n (ReCheck a p (Suc i) (acc + itc_ref_count (counters ob ! i)))"
proof -
  have "\<bar>itc_ref_count (counters ob ! i)\<bar> \<le> int k" using assms by (simp add: counts_within_def)
  then have "\<bar>acc\<bar> \<le> int (i * k) \<Longrightarrow> \<bar>acc + itc_ref_count (counters ob ! i)\<bar> \<le> int (Suc i * Suc k)" by simp
  with assms(3) show "sum_within k n (PreRead a p i acc) \<Longrightarrow> sum_within (Suc k) n (PreRead a p (Suc i) (acc + itc_ref_count (counters ob ! i)))"
    "sum_within k n (ClearRead a p i acc) \<Longrightarrow> sum_within (Suc k) n (ClearRead a p (Suc i) (acc + itc_ref_count (counters ob ! i)))"
    "sum_within k n (ReCheck a p i acc) \<Longrightarrow> sum_within (Suc k) n (ReCheck a p (Suc i) (acc + itc_ref_count (counters ob ! i)))"
    by (simp_all add: sum_within_def del: of_nat_mult)
qed

lemma sum_start [simp]: "sum_within k n (PreRead a p 0 0)" "sum_within k n (ClearRead a p 0 0)" "sum_within k n (ReCheck a p 0 0)"
  by (simp_all add: sum_within_def)

lemma collector_counts:
  assumes "collector_at q w = Next w'" "counts_within k (shards w) (heap w)"
  shows "counts_within (Suc k) (shards w') (heap w') \<and> shards w' = shards w"
  using assms
  by (cases q) (auto simp: collector_defs world_ops free_pointers_def drop_sdarc_inner_def Let_def
      split: if_splits option.splits payload.splits list.splits sum.splits TrackedCounterState.splits
        ClearWeakBackRefResult.splits prod.splits
      intro: counts_mono counts_changed counts_del [OF counts_mono] counts_back_ref)

lemma collector_sums:
  assumes "collector_at q w = Next w'" "counts_within k (shards w) (heap w)" "sum_within k (shards w) q" "cpc (coll w) = q"
  shows "sum_within (Suc k) (shards w') (cpc (coll w'))"
  using assms
  by (cases q) (auto simp: collector_defs world_ops free_pointers_def drop_sdarc_inner_def Let_def
      finish_visit_def start_pass_def end_pass_def
      split: if_splits option.splits payload.splits list.splits sum.splits TrackedCounterState.splits
        ClearWeakBackRefResult.splits prod.splits
      intro: sum_read)


definition within :: "nat \<Rightarrow> world \<Rightarrow> bool" where
  "within k w \<longleftrightarrow> counts_within k (shards w) (heap w) \<and> sum_within k (shards w) (cpc (coll w))"

lemma step_within:
  assumes "step e w = Next w'" "within k w"
  shows "within (Suc k) w' \<and> shards w' = shards w"
proof (cases e)
  case (User t act)
  with assms user_step_counts [of t act w w' k] sum_mono [of k "shards w" "cpc (coll w)"] show ?thesis
    unfolding within_def by (metis step.simps(1))
next
  case Collector
  with assms(1) have "collector_at (cpc (coll w)) w = Next w'" by (simp add: collector_step_def split: if_splits)
  then show ?thesis
    using collector_counts collector_sums assms(2) unfolding within_def by blast
qed

lemma run_within: "run es w = Next w' \<Longrightarrow> within k w \<Longrightarrow> within (length es + k) w' \<and> shards w' = shards w"
proof (induction es arbitrary: w k)
  case (Cons e es)
  then obtain w1 where "step e w = Next w1" "run es w1 = Next w'" by (auto split: outcome.splits)
  then show ?case using step_within [of e w w1 k] Cons by fastforce
qed simp

lemma init_within: "within 0 (init_world n idx m)"
  by (simp add: within_def counts_within_def init_world_def init_collector_def)

section \<open>Agreement with the 64-bit operations\<close>

lemma ref_count_bound: "\<bar>itc_ref_count c\<bar> < 2 ^ 62 - 1 \<Longrightarrow> - (2 ^ 63) + 4 \<le> c \<and> c < 2 ^ 63 - 2"
  by (auto simp: itc_arith)

lemma sint_of_count: "\<bar>itc_ref_count c\<bar> < 2 ^ 62 - 1 \<Longrightarrow> sint (word_of_int c :: i64) = c"
  using ref_count_bound [of c] by (simp add: sint_sbintrunc' signed_take_bit_int_eq_self)

text \<open>
  C35: the counters and the sums of the collector stay within 64 bits. Take any run of the system, with any
  interleaving of user threads and collector, in which the number of steps times the number of shards
  stays below \<open>2 ^ 62 - 1\<close>. Then each counter \<open>c\<close> of each object is the value of an \<open>i64\<close>, on which reading the
  count and the tag, incrementing, decrementing and clearing the tag give what the model computes on
  the integer, without overflow; and the sum the collector is accumulating is below \<open>2 ^ 62\<close> in absolute value.
\<close>

theorem counters_never_overflow:
  assumes "run es (init_world n idx m) = Next w" "int (length es) * int n < 2 ^ 62 - 1"
    and "heap w p = Some ob" "c \<in> set (counters ob)" "v = (word_of_int c :: i64)"
  shows "sint v = c \<and> sint (ref_count (load_counter v)) = itc_ref_count c \<and> tag (load_counter v) = itc_tag c
     \<and> sint (increment_ref_count_relaxed v) = itc_increment c
     \<and> decrement_new_value chk v = Inr (word_of_int (itc_decrement c))
     \<and> sint (word_of_int (itc_decrement c) :: i64) = itc_decrement c
     \<and> sint (snd (fetch_and_clear_tag_relaxed v)) = itc_clear_tag c
     \<and> (\<forall>i acc. scan_sum (cpc (coll w)) = Some (i, acc) \<longrightarrow> \<bar>acc\<bar> < 2 ^ 62)"
proof -
  from run_within [OF assms(1) init_within] have w: "within (length es) w" "shards w = n" by (simp_all add: init_world_def)
  then have b: "\<bar>itc_ref_count c\<bar> \<le> int (length es)" "length (counters ob) = n" using assms(3,4) by (simp_all add: within_def counts_within_def)
  moreover have "1 * int (length es) \<le> int (length es) * int n" using b(2) assms(4) by (cases n) (auto simp: algebra_simps)
  ultimately have c: "\<bar>itc_ref_count c\<bar> < 2 ^ 62 - 1" using assms(2) by linarith
  have s: "sint v = c" using sint_of_count [OF c] assms(5) by simp
  have "- (2 ^ 62) < sint (ref_count (TaggedCounter v))" using c unfolding sint_ref_count s by linarith
  then have d: "- (2 ^ 63) \<le> sint (v OR 1) - 2" by (rule decrement_no_overflow)
  have e: "sint ((v OR 1) - 2) = itc_decrement c" using sint_decrement [OF d] s by simp
  then have "(v OR 1) - 2 = word_of_int (itc_decrement c)" by (simp flip: e)
  moreover have "decrement_new_value chk v = Inr ((v OR 1) - 2)" using d by (simp add: decrement_new_value_def)
  moreover have "sint (increment_ref_count_relaxed v) = itc_increment c"
    using sint_increment [of v] ref_count_bound [OF c] s by simp
  moreover have "\<bar>acc\<bar> < 2 ^ 62" if "scan_sum (cpc (coll w)) = Some (i, acc)" for i acc
  proof -
    have "\<bar>acc\<bar> \<le> int i * int (length es)" "i \<le> n" using w that by (auto simp: within_def sum_within_def)
    moreover have "int i * int (length es) \<le> int n * int (length es)" using \<open>i \<le> n\<close> by (simp add: mult_right_mono)
    ultimately show ?thesis using assms(2) by (simp add: mult.commute)
  qed
  ultimately show ?thesis using s e sint_clear_tag [of v] sint_ref_count [of v] tag_sint [of v] by (simp add: load_counter_def)
qed

theorem counters_never_overflow_witness:
  "\<exists>w ob. run [User 1 (New 10 20 7), User 1 (Clone 10)] (init_world 1 [0, 0] 0) = Next w \<and> heap w 10 = Some ob
     \<and> 4 \<in> set (counters ob) \<and> decrement_new_value True (word_of_int 4) = Inr (word_of_int (itc_decrement 4))"
proof -
  obtain w ob where w: "run [User 1 (New 10 20 7), User 1 (Clone 10)] (init_world 1 [0, 0] 0) = Next w"
    "heap w 10 = Some ob" "4 \<in> set (counters ob)" by (simp add: exec_defs)
  then show ?thesis using counters_never_overflow [OF w(1) _ w(2,3) refl, of True] by auto
qed

end
