(* ===== verification/Sharded_RwLock.thy ===== *)
theory Sharded_RwLock
  imports Sdarc_Prelude
begin

text \<open>
  The sharded read-write lock of \<^verbatim>\<open>src/src/sharded_rwlock.rs\<close>. The lock of one shard is
  \<open>parking_lot::RwLock\<close>, which is not part of the repository: its operations are the argument \<open>L\<close>
  of the definitions, and \<open>RwLock_contract\<close> states what its documentation promises. An operation
  that would block returns \<open>None\<close>.

  Threads run concurrently: a writer takes the locks of the shards one by one, and releases them one
  by one, each in a step of its own.
\<close>

section \<open>The lock of one shard\<close>

record 'l RwLock_ops =
  rw_new :: 'l
  rw_read :: "'l \<Rightarrow> 'l option"
  rw_try_read :: "'l \<Rightarrow> 'l option"
  rw_write :: "'l \<Rightarrow> 'l option"
  rw_unlock_read :: "'l \<Rightarrow> 'l"
  rw_unlock_write :: "'l \<Rightarrow> 'l"

text \<open>
  The documented behaviour, in terms of how many read guards exist and whether a write guard does.
  A read lock may be refused even if no writer holds the lock, for example when one is queued; a
  write lock on a free lock is granted.
\<close>

definition RwLock_contract :: "'l RwLock_ops \<Rightarrow> ('l \<Rightarrow> nat) \<Rightarrow> ('l \<Rightarrow> bool) \<Rightarrow> bool" where
  "RwLock_contract L readers writer \<longleftrightarrow>
     readers (rw_new L) = 0 \<and> \<not> writer (rw_new L)
   \<and> (\<forall>l l'. rw_read L l = Some l' \<or> rw_try_read L l = Some l' \<longrightarrow>
        \<not> writer l \<and> \<not> writer l' \<and> readers l' = readers l + 1)
   \<and> (\<forall>l l'. rw_write L l = Some l' \<longrightarrow> \<not> writer l \<and> readers l = 0 \<and> writer l' \<and> readers l' = 0)
   \<and> (\<forall>l. \<not> writer l \<longrightarrow> readers l = 0 \<longrightarrow> rw_write L l \<noteq> None)
   \<and> (\<forall>l. 0 < readers l \<longrightarrow> readers (rw_unlock_read L l) = readers l - 1
        \<and> writer (rw_unlock_read L l) = writer l)
   \<and> (\<forall>l. writer l \<longrightarrow> readers (rw_unlock_write L l) = readers l \<and> \<not> writer (rw_unlock_write L l))"

section \<open>The sharded lock\<close>

record ('l, 'd) ShardedRwLock =
  lock_data :: 'd
  locks :: "'l list"

definition ShardedRwLock_new :: "'l RwLock_ops \<Rightarrow> nat \<Rightarrow> 'd \<Rightarrow> ('l, 'd) ShardedRwLock" where
  "ShardedRwLock_new L n v = \<lparr>lock_data = v, locks = replicate n (rw_new L)\<rparr>"

text \<open>
  A thread is outside, holds a read guard on a shard's lock, is in the loop of \<open>write\<close> with the next
  shard to lock, holds a write guard, or is in the loop of the guard's destructor with the next
  shard to unlock.
\<close>

datatype guard = NoGuard | ReadGuard nat | WriteLocking nat | WriteGuard | WriteUnlocking nat

record lock_thread =
  thread_shard :: nat
  guard :: guard

record ('l, 'd) lock_world =
  sharded :: "('l, 'd) ShardedRwLock"
  lock_threads :: "lock_thread list"

definition set_guard :: "nat \<Rightarrow> guard \<Rightarrow> ('l, 'd) lock_world \<Rightarrow> ('l, 'd) lock_world" where
  "set_guard t g w = w\<lparr>lock_threads := (lock_threads w)[t := (lock_threads w ! t)\<lparr>guard := g\<rparr>]\<rparr>"

definition set_lock :: "nat \<Rightarrow> 'l \<Rightarrow> ('l, 'd) lock_world \<Rightarrow> ('l, 'd) lock_world" where
  "set_lock i l w = w\<lparr>sharded := (sharded w)\<lparr>locks := (locks (sharded w))[i := l]\<rparr>\<rparr>"

text \<open>\<open>read\<close> and \<open>try_read\<close> lock the shard of the current thread.\<close>

definition read_lock :: "'l RwLock_ops \<Rightarrow> nat \<Rightarrow> ('l, 'd) lock_world \<Rightarrow> ('l, 'd) lock_world option" where
  "read_lock L t w =
     (let s = thread_shard (lock_threads w ! t)
      in case rw_read L (locks (sharded w) ! s) of
           None \<Rightarrow> None
         | Some l \<Rightarrow> Some (set_guard t (ReadGuard s) (set_lock s l w)))"

definition try_read_lock :: "'l RwLock_ops \<Rightarrow> nat \<Rightarrow> ('l, 'd) lock_world \<Rightarrow> ('l, 'd) lock_world option" where
  "try_read_lock L t w =
     (let s = thread_shard (lock_threads w ! t)
      in case rw_try_read L (locks (sharded w) ! s) of
           None \<Rightarrow> Some w
         | Some l \<Rightarrow> Some (set_guard t (ReadGuard s) (set_lock s l w)))"

definition read_unlock :: "'l RwLock_ops \<Rightarrow> nat \<Rightarrow> nat \<Rightarrow> ('l, 'd) lock_world \<Rightarrow> ('l, 'd) lock_world" where
  "read_unlock L t s w = set_guard t NoGuard (set_lock s (rw_unlock_read L (locks (sharded w) ! s)) w)"

text \<open>One iteration of the loop of \<open>write\<close>, or its end.\<close>

definition write_lock :: "'l RwLock_ops \<Rightarrow> nat \<Rightarrow> nat \<Rightarrow> ('l, 'd) lock_world \<Rightarrow> ('l, 'd) lock_world option" where
  "write_lock L t k w =
     (if k < length (locks (sharded w))
      then (case rw_write L (locks (sharded w) ! k) of
              None \<Rightarrow> None
            | Some l \<Rightarrow> Some (set_guard t (WriteLocking (Suc k)) (set_lock k l w)))
      else Some (set_guard t WriteGuard w))"

text \<open>One iteration of the loop of the write guard's destructor, or its end.\<close>

definition write_unlock :: "'l RwLock_ops \<Rightarrow> nat \<Rightarrow> nat \<Rightarrow> ('l, 'd) lock_world \<Rightarrow> ('l, 'd) lock_world" where
  "write_unlock L t k w =
     (if k < length (locks (sharded w))
      then set_guard t (WriteUnlocking (Suc k)) (set_lock k (rw_unlock_write L (locks (sharded w) ! k)) w)
      else set_guard t NoGuard w)"

definition write_data :: "('d \<Rightarrow> 'd) \<Rightarrow> ('l, 'd) lock_world \<Rightarrow> ('l, 'd) lock_world" where
  "write_data f w = w\<lparr>sharded := (sharded w)\<lparr>lock_data := f (lock_data (sharded w))\<rparr>\<rparr>"

text \<open>\<open>set_current_thread_shard_index\<close>, which a thread may call at any time outside \<open>write\<close>.\<close>

definition move_thread :: "nat \<Rightarrow> nat \<Rightarrow> ('l, 'd) lock_world \<Rightarrow> ('l, 'd) lock_world option" where
  "move_thread t s w =
     (if s < length (locks (sharded w))
      then Some (w\<lparr>lock_threads := (lock_threads w)[t := (lock_threads w ! t)\<lparr>thread_shard := s\<rparr>]\<rparr>)
      else None)"

definition guard_of :: "('l, 'd) lock_world \<Rightarrow> nat \<Rightarrow> guard" where
  "guard_of w t = guard (lock_threads w ! t)"

text \<open>The steps of one thread; \<open>None\<close> means that the thread is blocked.\<close>

datatype 'd lock_action = Read | TryRead | Write | DropGuard | Mutate "'d \<Rightarrow> 'd" | Move nat | Proceed

definition lock_act :: "'l RwLock_ops \<Rightarrow> nat \<Rightarrow> 'd lock_action \<Rightarrow> ('l, 'd) lock_world \<Rightarrow> ('l, 'd) lock_world option" where
  "lock_act L t a w = (case (guard_of w t, a) of
      (NoGuard, Read) \<Rightarrow> read_lock L t w
    | (NoGuard, TryRead) \<Rightarrow> try_read_lock L t w
    | (NoGuard, Write) \<Rightarrow> Some (set_guard t (WriteLocking 0) w)
    | (NoGuard, Move s) \<Rightarrow> move_thread t s w
    | (ReadGuard s, DropGuard) \<Rightarrow> Some (read_unlock L t s w)
    | (ReadGuard s, Move s') \<Rightarrow> move_thread t s' w
    | (WriteLocking k, Proceed) \<Rightarrow> write_lock L t k w
    | (WriteGuard, Mutate f) \<Rightarrow> Some (write_data f w)
    | (WriteGuard, Move s) \<Rightarrow> move_thread t s w
    | (WriteGuard, DropGuard) \<Rightarrow> Some (set_guard t (WriteUnlocking 0) w)
    | (WriteUnlocking k, Proceed) \<Rightarrow> Some (write_unlock L t k w)
    | _ \<Rightarrow> None)"

inductive lock_step :: "'l RwLock_ops \<Rightarrow> ('l, 'd) lock_world \<Rightarrow> ('l, 'd) lock_world \<Rightarrow> bool"
  for L :: "'l RwLock_ops" where
  "t < length (lock_threads w) \<Longrightarrow> lock_act L t a w = Some w' \<Longrightarrow> lock_step L w w'"

definition lock_init :: "'l RwLock_ops \<Rightarrow> nat \<Rightarrow> ('l, 'd) lock_world \<Rightarrow> bool" where
  "lock_init L n w \<longleftrightarrow> (\<exists>v. sharded w = ShardedRwLock_new L n v)
     \<and> (\<forall>th \<in> set (lock_threads w). guard th = NoGuard \<and> thread_shard th < n)"

section \<open>Invariant\<close>

fun reads :: "nat \<Rightarrow> guard \<Rightarrow> bool" where
  "reads i (ReadGuard s) = (s = i)"
| "reads i _ = False"

text \<open>Which shards' locks a thread holds for writing.\<close>

fun writes :: "nat \<Rightarrow> guard \<Rightarrow> bool" where
  "writes i (WriteLocking k) = (i < k)"
| "writes i WriteGuard = True"
| "writes i (WriteUnlocking k) = (k \<le> i)"
| "writes i _ = False"

fun guard_ok :: "nat \<Rightarrow> guard \<Rightarrow> bool" where
  "guard_ok n (ReadGuard s) = (s < n)"
| "guard_ok n (WriteLocking k) = (k \<le> n)"
| "guard_ok n (WriteUnlocking k) = (k \<le> n)"
| "guard_ok n _ = True"

definition count_guards :: "(guard \<Rightarrow> bool) \<Rightarrow> ('l, 'd) lock_world \<Rightarrow> nat" where
  "count_guards P w = sum_list (map (\<lambda>th. of_bool (P (guard th))) (lock_threads w))"

definition lock_inv :: "('l \<Rightarrow> nat) \<Rightarrow> ('l \<Rightarrow> bool) \<Rightarrow> nat \<Rightarrow> ('l, 'd) lock_world \<Rightarrow> bool" where
  "lock_inv readers writer n w \<longleftrightarrow> length (locks (sharded w)) = n
   \<and> (\<forall>th \<in> set (lock_threads w). thread_shard th < n \<and> guard_ok n (guard th))
   \<and> (\<forall>i < n. count_guards (reads i) w = readers (locks (sharded w) ! i)
        \<and> count_guards (writes i) w = of_bool (writer (locks (sharded w) ! i))
        \<and> (writer (locks (sharded w) ! i) \<longrightarrow> readers (locks (sharded w) ! i) = 0))"

lemma count_set_guard:
  "t < length (lock_threads w) \<Longrightarrow>
     int (count_guards P (set_guard t g w)) = int (count_guards P w) - of_bool (P (guard_of w t)) + of_bool (P g)"
  by (simp add: count_guards_def set_guard_def guard_of_def int_sum_list_update)

lemma count_positive: "t < length (lock_threads w) \<Longrightarrow> P (guard_of w t) \<Longrightarrow> 0 < count_guards P w"
  using sum_list_member_nat [of "lock_threads w ! t" "lock_threads w" "\<lambda>th. of_bool (P (guard th))"]
  by (simp add: count_guards_def guard_of_def)

lemma lock_invD:
  assumes "lock_inv readers writer n w"
  shows "length (locks (sharded w)) = n"
    and "t < length (lock_threads w) \<Longrightarrow> thread_shard (lock_threads w ! t) < n"
    and "t < length (lock_threads w) \<Longrightarrow> guard_ok n (guard_of w t)"
    and "i < n \<Longrightarrow> count_guards (reads i) w = readers (locks (sharded w) ! i)"
    and "i < n \<Longrightarrow> count_guards (writes i) w = of_bool (writer (locks (sharded w) ! i))"
    and "i < n \<Longrightarrow> writer (locks (sharded w) ! i) \<Longrightarrow> readers (locks (sharded w) ! i) = 0"
  using assms by (auto simp: lock_inv_def guard_of_def)

text \<open>A thread changes its guard and the lock of one shard.\<close>

lemma lock_change:
  assumes i: "lock_inv readers writer n w" and t: "t < length (lock_threads w)" and k: "k < n" and g: "guard_ok n g"
    and other: "\<And>j. j < n \<Longrightarrow> j \<noteq> k \<Longrightarrow> reads j g = reads j (guard_of w t) \<and> writes j g = writes j (guard_of w t)"
    and r: "int (readers l) = int (readers (locks (sharded w) ! k)) - of_bool (reads k (guard_of w t)) + of_bool (reads k g)"
    and wr: "(of_bool (writer l) :: int) = of_bool (writer (locks (sharded w) ! k))
        - of_bool (writes k (guard_of w t)) + of_bool (writes k g)"
    and ex: "writer l \<Longrightarrow> readers l = 0"
  shows "lock_inv readers writer n (set_guard t g (set_lock k l w))"
proof -
  let ?w = "set_guard t g (set_lock k l w)"
  have same: "count_guards P (set_lock k l w) = count_guards P w" "guard_of (set_lock k l w) t = guard_of w t" for P
    by (simp_all add: count_guards_def guard_of_def set_lock_def)
  have cnt: "int (count_guards P ?w) = int (count_guards P w) - of_bool (P (guard_of w t)) + of_bool (P g)" for P
  proof -
    have "t < length (lock_threads (set_lock k l w))" using t by (simp add: set_lock_def)
    from count_set_guard [OF this, of P g] show ?thesis by (simp only: same)
  qed
  have lk: "locks (sharded ?w) = (locks (sharded w))[k := l]" by (simp add: set_guard_def set_lock_def)
  have len: "length (locks (sharded w)) = n" by (rule lock_invD(1) [OF i])
  have "\<forall>th \<in> set (lock_threads ?w). thread_shard th < n \<and> guard_ok n (guard th)"
    using i g t set_update_subset_insert [of "lock_threads w" t "(lock_threads w ! t)\<lparr>guard := g\<rparr>"]
    by (auto simp: lock_inv_def set_guard_def set_lock_def)
  moreover have "count_guards (reads j) ?w = readers (locks (sharded ?w) ! j)
      \<and> count_guards (writes j) ?w = of_bool (writer (locks (sharded ?w) ! j))
      \<and> (writer (locks (sharded ?w) ! j) \<longrightarrow> readers (locks (sharded ?w) ! j) = 0)" if "j < n" for j
  proof (cases "j = k")
    case True
    have "int (count_guards (reads k) ?w) = int (readers l)"
      using cnt [of "reads k"] lock_invD(4) [OF i k] r by simp
    moreover have "int (count_guards (writes k) ?w) = of_bool (writer l)"
      using cnt [of "writes k"] lock_invD(5) [OF i k] wr by simp
    ultimately show ?thesis using True ex k len by (auto simp: lk)
  next
    case False
    have "int (count_guards (reads j) ?w) = int (count_guards (reads j) w)"
      "int (count_guards (writes j) ?w) = int (count_guards (writes j) w)"
      using cnt [of "reads j"] cnt [of "writes j"] other [OF that False] by simp_all
    then have "count_guards (reads j) ?w = count_guards (reads j) w"
      "count_guards (writes j) ?w = count_guards (writes j) w" by (simp_all only: of_nat_eq_iff)
    then show ?thesis using False lock_invD(4-6) [OF i that] by (simp add: lk)
  qed
  ultimately show ?thesis by (simp add: lock_inv_def lk len)
qed

text \<open>A thread changes its guard but holds the same locks as before.\<close>

lemma guard_change:
  assumes i: "lock_inv readers writer n w" and t: "t < length (lock_threads w)" and g: "guard_ok n g"
    and same: "\<And>j. j < n \<Longrightarrow> reads j g = reads j (guard_of w t) \<and> writes j g = writes j (guard_of w t)"
  shows "lock_inv readers writer n (set_guard t g w)"
proof -
  have cnt: "int (count_guards P (set_guard t g w)) = int (count_guards P w) - of_bool (P (guard_of w t)) + of_bool (P g)" for P
    by (rule count_set_guard [OF t])
  have "count_guards (reads j) (set_guard t g w) = count_guards (reads j) w"
    "count_guards (writes j) (set_guard t g w) = count_guards (writes j) w" if "j < n" for j
    using cnt [of "reads j"] cnt [of "writes j"] same [OF that] by simp_all
  moreover have "\<forall>th \<in> set (lock_threads (set_guard t g w)). thread_shard th < n \<and> guard_ok n (guard th)"
    using i g t set_update_subset_insert [of "lock_threads w" t "(lock_threads w ! t)\<lparr>guard := g\<rparr>"]
    by (auto simp: lock_inv_def set_guard_def)
  moreover have "sharded (set_guard t g w) = sharded w" by (simp add: set_guard_def)
  ultimately show ?thesis using i by (simp add: lock_inv_def)
qed

lemma move_shard:
  assumes i: "lock_inv readers writer n w" and t: "t < length (lock_threads w)" and m: "move_thread t s w = Some w'"
  shows "lock_inv readers writer n w'"
proof -
  let ?th = "(lock_threads w ! t)\<lparr>thread_shard := s\<rparr>"
  have s: "s < n" and w': "w' = w\<lparr>lock_threads := (lock_threads w)[t := ?th]\<rparr>"
    using m lock_invD(1) [OF i] by (auto simp: move_thread_def split: if_splits)
  have "count_guards P w' = count_guards P w" for P
  proof -
    have "int (count_guards P w') = int (count_guards P w)"
      using t by (simp add: w' count_guards_def int_sum_list_update)
    then show ?thesis by simp
  qed
  then show ?thesis
    using i t s set_update_subset_insert [of "lock_threads w" t ?th] by (auto simp: lock_inv_def w')
qed

lemma contractD:
  assumes "RwLock_contract L readers writer"
  shows "readers (rw_new L) = 0" "\<not> writer (rw_new L)"
    and "rw_read L l = Some l' \<or> rw_try_read L l = Some l' \<Longrightarrow> \<not> writer l \<and> \<not> writer l' \<and> readers l' = readers l + 1"
    and "rw_write L l = Some l' \<Longrightarrow> \<not> writer l \<and> readers l = 0 \<and> writer l' \<and> readers l' = 0"
    and "\<not> writer l \<Longrightarrow> readers l = 0 \<Longrightarrow> rw_write L l \<noteq> None"
    and "0 < readers l \<Longrightarrow> readers (rw_unlock_read L l) = readers l - 1 \<and> writer (rw_unlock_read L l) = writer l"
    and "writer l \<Longrightarrow> readers (rw_unlock_write L l) = readers l \<and> \<not> writer (rw_unlock_write L l)"
  using assms unfolding RwLock_contract_def by blast+

lemma read_inv:
  assumes c: "RwLock_contract L readers writer" and i: "lock_inv readers writer n w"
    and t: "t < length (lock_threads w)" and g: "guard_of w t = NoGuard"
    and s: "s = thread_shard (lock_threads w ! t)"
    and l: "rw_read L (locks (sharded w) ! s) = Some l \<or> rw_try_read L (locks (sharded w) ! s) = Some l"
  shows "lock_inv readers writer n (set_guard t (ReadGuard s) (set_lock s l w))"
  using contractD(3) [OF c l] lock_invD(2) [OF i t] by (intro lock_change [OF i t]) (auto simp: g s)

lemma read_unlock_inv:
  assumes c: "RwLock_contract L readers writer" and i: "lock_inv readers writer n w"
    and t: "t < length (lock_threads w)" and g: "guard_of w t = ReadGuard s"
  shows "lock_inv readers writer n (read_unlock L t s w)"
proof -
  have s: "s < n" using lock_invD(3) [OF i t] g by simp
  have "0 < readers (locks (sharded w) ! s)"
    using count_positive [OF t, of "reads s"] g lock_invD(4) [OF i s] by simp
  with contractD(6) [OF c this] lock_invD(6) [OF i s] show ?thesis
    unfolding read_unlock_def by (intro lock_change [OF i t s]) (auto simp: g)
qed

lemma write_lock_inv:
  assumes c: "RwLock_contract L readers writer" and i: "lock_inv readers writer n w"
    and t: "t < length (lock_threads w)" and g: "guard_of w t = WriteLocking k"
    and st: "write_lock L t k w = Some w'"
  shows "lock_inv readers writer n w'"
proof (cases "k < n")
  case True
  with st obtain l where l: "rw_write L (locks (sharded w) ! k) = Some l"
    and w': "w' = set_guard t (WriteLocking (Suc k)) (set_lock k l w)"
    by (auto simp: write_lock_def lock_invD(1) [OF i] split: option.splits)
  show ?thesis unfolding w'
    by (rule lock_change [OF i t True]) (use contractD(4) [OF c l] True in \<open>auto simp: g\<close>)
next
  case False
  then have "w' = set_guard t WriteGuard w" using st by (simp add: write_lock_def lock_invD(1) [OF i])
  then show ?thesis using False by (auto intro!: guard_change [OF i t] simp: g)
qed

lemma write_unlock_inv:
  assumes c: "RwLock_contract L readers writer" and i: "lock_inv readers writer n w"
    and t: "t < length (lock_threads w)" and g: "guard_of w t = WriteUnlocking k"
  shows "lock_inv readers writer n (write_unlock L t k w)"
proof (cases "k < n")
  case True
  have "0 < count_guards (writes k) w" using count_positive [OF t, of "writes k"] g by simp
  then have wr: "writer (locks (sharded w) ! k)" using lock_invD(5) [OF i True] by simp
  have "lock_inv readers writer n
      (set_guard t (WriteUnlocking (Suc k)) (set_lock k (rw_unlock_write L (locks (sharded w) ! k)) w))"
    by (rule lock_change [OF i t True]) (use contractD(7) [OF c wr] wr True in \<open>auto simp: g\<close>)
  then show ?thesis using True by (simp add: write_unlock_def lock_invD(1) [OF i])
next
  case False
  have "lock_inv readers writer n (set_guard t NoGuard w)" using False by (auto intro!: guard_change [OF i t] simp: g)
  then show ?thesis using False by (simp add: write_unlock_def lock_invD(1) [OF i])
qed

lemma lock_act_inv:
  assumes c: "RwLock_contract L readers writer" and i: "lock_inv readers writer n w"
    and t: "t < length (lock_threads w)" and st: "lock_act L t a w = Some w'"
  shows "lock_inv readers writer n w'"
proof (cases "guard_of w t")
  case NoGuard
  have wl: "lock_inv readers writer n (set_guard t (WriteLocking 0) w)"
    by (rule guard_change [OF i t]) (simp_all add: NoGuard)
  show ?thesis
    using st NoGuard read_inv [OF c i t NoGuard refl] move_shard [OF i t] i wl
    by (cases a) (auto simp: lock_act_def read_lock_def try_read_lock_def Let_def lock_invD(1) [OF i]
        split: option.splits if_splits)
next
  case (ReadGuard s)
  then show ?thesis
    using st read_unlock_inv [OF c i t ReadGuard] move_shard [OF i t]
    by (cases a) (auto simp: lock_act_def lock_invD(1) [OF i] split: if_splits)
next
  case (WriteLocking k)
  then show ?thesis
    using st write_lock_inv [OF c i t WriteLocking] by (cases a) (auto simp: lock_act_def)
next
  case WriteGuard
  have "lock_inv readers writer n (set_guard t (WriteUnlocking 0) w)"
    by (rule guard_change [OF i t]) (simp_all add: WriteGuard)
  moreover have "lock_inv readers writer n (write_data f w)" for f
    using i by (simp add: lock_inv_def write_data_def count_guards_def)
  ultimately show ?thesis
    using st WriteGuard move_shard [OF i t] by (cases a) (auto simp: lock_act_def)
next
  case (WriteUnlocking k)
  then show ?thesis
    using st write_unlock_inv [OF c i t WriteUnlocking] by (cases a) (auto simp: lock_act_def)
qed

lemma lock_system:
  assumes c: "RwLock_contract L readers writer"
  shows "invariant_system (lock_init L n) (lock_step L) (lock_inv readers writer n)"
proof unfold_locales
  show "lock_inv readers writer n w" if init: "lock_init L n w" for w :: "('a, 'b) lock_world"
  proof -
    have zero: "count_guards P w = 0" if "\<not> P NoGuard" for P
    proof -
      have "\<forall>th \<in> set (lock_threads w). \<not> P (guard th)" using init that by (auto simp: lock_init_def)
      then show ?thesis by (simp add: count_guards_def)
    qed
    show ?thesis
      using init zero contractD(1,2) [OF c] by (auto simp: lock_init_def lock_inv_def ShardedRwLock_new_def)
  qed
  show "lock_inv readers writer n w'" if "lock_inv readers writer n w" "lock_step L w w'"
    for w w' :: "('a, 'b) lock_world"
    using that(2) lock_act_inv [OF c that(1)] by cases blast
qed

lemmas lock_reach_inv = invariant_system.reach_inv [OF lock_system]

lemma count_two:
  assumes "t < length (lock_threads w)" "t' < length (lock_threads w)" "t \<noteq> t'"
    and "P (guard_of w t)" "P (guard_of w t')" "\<not> P NoGuard"
  shows "2 \<le> count_guards P w"
proof -
  have "0 < count_guards P (set_guard t NoGuard w)"
    by (rule count_positive [of t']) (use assms in \<open>simp_all add: set_guard_def guard_of_def\<close>)
  then show ?thesis using count_set_guard [OF assms(1), of P NoGuard] assms(4,6) by simp
qed

lemma write_guard_alone:
  assumes i: "lock_inv readers writer n w" and n: "0 < n"
    and t: "t < length (lock_threads w)" "guard_of w t = WriteGuard"
    and t': "t' < length (lock_threads w)" "t' \<noteq> t"
  shows "guard_of w t' \<noteq> WriteGuard \<and> (\<forall>s. guard_of w t' \<noteq> ReadGuard s)"
proof (intro conjI allI notI)
  assume "guard_of w t' = WriteGuard"
  then have "2 \<le> count_guards (writes 0) w"
    using count_two [OF t(1) t'(1), of "writes 0"] t t' by simp
  then show False using lock_invD(5) [OF i n] by (simp add: of_bool_def split: if_splits)
next
  fix s assume r: "guard_of w t' = ReadGuard s"
  then have s: "s < n" using lock_invD(3) [OF i t'(1)] by simp
  have "0 < count_guards (writes s) w" using count_positive [OF t(1), of "writes s"] t(2) by simp
  then have "writer (locks (sharded w) ! s)" using lock_invD(5) [OF i s] by simp
  moreover have "0 < readers (locks (sharded w) ! s)"
    using count_positive [OF t'(1), of "reads s"] r lock_invD(4) [OF i s] by simp
  ultimately show False using lock_invD(6) [OF i s] by simp
qed

section \<open>Properties\<close>

text \<open>A lock of one shard that meets the contract: a count of readers and a flag.\<close>

definition counting_rwlock :: "(nat \<times> bool) RwLock_ops" where
  "counting_rwlock =
     \<lparr>rw_new = (0, False),
      rw_read = (\<lambda>(r, b). if b then None else Some (r + 1, False)),
      rw_try_read = (\<lambda>(r, b). if b then None else Some (r + 1, False)),
      rw_write = (\<lambda>(r, b). if b \<or> 0 < r then None else Some (0, True)),
      rw_unlock_read = (\<lambda>(r, b). (r - 1, b)), rw_unlock_write = (\<lambda>(r, b). (r, False))\<rparr>"

lemma counting_rwlock_contract: "RwLock_contract counting_rwlock fst snd"
  by (auto simp: RwLock_contract_def counting_rwlock_def split: if_splits)

definition locked_world :: "(nat \<times> bool, nat) lock_world" where
  "locked_world =
     \<lparr>sharded = \<lparr>lock_data = 5, locks = [(0, True)]\<rparr>,
      lock_threads = [\<lparr>thread_shard = 0, guard = WriteGuard\<rparr>, \<lparr>thread_shard = 0, guard = WriteLocking 0\<rparr>]\<rparr>"

fun lock_run :: "'l RwLock_ops \<Rightarrow> (nat \<times> 'd lock_action) list \<Rightarrow> ('l, 'd) lock_world \<Rightarrow> ('l, 'd) lock_world option" where
  "lock_run L [] w = Some w"
| "lock_run L ((t, a) # as) w =
     (if t < length (lock_threads w) then
        (case lock_act L t a w of None \<Rightarrow> None | Some w' \<Rightarrow> lock_run L as w')
      else None)"

lemma lock_run_reach:
  "reach (lock_init L n) (lock_step L) w \<Longrightarrow> lock_run L as w = Some w' \<Longrightarrow> reach (lock_init L n) (lock_step L) w'"
proof (induction L as w rule: lock_run.induct)
  case (2 L t a as w)
  then obtain w1 where "t < length (lock_threads w)" "lock_act L t a w = Some w1" "lock_run L as w1 = Some w'"
    by (auto split: if_splits option.splits)
  with 2 show ?case by (blast intro: reach_step lock_step.intros)
qed simp

definition start_world :: "(nat \<times> bool, nat) lock_world" where
  "start_world = \<lparr>sharded = ShardedRwLock_new counting_rwlock 1 5,
     lock_threads = [\<lparr>thread_shard = 0, guard = NoGuard\<rparr>, \<lparr>thread_shard = 0, guard = NoGuard\<rparr>]\<rparr>"

lemma start_reach: "reach (lock_init counting_rwlock 1) (lock_step counting_rwlock) start_world"
  by (rule reach_init) (auto simp: lock_init_def start_world_def)

lemmas lock_eval = start_world_def ShardedRwLock_new_def counting_rwlock_def lock_act_def guard_of_def
  set_guard_def set_lock_def write_lock_def read_lock_def Let_def

lemma locked_reach: "reach (lock_init counting_rwlock 1) (lock_step counting_rwlock) locked_world"
proof (rule lock_run_reach [OF start_reach])
  show "lock_run counting_rwlock [(0, Write), (0, Proceed), (0, Proceed), (1, Write)] start_world = Some locked_world"
    by (simp add: lock_eval locked_world_def)
qed

text \<open>
  C16: a write guard is exclusive. If the lock of each shard behaves as documented, then in every
  interleaving, while one thread holds the write guard of the sharded lock, no other thread holds a
  write guard or a read guard, whatever shard it read-locked and even if it has changed its shard
  since.
\<close>

theorem write_guard_exclusive:
  assumes "RwLock_contract L readers writer" "reach (lock_init L n) (lock_step L) w" "0 < n"
    and "t < length (lock_threads w)" "guard_of w t = WriteGuard"
    and "t' < length (lock_threads w)" "t' \<noteq> t"
  shows "guard_of w t' \<noteq> WriteGuard \<and> (\<forall>s. guard_of w t' \<noteq> ReadGuard s)"
  by (rule write_guard_alone [OF lock_reach_inv [OF assms(1,2)] assms(3-)])

theorem write_guard_exclusive_witness:
  "guard_of locked_world 0 = WriteGuard
   \<and> guard_of locked_world 1 \<noteq> WriteGuard \<and> (\<forall>s. guard_of locked_world 1 \<noteq> ReadGuard s)"
  using write_guard_exclusive [OF counting_rwlock_contract locked_reach, of 0 1]
  by (simp add: locked_world_def guard_of_def)

text \<open>
  C32: a read guard protects the data. While a thread holds a read guard, no step of any thread
  changes the data behind the lock.
\<close>

theorem read_guard_protects_data:
  assumes "RwLock_contract L readers writer" "reach (lock_init L n) (lock_step L) w"
    and "t < length (lock_threads w)" "guard_of w t = ReadGuard s" "lock_step L w w'"
  shows "lock_data (sharded w') = lock_data (sharded w)"
  using assms(5)
proof cases
  case (1 t' a)
  note i = lock_reach_inv [OF assms(1,2)]
  have "0 < n" using lock_invD(3) [OF i assms(3)] assms(4) by simp
  then have "guard_of w t' \<noteq> WriteGuard"
    using write_guard_alone [OF i _ 1(1) _ assms(3)] assms(4) by (cases "t = t'") auto
  then show ?thesis using 1(2)
    by (cases "guard_of w t'"; cases a) (auto simp: lock_act_def read_lock_def try_read_lock_def Let_def
        set_guard_def set_lock_def read_unlock_def write_lock_def write_unlock_def move_thread_def split: option.splits if_splits)
qed

definition read_world :: "(nat \<times> bool, nat) lock_world" where
  "read_world =
     \<lparr>sharded = \<lparr>lock_data = 5, locks = [(1, False)]\<rparr>,
      lock_threads = [\<lparr>thread_shard = 0, guard = ReadGuard 0\<rparr>, \<lparr>thread_shard = 0, guard = NoGuard\<rparr>]\<rparr>"

lemma read_reach: "reach (lock_init counting_rwlock 1) (lock_step counting_rwlock) read_world"
proof (rule lock_run_reach [OF start_reach])
  show "lock_run counting_rwlock [(0, Read)] start_world = Some read_world"
    by (simp add: lock_eval read_world_def)
qed

theorem read_guard_protects_data_witness:
  "\<exists>w'. lock_step counting_rwlock read_world w' \<and> lock_data (sharded w') = 5"
proof -
  have st: "lock_step counting_rwlock read_world (set_guard 1 (WriteLocking 0) read_world)"
    by (rule lock_step.intros [of 1 _ _ Write]) (simp_all add: read_world_def lock_act_def guard_of_def)
  from read_guard_protects_data [OF counting_rwlock_contract read_reach _ _ st, of 0 0]
  have "lock_data (sharded (set_guard 1 (WriteLocking 0) read_world)) = 5"
    by (simp add: read_world_def guard_of_def)
  with st show ?thesis by blast
qed

text \<open>
  C33: writers do not deadlock. All writers take the locks in the order of the shards, so when a
  thread is waiting in \<open>write\<close> and no read guard exists, some thread that is locking, holding or
  unlocking can take a step.
\<close>

theorem writers_not_deadlocked:
  assumes "RwLock_contract L readers writer" "reach (lock_init L n) (lock_step L) w"
    and "t < length (lock_threads w)" "guard_of w t = WriteLocking k"
    and "\<forall>t' < length (lock_threads w). \<forall>s. guard_of w t' \<noteq> ReadGuard s"
  shows "\<exists>t' a w'. t' < length (lock_threads w) \<and> guard_of w t' \<noteq> NoGuard \<and> lock_act L t' a w = Some w'"
proof (cases "\<exists>t' < length (lock_threads w). guard_of w t' = WriteGuard \<or> (\<exists>j. guard_of w t' = WriteUnlocking j)")
  case True
  then obtain t' where t': "t' < length (lock_threads w)"
    and g: "guard_of w t' = WriteGuard \<or> (\<exists>j. guard_of w t' = WriteUnlocking j)" by blast
  from g have "\<exists>a w'. lock_act L t' a w = Some w'"
    by (auto simp: lock_act_def intro: exI [of _ DropGuard] exI [of _ Proceed])
  moreover have "guard_of w t' \<noteq> NoGuard" using g by auto
  ultimately show ?thesis using t' by blast
next
  case False
  note i = lock_reach_inv [OF assms(1,2)]
  have k': "\<exists>t'. t' < length (lock_threads w) \<and> guard_of w t' = WriteLocking k" using assms(3,4) by blast
  define P where "P = (\<lambda>k. \<exists>t' < length (lock_threads w). guard_of w t' = WriteLocking k)"
  have bound: "P j \<Longrightarrow> j \<le> n" for j using lock_invD(3) [OF i] by (fastforce simp: P_def)
  define m where "m = Greatest P"
  have m: "P m" and max: "P j \<Longrightarrow> j \<le> m" for j
    using GreatestI_nat [of P k n] Greatest_le_nat [of P _ n] k' bound by (auto simp: P_def m_def)
  from m obtain u where u: "u < length (lock_threads w)" "guard_of w u = WriteLocking m" by (auto simp: P_def)
  have "write_lock L u m w \<noteq> None"
  proof (cases "m < n")
    case lt: True
    have no: "\<not> reads m (guard th) \<and> \<not> writes m (guard th)" if "th \<in> set (lock_threads w)" for th
    proof -
      from that obtain v where v: "v < length (lock_threads w)" "guard th = guard_of w v"
        by (auto simp: in_set_conv_nth guard_of_def)
      show ?thesis
        using v assms(5) False max by (cases "guard_of w v") (fastforce simp: P_def)+
    qed
    then have "count_guards (reads m) w = 0" "count_guards (writes m) w = 0" by (simp_all add: count_guards_def)
    then have "rw_write L (locks (sharded w) ! m) \<noteq> None"
      using lock_invD(4,5) [OF i lt] contractD(5) [OF assms(1)] by (simp del: not_None_eq)
    then show ?thesis by (auto simp: write_lock_def)
  qed (simp add: write_lock_def lock_invD(1) [OF i])
  then obtain w' where "write_lock L u m w = Some w'" by blast
  with u have "lock_act L u Proceed w = Some w'" by (simp add: lock_act_def)
  with u show ?thesis by (metis guard.distinct(3))
qed

theorem writers_not_deadlocked_witness:
  "\<exists>t' a w'. t' < length (lock_threads locked_world) \<and> guard_of locked_world t' \<noteq> NoGuard
     \<and> lock_act counting_rwlock t' a locked_world = Some w'"
  by (rule writers_not_deadlocked [OF counting_rwlock_contract locked_reach, of 1 0])
    (auto simp: locked_world_def guard_of_def less_Suc_eq)

end
