(* ===== verification/Spec2Isabelle.thy ===== *)
theory Spec2Isabelle
  imports Collector_Thread Sdarc_Spec Sdarc_Deep Sdarc_VTable Sdarc_Allocation Machine_Width Shard_Index Sharded_RwLock Sharded_Alloc_System
begin

text \<open>
  A verification of \<^verbatim>\<open>sdarc\<close>, a Rust crate with a sharded, deferred, atomically reference-counted
  pointer. An \<open>Sdarc\<close> points at a heap object with one tagged counter per shard; a thread increments and
  decrements the counter of its own shard, and one background collector adds the counters up and frees
  the objects whose sum has reached zero. \<open>AtomicNullableSdarc\<close> and \<open>AtomicSdarc\<close> are cells that hold such
  a pointer, \<open>WeakSdarc\<close> is a weak reference that can be upgraded. A reader that has loaded a pointer and
  not counted it yet is protected by a reader critical section, on which the collector spins. The
  counters live in slots of a sharded allocator.

  \<^bold>\<open>Parts of the program and their theories.\<close>

  \<^item> \<^verbatim>\<open>src/src/tagged_counter.rs\<close>: \<open>Tagged_Counter\<close>. The operations on 64-bit words, the compare-exchange
    loop of the decrement against an environment, the same formulas on integers, and the interface
    \<open>tagged_counters\<close> through which every client sees a counter. \<open>Machine_Width\<close> bounds the counters and
    the collector's sums in any run of the system.
  \<^item> \<^verbatim>\<open>src/src/env_params.rs\<close>: \<open>Env_Params\<close>. Parsing of the two environment variables, the panics.
  \<^item> \<^verbatim>\<open>src/src/shard_index.rs\<close>: \<open>Shard_Index\<close>. The shard count, shard indexes, arrays with one element per
    shard. The static \<open>SHARD_COUNT\<close> is an argument of the definitions that read it.
  \<^item> \<^verbatim>\<open>src/src/sharded_rwlock.rs\<close>: \<open>Sharded_RwLock\<close>. A reader locks one shard, a writer all in order.
    \<open>parking_lot::RwLock\<close> is a parameter, and \<open>RwLock_contract\<close> states what its documentation promises.
  \<^item> \<^verbatim>\<open>src/src/sharded_alloc.rs\<close>: \<open>Sharded_Alloc\<close> has the units, groups, boxes and the maintenance by the
    collector; \<open>Sharded_Alloc_Correct\<close> the lemmas about units and groups; \<open>Sharded_Alloc_System\<close> the
    invariant of all groups, the abstract allocator of slots (locale \<open>slot_allocator\<close>) and the proof that
    the code implements it. The global allocator is a parameter: a fresh block, or none.
  \<^item> \<^verbatim>\<open>src/src/sdarc.rs\<close>, \<^verbatim>\<open>src/src/reader_critical_section.rs\<close>: \<open>Sdarc_World\<close>. The shared state as a
    record \<open>world\<close>, and every operation of a user thread, cut at its accesses to shared memory; the
    constructors of \<open>pc\<close> are the points in between. \<open>Sdarc_VTable\<close> has the type-erased pointers and the
    tables of functions through which the collector reaches objects of different types.
  \<^item> \<^verbatim>\<open>src/src/collector.rs\<close>: \<open>Sdarc_Collector\<close>. The collector thread, one access per step;
    \<open>CollectorThreadState\<close> and the local variables of its functions are the record \<open>collector\<close>. The whole
    system is \<open>step\<close>, with events of user threads and of the collector. \<open>Collector_Status\<close> has the outer
    loop, its status and the callers of \<open>collector_update_now_and_wait\<close>. \<open>Collector_Thread\<close> is the whole
    process: the loop whose iterations are the steps of \<open>Sdarc_Collector\<close>, user threads and callers.
    \<open>Sdarc_Sequential\<close> has the same functions of \<open>CollectorThreadState\<close> as sequential programs.

  \<^bold>\<open>What the lemmas show.\<close>

  \<^item> \<open>Sdarc_Invariant\<close> states the invariant of the interleaving model. \<open>Sdarc_Moves\<close> is an abstract
    specification of what user threads do to reference counts, and shows that every such move keeps the
    collector's evidence; \<open>Sdarc_User_Steps\<close> shows that each step of a user thread is a move.
    \<open>Sdarc_Collector_Steps\<close> and \<open>Sdarc_Free_Steps\<close> show that each step of the collector keeps the invariant
    and cannot fault. \<open>Sdarc_Safety\<close> puts them together: \<open>reachable\<close> is the set of states the system
    can get to, and the invariant holds there. This theory draws the conclusions: no object is freed too
    early, only garbage is freed, counts are exact, the collector never fails, every object is tracked.
  \<^item> \<open>Sdarc_Spec\<close> is the contract with a client: a reference-counted heap without shards, counters and
    passes. The system refines it, so its clients can reason about the contract alone.
  \<^item> \<open>Sdarc_Functional\<close> says what each operation returns when it is not interrupted, and that \<open>AtomicSdarc\<close>
    never unwraps a null. \<open>Sdarc_Weak\<close> has the structure of weak references and the documented promise
    of \<open>upgrade\<close>. \<open>Sdarc_VTable\<close> shows that erased pointers are cast back to the right type.
  \<^item> \<open>Sdarc_Sequential\<close> proves that the step-by-step collector, run alone, computes the sequential program,
    and \<open>Sdarc_Liveness\<close> that one such update frees all garbage.
  \<^item> \<open>Sdarc_Unreferenced\<close> shows that an object nothing refers to stays so beside running user threads,
    \<open>Collector_Progress\<close> that the iteration in progress carries it towards being freed, and that every
    iteration ends (a lexicographic rank, through the locale \<open>ranked_system\<close>). \<open>Collector_Thread\<close>
    concludes that \<open>collector_update_now_and_wait\<close> returns, and not before such objects are freed.
    \<open>Sdarc_Deep\<close> has updates whose destructors drop handles: deep structures go in one update.
  \<^item> \<open>Sdarc_Allocation\<close> composes objects and allocator: the slots in use are those of the live objects.
  \<^item> \<open>Sdarc_Prelude\<close> has the results of fallible functions, reachability, and the locales \<open>invariant_system\<close>,
    \<open>ranked_system\<close> and \<open>refinement\<close> that invariant, termination and refinement proofs interpret.

  \<^bold>\<open>What the model assumes.\<close>

  \<^item> Accesses interleave sequentially consistently. The memory orders of the source are not modelled, so
    the arguments in its comments about \<open>Acquire\<close>, \<open>Release\<close> and \<open>Relaxed\<close> are not checked.
  \<^item> \<open>handles\<close> is what Rust's ownership gives: a thread clones, drops or moves an \<open>Sdarc\<close> only if one
    exists. Which thread or which object owns it is not recorded.
  \<^item> A successful \<open>compare_and_set\<close> with a non-null pointer runs without interruption in \<open>uc_step\<close>, on which
    \<open>reachable\<close> rests. Interrupted, it breaks memory safety: \<open>compare_and_set_frees_live_object\<close>. The other
    fault, of \<open>Sdarc::drop\<close>, is inside the model: \<open>drop_reads_freed_object\<close> exhibits it and
    \<open>only_drop_notify_faults\<close> shows that it is the only one.
  \<^item> Destructors of user data, run by the collector, may do anything a thread can do (\<open>UserDrop\<close>) in the
    interleaving model; in \<open>Sdarc_Deep\<close> they drop handles, and in the sequential program they touch no
    \<open>Sdarc\<close>, so a handle inside the data of a freed object counts as leaked there. A panic in a destructor is caught by the code and has no further
    effect.
  \<^item> \<open>Sdarc::new\<close> is one step, because no other thread sees the object before the push under the mutex
    of the pending list; so are \<open>get_or_init\<close> in \<open>downgrade\<close> and \<open>new_with_value\<close>.

  \<^bold>\<open>Bounds.\<close> The loop of inner iterations stops at 100000, as in the code; \<open>garbage_collected\<close> asks for at
  most a third as many objects, because an object needs at most three passes (zero sum found, back
  reference cleared, freed). \<open>counters_never_overflow\<close> asks for fewer than \<open>2 ^ 62 - 1\<close> steps times shards.
  The iteration numbers of \<open>Collector_Status\<close> are 64-bit words and its properties ask for fewer than \<open>2 ^ 62\<close>
  iterations. The decrement loop runs against a list of attempts, and \<open>decrement_returns_iff\<close> says exactly
  when it returns. Nothing else has fuel.

  \<^bold>\<open>Not modelled.\<close> Logging and warnings (among them the one after 100000 spins), \<open>Debug\<close> and \<open>Hash\<close>
  implementations, the fragment rate of the status report (floating point, only logged), the handler of a
  panic of the collector thread, which \<open>collector_never_fails\<close> shows is not needed for the collector's own
  code, the timing of \<open>park_timeout\<close>, \<open>Send\<close> and \<open>Sync\<close>. The collector model calls the functions of the
  vtable directly; \<open>vtable_dispatch_sound\<close> shows that the calls through the table are the same.
  \<^verbatim>\<open>src/src/lib.rs\<close> only declares modules, and the tests are not part of the implementation.
\<close>

section \<open>Concrete runs\<close>

text \<open>
  Two shards and three threads, the collector thread and two user threads. In \<open>demo\<close>, thread 1 has
  created an object, cloned it and stored one handle in a cell; thread 2 has started to load the
  cell: it has read the pointer but not yet counted its reference.
\<close>

definition demo_run :: "event list" where
  "demo_run = [User 1 (New 10 20 7), User 1 (Clone 10), User 1 (Store 0 (Some 10)),
     User 2 (Load 0), User 2 Continue]"

definition demo_object :: SdarcInner where
  "demo_object = \<lparr>counters_ptr = 20, counters = [4, 0], weak_inner_ref = None, data = UserData 7\<rparr>"

definition demo :: world where
  "demo = \<lparr>shards = 2, heap = [10 \<mapsto> demo_object], used_slots = {20}, atomics = [Some 10],
     handles = (\<lambda>_. 0)(10 := 1),
     threads = [\<lparr>shard_index = 0, pc = Idle, ret = NoRet\<rparr>, \<lparr>shard_index = 0, pc = Idle, ret = NoRet\<rparr>,
       \<lparr>shard_index = 1, pc = LoadInc 10, ret = NoRet\<rparr>],
     critical = [0, 1], pending_to_track = [[(10, 20)], []], coll = init_collector\<rparr>"

text \<open>In \<open>doomed\<close>, an object has been created and dropped, and the collector is about to free it.\<close>

definition doomed_run :: "event list" where
  "doomed_run = [User 1 (New 10 20 7), User 1 (Drop 10), User 1 Continue, User 1 Continue]
     @ replicate 21 Collector"

definition doomed_object :: SdarcInner where
  "doomed_object = \<lparr>counters_ptr = 20, counters = [0], weak_inner_ref = None, data = UserData 7\<rparr>"

definition doomed :: world where
  "doomed = \<lparr>shards = 1, heap = [10 \<mapsto> doomed_object], used_slots = {20}, atomics = [],
     handles = (\<lambda>_. 0)(10 := 0),
     threads = [\<lparr>shard_index = 0, pc = Idle, ret = NoRet\<rparr>, \<lparr>shard_index = 0, pc = Idle, ret = NoRet\<rparr>],
     critical = [0], pending_to_track = [[]],
     coll = \<lparr>tracked_counters = [(20, \<lparr>fat_ptr = 10, tstate = ReadyToFree\<rparr>)], counters_to_recheck = [],
       cpc = Freeing, first_pass = False, loop_counter = 0, shards_to_spin = [], todo = [],
       to_free = [20], to_recheck = []\<rparr>\<rparr>"

text \<open>
  In \<open>dangling\<close>, thread 1 has created and dropped an object and stands before the last statement of
  \<open>Sdarc::drop\<close>; the collector has freed the object in the meantime.
\<close>

definition dangling_run :: "event list" where
  "dangling_run = [User 1 (New 10 20 7), User 1 (Drop 10), User 1 Continue] @ replicate 22 Collector"

definition dangling :: world where
  "dangling = \<lparr>shards = 1, heap = Map.empty, used_slots = {}, atomics = [],
     handles = (\<lambda>_. 0)(10 := 0),
     threads = [\<lparr>shard_index = 0, pc = Idle, ret = NoRet\<rparr>,
       \<lparr>shard_index = 0, pc = DropNotify 10, ret = RetSdarc 10\<rparr>],
     critical = [0], pending_to_track = [[]],
     coll = \<lparr>tracked_counters = [], counters_to_recheck = [],
       cpc = UserDrop, first_pass = False, loop_counter = 0, shards_to_spin = [], todo = [],
       to_free = [], to_recheck = []\<rparr>\<rparr>"

lemma replicate_2 [simp]: "replicate 2 x = [x, x]"
  by (simp add: numeral_2_eq_2)

lemma demo_reachable: "reachable demo"
proof (rule run_reachable)
  show "uc_run demo_run (init_world 2 [0, 0, 1] 1) = Next demo"
    by (simp add: demo_run_def demo_def demo_object_def exec_defs)
qed simp_all

lemma doomed_reachable: "reachable doomed"
proof (rule run_reachable)
  show "uc_run doomed_run (init_world 1 [0, 0] 0) = Next doomed"
    by (simp add: doomed_run_def doomed_def doomed_object_def exec_defs uc_run_replicate [of _ "[]", simplified])
qed simp_all

lemma doomed_step:
  "step Collector doomed = Next (doomed\<lparr>heap := Map.empty, used_slots := {},
     coll := (coll doomed)\<lparr>to_free := [], tracked_counters := [], cpc := UserDrop\<rparr>\<rparr>)"
  by (simp add: doomed_def doomed_object_def exec_defs fun_eq_iff)

lemma dangling_reachable: "reachable dangling"
proof (rule run_reachable)
  show "uc_run dangling_run (init_world 1 [0, 0] 0) = Next dangling"
    by (simp add: dangling_run_def dangling_def exec_defs fun_eq_iff uc_run_replicate [of _ "[]", simplified])
qed simp_all

section \<open>Memory safety of the whole system\<close>

text \<open>
  C1: no object is freed too early. In every reachable state, whatever the interleaving of user
  threads and collector, an object that a handle or an \<open>AtomicNullableSdarc\<close> refers to, that another
  object's \<open>weak_inner_ref\<close> owns, that an operation in progress holds, or whose pointer a reader has
  loaded in the critical section without having counted it yet, is allocated.
\<close>

theorem no_premature_free:
  assumes "reachable w"
    and "0 < handles w p \<or> Some p \<in> set (atomics w) \<or> owned (heap w) p
       \<or> (\<exists>th \<in> set (threads w). 0 < held (pc th) p \<or> loaded (pc th) = Some p)"
  shows "heap w p \<noteq> None"
proof -
  note i = reachable_inv [OF assms(1)]
  have "0 < strong w p" if "owned (heap w) p" using that by (simp add: strong_def)
  with assms(2) have "0 < strong w p \<or> (\<exists>s. pending_reader (threads w) s p)"
    unfolding in_set_conv_nth Bex_def
    using strong_handle [of w p] strong_cell [of _ w p] strong_held [of _ w p] pending_readerI [of _ w p]
    by metis
  then show ?thesis using invD(4) [OF i] unfolding inv_alive_def by blast
qed

theorem no_premature_free_witness:
  "reachable demo \<and> loaded (pc (threads demo ! 2)) = Some 10 \<and> heap demo 10 \<noteq> None"
  using no_premature_free [of demo 10] demo_reachable by (simp add: demo_def)

text \<open>
  C3: reference counts are exact. In every reachable state the sum of an object's counters over all
  shards is the number of its strong references: handles in user code, cells that contain it,
  references held in the middle of an operation, and the handle in another object's
  \<open>weak_inner_ref\<close>. A single shard may be negative.
\<close>

theorem counters_exact:
  assumes "reachable w" "heap w p = Some ob"
  shows "rc_sum itc_ref_count (counters ob) =
    int (handles w p + count_list (atomics w) (Some p)
      + sum_list (map (\<lambda>th. held (pc th) p) (threads w)) + of_bool (owned (heap w) p))"
  using invD(3) [OF reachable_inv [OF assms(1)]] assms(2) by (simp add: inv_count_def strong_def)

theorem counters_exact_witness:
  "reachable demo \<and> rc_sum itc_ref_count [4, 0] = 2
     \<and> 2 = int (1 + count_list [Some (10::ptr)] (Some 10) + 0 + of_bool (owned (heap demo) 10))"
  using counters_exact [OF demo_reachable, of 10 demo_object] demo_reachable
  by (simp add: demo_def demo_object_def rc_sum_def itc_arith)

text \<open>
  C4: the collector never faults and never gets stuck. In every reachable state in which the
  collector thread is not running user code, its next access succeeds: it does not touch a freed
  object, none of its assertions fails (a tracked slot inserted twice, a negative sum in a re-check,
  \<open>update_state\<close> on a counter that is ready to free, a slot that belongs to another object, a weak
  reference freed with its back reference set), and no \<open>unwrap\<close> meets a missing key.
\<close>

theorem collector_never_fails:
  assumes "reachable w" "pc (threads w ! 0) = Idle"
  shows "\<exists>w'. collector_step w = Next w' \<and> reachable w'"
proof -
  from collector_step_ok [OF sys.reach_inv [OF assms(1)] assms(2)]
  obtain w' where "collector_step w = Next w'" by blast
  moreover from this have "sys_step w w'" by (intro sys_step.intros [of Collector]) simp
  ultimately show ?thesis using reach_step [OF assms(1)] by blast
qed

theorem collector_never_fails_witness:
  "\<exists>w'. collector_step doomed = Next w' \<and> reachable w'"
  by (rule collector_never_fails [OF doomed_reachable]) (simp add: doomed_def)



text \<open>
  C2: only garbage is freed, and only by the collector. If a step frees an object then it is the
  collector's loop in \<open>free_pointers\<close>, the counters of the object sum to zero, no strong reference
  exists, no reader is about to create one, and its weak references can no longer be upgraded.
\<close>

theorem only_garbage_freed:
  assumes "reachable w" "step e w = Next w'" "heap w p = Some ob" "heap w' p = None"
  shows "e = Collector \<and> cpc (coll w) = Freeing \<and> strong w p = 0 \<and> rc_sum itc_ref_count (counters ob) = 0
     \<and> (\<forall>s. \<not> pending_reader (threads w) s p) \<and> \<not> backref_live (heap w) p"
  using step_frees [OF sys.reach_inv [OF assms(1)] assms(2) _ assms(4)] assms(3)
    invD(3) [OF reachable_inv [OF assms(1)]]
  by (simp add: dead_def inv_count_def)

theorem only_garbage_freed_witness:
  "\<exists>w'. step Collector doomed = Next w' \<and> heap w' 10 = None \<and> strong doomed 10 = 0"
proof (intro exI conjI)
  show "strong doomed 10 = 0"
    using only_garbage_freed [OF doomed_reachable doomed_step, of 10 doomed_object] by (simp add: doomed_def)
qed (rule doomed_step, simp)

text \<open>
  C11: \<open>Sdarc::drop\<close> as written has a use after free. The schedule is the smallest there is: one
  shard, one object, one user thread. The thread drops its only handle and stops after the
  decrement; the collector finds the sum zero, clears the tag, re-checks and frees the object, with
  its own assertions all holding; then the thread reads the address of the counters for
  \<open>on_sdarc_drop\<close> from the freed object.
\<close>

theorem drop_reads_freed_object:
  "fault_of (run ([User 1 (New 10 20 7), User 1 (Drop 10), User 1 Continue] @ replicate 22 Collector
      @ [User 1 Continue]) (init_world 1 [0, 0] 0)) = Some (UseAfterFree 10)"
  by (simp add: exec_defs run_replicate)

text \<open>
  C12: \<open>compare_and_set\<close> as written has a use after free. Thread 1 has put its only handle's pointer
  into the cell and has not incremented the counter; thread 2 swaps the pointer out and drops it.
  The counter sum is zero although thread 1 still owns a handle, so the collector frees the object,
  and the increment that \<open>compare_and_set\<close> makes up for hits freed memory.
\<close>

theorem compare_and_set_frees_live_object:
  "fault_of (run ([User 1 (New 10 20 7), User 1 (CompareAndSet 0 None (Some 10)), User 2 (Swap 0 None),
      User 2 (Drop 10), User 2 Continue, User 2 Continue] @ replicate 22 Collector
      @ [User 1 Continue]) (init_world 1 [0, 0, 0] 1)) = Some (UseAfterFree 10)"
  by (simp add: exec_defs run_replicate)



text \<open>
  C19: the collector knows every object. In every reachable state an allocated object is either in
  one of the pending lists or tracked under the address of its counters, never both, and no two
  allocated objects share their counters.
\<close>

theorem every_object_tracked:
  assumes "reachable w" "heap w p = Some ob"
  shows "(((p, counters_ptr ob) \<in> set (concat (pending_to_track w))) \<noteq>
       (\<exists>tc. map_of (tracked_counters (coll w)) (counters_ptr ob) = Some tc \<and> fat_ptr tc = p))
     \<and> (\<forall>p' ob'. heap w p' = Some ob' \<longrightarrow> counters_ptr ob' = counters_ptr ob \<longrightarrow> p' = p)"
proof (intro conjI allI impI)
  note i = reachable_inv [OF assms(1)]
  have m: "meta (heap w) p = Some (counters_ptr ob, weak_inner_ref ob, data ob)"
    using assms(2) by (rule meta_SomeI)
  show "((p, counters_ptr ob) \<in> set (concat (pending_to_track w))) \<noteq>
      (\<exists>tc. map_of (tracked_counters (coll w)) (counters_ptr ob) = Some tc \<and> fat_ptr tc = p)"
    using inv_trackD(6) [OF invD(8) [OF i] m] inv_trackD(3) [OF invD(8) [OF i], of p "counters_ptr ob"]
    by (metis option.distinct(1))
  show "p' = p" if "heap w p' = Some ob'" "counters_ptr ob' = counters_ptr ob" for p' ob'
    using invD(7) [OF i] m meta_SomeI [of "heap w" p' ob'] that unfolding inv_slots_def by metis
qed

theorem every_object_tracked_witness:
  "(10, 20) \<in> set (concat (pending_to_track demo)) \<and> map_of (tracked_counters (coll demo)) 20 = None"
  using every_object_tracked [OF demo_reachable, of 10 demo_object]
  by (simp add: demo_def demo_object_def init_collector_def)

section \<open>The contract with a client\<close>

text \<open>
  C13: the system refines the abstract reference-counted heap. The abstraction of every reachable state is
  a reachable state of the specification, so whatever is referenced there, or can be brought back by an
  upgrade, exists. Each step of a user thread is a sequence of moves of the client (none for the steps a
  client does not see): creating, sharing, moving and releasing references, exchanging the content of a
  cell. Each step of the collector is at most one move of the specification's collector: a weak reference
  expires, or an object is collected that nothing refers to and no weak reference can bring back.
\<close>

theorem sdarc_refines_spec:
  assumes "reachable w"
  shows "reach spec_init spec_step (spec_of w) \<and> spec_inv (spec_of w)
     \<and> (\<forall>t act w'. uc_step (User t act) w = Next w' \<longrightarrow> client_step\<^sup>*\<^sup>* (spec_of w) (spec_of w'))
     \<and> (\<forall>w'. uc_step Collector w = Next w' \<longrightarrow> gc_step\<^sup>=\<^sup>= (spec_of w) (spec_of w'))"
proof -
  have s: "safe w" by (rule sys.reach_inv [OF assms])
  have a: "reach spec_init spec_step (spec_of w)" by (rule client.reach_abstr [OF assms])
  show ?thesis using a spec.reach_inv [OF a] uc_user_refines [OF s] collector_step_refines [OF s] by blast
qed

theorem sdarc_refines_spec_witness:
  "\<exists>w'. uc_step Collector doomed = Next w' \<and> gc_step\<^sup>=\<^sup>= (spec_of doomed) (spec_of w')
     \<and> objs (spec_of doomed) 10 = Some (UserData 7) \<and> objs (spec_of w') 10 = None"
proof (intro exI conjI)
  let ?w = "doomed\<lparr>heap := Map.empty, used_slots := {},
     coll := (coll doomed)\<lparr>to_free := [], tracked_counters := [], cpc := UserDrop\<rparr>\<rparr>"
  show st: "uc_step Collector doomed = Next ?w" by (simp only: uc_step.simps doomed_step)
  show "gc_step\<^sup>=\<^sup>= (spec_of doomed) (spec_of ?w)" using sdarc_refines_spec [OF doomed_reachable] st by blast
qed (simp_all add: doomed_def doomed_object_def)

end
